(* ===== verification/Prelude.thy ===== *)
theory Prelude
  imports Main "HOL-Library.Word" "HOL-Library.Monad_Syntax" "HOL-Library.List_Lexorder"
begin

unbundle bit_operations_syntax

text \<open>
  Shared vocabulary of the development: machine words and byte slices, the byte
  orders of Go's \<^verbatim>\<open>encoding/binary\<close>, slice expressions with their bounds
  checks, and the generic lemmas the components use.

  A Go computation that may panic (an index or a slice bound out of range, an
  explicit \<^verbatim>\<open>panic\<close>, a memory fault) has an \<open>option\<close> type here: \<open>None\<close> means that it
  does not return. A slice is the list of its elements; its capacity is its length.
\<close>

type_synonym byte = "8 word"
type_synonym bytes = "8 word list"
type_synonym u16 = "16 word"
type_synonym u32 = "32 word"
type_synonym u64 = "64 word"

named_theorems byte_simps \<open>slices and reads, with the conditions under which they do not panic\<close>

text \<open>Offsets are sums with numerals; keep them in that form.\<close>

declare add_2_eq_Suc [simp del] add_2_eq_Suc' [simp del]

section \<open>Byte orders\<close>

text \<open>
  \<^verbatim>\<open>binary.LittleEndian.PutUintN\<close> stores the low byte first; \<^verbatim>\<open>UintN\<close> is the
  bitwise or of the shifted bytes. The big-endian versions reverse the bytes.
\<close>

fun le_bytes :: "nat \<Rightarrow> 'a::len word \<Rightarrow> bytes" where
  "le_bytes 0 w = []"
| "le_bytes (Suc n) w = ucast w # le_bytes n (drop_bit 8 w)"

fun le_val :: "bytes \<Rightarrow> 'a::len word" where
  "le_val [] = 0"
| "le_val (b # bs) = ucast b OR push_bit 8 (le_val bs)"

definition be_bytes :: "nat \<Rightarrow> 'a::len word \<Rightarrow> bytes" where
  "be_bytes n w = rev (le_bytes n w)"

definition be_val :: "bytes \<Rightarrow> 'a::len word" where
  "be_val bs = le_val (rev bs)"

lemma length_le_bytes [simp]: "length (le_bytes n w) = n"
  by (induction n arbitrary: w) auto

lemma length_be_bytes [simp]: "length (be_bytes n w) = n"
  by (simp add: be_bytes_def)

lemma le_val_le_bytes: "le_val (le_bytes n w) = take_bit (8 * n) (w :: 'a::len word)"
proof (induction n arbitrary: w)
  case 0
  then show ?case by simp
next
  case (Suc n)
  show ?case
  proof (rule bit_word_eqI)
    fix i assume "i < LENGTH('a)"
    then show "bit (le_val (le_bytes (Suc n) w) :: 'a word) i = bit (take_bit (8 * Suc n) w) i"
      by (cases "i < 8") (auto simp: Suc bit_simps)
  qed
qed

lemma le_val_bound: "bit (le_val bs :: 'a::len word) n \<Longrightarrow> n < 8 * length bs"
  by (induction bs arbitrary: n) (force simp: bit_simps dest: bit_imp_le_length)+

lemma le_bytes_le_val: "8 * length bs \<le> LENGTH('a) \<Longrightarrow> le_bytes (length bs) (le_val bs :: 'a::len word) = bs"
proof (induction bs)
  case (Cons b bs)
  have "drop_bit 8 (le_val (b # bs) :: 'a word) = le_val bs"
  proof (rule bit_word_eqI)
    fix n show "bit (drop_bit 8 (le_val (b # bs) :: 'a word)) n = bit (le_val bs :: 'a word) n"
      using Cons.prems le_val_bound [of bs n, where 'a = 'a] bit_imp_le_length [of b "8 + n"] by (auto simp: bit_simps)
  qed
  moreover have "ucast (le_val (b # bs) :: 'a word) = b"
    using Cons.prems by (auto intro!: bit_word_eqI simp: bit_simps)
  ultimately show ?case using Cons by (simp del: le_val.simps)
qed simp

lemma be_bytes_be_val: "length bs = 4 \<Longrightarrow> be_bytes 4 (be_val bs :: u32) = bs"
  using le_bytes_le_val [of "rev bs", where 'a = 32] by (simp add: be_bytes_def be_val_def)

lemma le_val_u16 [simp]: "le_val (le_bytes 2 w) = (w :: u16)"
  by (simp add: le_val_le_bytes take_bit_word_eq_self)

lemma le_val_u32 [simp]: "le_val (le_bytes 4 w) = (w :: u32)"
  by (simp add: le_val_le_bytes take_bit_word_eq_self)

lemma le_val_u64 [simp]: "le_val (le_bytes 8 w) = (w :: u64)"
  by (simp add: le_val_le_bytes take_bit_word_eq_self)

lemma be_val_u16 [simp]: "be_val (be_bytes 2 w) = (w :: u16)"
  by (simp add: be_val_def be_bytes_def)

lemma be_val_u32 [simp]: "be_val (be_bytes 4 w) = (w :: u32)"
  by (simp add: be_val_def be_bytes_def)

lemma be_val_u64 [simp]: "be_val (be_bytes 8 w) = (w :: u64)"
  by (simp add: be_val_def be_bytes_def)

section \<open>Slice expressions\<close>

text \<open>\<^verbatim>\<open>b[i:]\<close>, \<^verbatim>\<open>b[i:j]\<close> and \<^verbatim>\<open>b[:j]\<close>: out-of-range bounds panic.\<close>

definition slice_from :: "'a list \<Rightarrow> nat \<Rightarrow> 'a list option" where
  "slice_from b i = (if i \<le> length b then Some (drop i b) else None)"

definition slice :: "'a list \<Rightarrow> nat \<Rightarrow> nat \<Rightarrow> 'a list option" where
  "slice b i j = (if i \<le> j \<and> j \<le> length b then Some (take (j - i) (drop i b)) else None)"

definition slice_to :: "'a list \<Rightarrow> nat \<Rightarrow> 'a list option" where
  "slice_to b j = (if j \<le> length b then Some (take j b) else None)"

text \<open>\<^verbatim>\<open>b[i]\<close> as a value.\<close>

definition index :: "'a list \<Rightarrow> nat \<Rightarrow> 'a option" where
  "index b i = (if i < length b then Some (b ! i) else None)"

text \<open>\<open>n\<close>-byte unsigned reads of the front of a slice (\<^verbatim>\<open>Uint16\<close>, \<^verbatim>\<open>Uint32\<close>, \<^verbatim>\<open>Uint64\<close>).\<close>

definition le_get :: "nat \<Rightarrow> bytes \<Rightarrow> 'a::len word option" where
  "le_get n b = (if n \<le> length b then Some (le_val (take n b)) else None)"

definition be_get :: "nat \<Rightarrow> bytes \<Rightarrow> 'a::len word option" where
  "be_get n b = (if n \<le> length b then Some (be_val (take n b)) else None)"

declare slice_def [byte_simps] slice_from_def [byte_simps] slice_to_def [byte_simps] index_def [byte_simps]
  le_get_def [byte_simps] be_get_def [byte_simps]

definition u16_at :: "bytes \<Rightarrow> nat \<Rightarrow> u16 option" where
  "u16_at b i = slice_from b i \<bind> le_get 2"

definition u64_at :: "bytes \<Rightarrow> nat \<Rightarrow> u64 option" where
  "u64_at b i = slice_from b i \<bind> le_get 8"

text \<open>
  Overwriting \<open>b\<close> from index \<open>i\<close> with \<open>xs\<close>, which fits; \<open>put_at\<close> is a
  \<^verbatim>\<open>PutUintN(b[i:], v)\<close>, which panics where the bytes do not fit, and \<open>copy_at\<close> is
  \<^verbatim>\<open>copy(b[i:], xs)\<close>, which copies as many elements as fit and panics only where
  the slice expression \<^verbatim>\<open>b[i:]\<close> does.
\<close>

definition overwrite :: "'a list \<Rightarrow> nat \<Rightarrow> 'a list \<Rightarrow> 'a list" where
  "overwrite b i xs = take i b @ xs @ drop (i + length xs) b"

definition put_at :: "'a list \<Rightarrow> nat \<Rightarrow> 'a list \<Rightarrow> 'a list option" where
  "put_at b i xs = (if i + length xs \<le> length b then Some (overwrite b i xs) else None)"

definition copy_at :: "'a list \<Rightarrow> nat \<Rightarrow> 'a list \<Rightarrow> 'a list option" where
  "copy_at b i xs =
     (if i \<le> length b then Some (overwrite b i (take (length b - i) xs)) else None)"

text \<open>The window of \<open>l\<close> elements at index \<open>i\<close>, for specifications.\<close>

definition window :: "'a list \<Rightarrow> nat \<Rightarrow> nat \<Rightarrow> 'a list" where
  "window b i l = take l (drop i b)"

lemma length_overwrite [simp]:
  "i + length xs \<le> length b \<Longrightarrow> length (overwrite b i xs) = length b"
  by (simp add: overwrite_def)

lemma length_window: "i + l \<le> length b \<Longrightarrow> length (window b i l) = l"
  by (simp add: window_def)

lemma window_overwrite_same:
  "i + length xs \<le> length b \<Longrightarrow> l = length xs \<Longrightarrow> window (overwrite b i xs) i l = xs"
  by (simp add: window_def overwrite_def)

lemma window_overwrite_before:
  "j + l \<le> i \<Longrightarrow> i + length xs \<le> length b \<Longrightarrow> window (overwrite b i xs) j l = window b j l"
  by (auto simp: window_def overwrite_def drop_take min_def)

lemma window_overwrite_after:
  "i + length xs \<le> j \<Longrightarrow> i + length xs \<le> length b \<Longrightarrow>
   window (overwrite b i xs) j l = window b j l"
  by (simp add: window_def overwrite_def drop_append)

lemma overwrite_overwrite:
  "i + length xs + length ys \<le> length b \<Longrightarrow>
   overwrite (overwrite b i xs) (i + length xs) ys = overwrite b i (xs @ ys)"
  by (simp add: overwrite_def ac_simps)

lemma window_split: "window b i (m + n) = window b i m @ window b (i + m) n"
  by (simp add: window_def take_add add.commute)

lemma put_at_Some:
  "i + length xs \<le> length b \<Longrightarrow> put_at b i xs = Some (overwrite b i xs)"
  by (simp add: put_at_def)

lemma copy_at_Some:
  "i + length xs \<le> length b \<Longrightarrow> copy_at b i xs = Some (overwrite b i xs)"
  by (simp add: copy_at_def)

lemma copy_at_length: "copy_at b i xs = Some b' \<Longrightarrow> length b' = length b"
  by (auto simp: copy_at_def overwrite_def split: if_splits)

lemma put_at_length: "put_at b i xs = Some b' \<Longrightarrow> length b' = length b"
  by (auto simp: put_at_def split: if_splits)

text \<open>A little-endian read at an offset is the value of the window there.\<close>

lemma u16_at_window:
  "window b i 2 = le_bytes 2 w \<Longrightarrow> i + 2 \<le> length b \<Longrightarrow> u16_at b i = Some w"
  by (simp add: u16_at_def byte_simps window_def)

lemma u64_at_window:
  "window b i 8 = le_bytes 8 w \<Longrightarrow> i + 8 \<le> length b \<Longrightarrow> u64_at b i = Some w"
  by (simp add: u64_at_def byte_simps window_def)

lemma unat_of_nat_u16: "n < 65536 \<Longrightarrow> unat (of_nat n :: u16) = n"
  by (simp add: unsigned_of_nat take_bit_nat_eq_self)

lemma unat_of_nat_add_u16:
  "q + numeral m < (65536 :: nat) \<Longrightarrow> unat (of_nat q + numeral m :: u16) = q + numeral m"
  "q + numeral m + l < (65536 :: nat) \<Longrightarrow>
   unat (of_nat q + numeral m + of_nat l :: u16) = q + numeral m + l"
  using unat_of_nat_u16 [of "q + numeral m"] unat_of_nat_u16 [of "q + numeral m + l"]
  by (simp_all only: of_nat_add of_nat_numeral)

text \<open>Exclusive or cancels.\<close>

lemma xor_cancel_right: "x XOR p = y XOR p \<longleftrightarrow> x = (y :: 'a::len word)"
proof
  assume "x XOR p = y XOR p"
  then have "(x XOR p) XOR p = (y XOR p) XOR p" by (simp only:)
  then show "x = y" by (simp add: xor.assoc)
qed simp

lemma xor_cancel_left: "p XOR x = p XOR y \<longleftrightarrow> x = (y :: 'a::len word)"
  using xor_cancel_right [of x p y] by (simp add: xor.commute)

section \<open>Order of byte strings\<close>

text \<open>The lexicographic order of \<^verbatim>\<open>List_Lexorder\<close> on byte strings is the key order.\<close>

lemma bytes_Cons_less_Cons [simp]:
  "(x # xs :: bytes) < y # ys \<longleftrightarrow> x < y \<or> x = y \<and> xs < ys"
  by (rule Cons_less_Cons)

lemma bytes_less_append: "b \<noteq> [] \<Longrightarrow> a < a @ (b :: bytes)"
  by (induction a) (auto simp: neq_Nil_conv)

end
