(* ===== verification/Node.thy ===== *)
theory Node
  imports Prelude
begin

text \<open>
  The page layout of a B+tree node, \<^verbatim>\<open>internal/btree/node.go\<close>. A node is a byte
  slice: a type and a key count (two bytes each), \<open>nkeys\<close> child pointers of eight
  bytes, \<open>nkeys\<close> offsets of two bytes (the offset of entry 0 is not stored), and the
  key/value pairs, each with its two lengths in front. All positions are computed in
  \<^verbatim>\<open>uint16\<close> arithmetic, as in the source.

  The definitions follow the source on the raw bytes. \<open>bnode\<close> relates a byte slice
  to the node type and the list of entries it stores; the lemmas show that every
  accessor returns the component of that list and that appending to a node appends
  to the list.
\<close>

definition HEADER :: u16 where
  "HEADER = 4"

definition BTREE_PAGE_SIZE :: nat where
  "BTREE_PAGE_SIZE = 4096"

definition BNODE_INTERNAL :: u16 where
  "BNODE_INTERNAL = 1"

definition BNODE_LEAF :: u16 where
  "BNODE_LEAF = 2"

section \<open>Comparing keys\<close>

text \<open>The loop runs over the common prefix; the lengths decide after it.\<close>

fun cmp :: "bytes \<Rightarrow> bytes \<Rightarrow> int" where
  "cmp [] [] = 0"
| "cmp [] (y # ys) = -1"
| "cmp (x # xs) [] = 1"
| "cmp (x # xs) (y # ys) = (if x < y then -1 else if x > y then 1 else cmp xs ys)"

definition CompareKeys :: "bytes \<Rightarrow> bytes \<Rightarrow> int" where
  "CompareKeys a b = cmp a b"

section \<open>Accessors\<close>

definition btype :: "bytes \<Rightarrow> u16 option" where
  "btype node = u16_at node 0"

definition nkeys :: "bytes \<Rightarrow> u16 option" where
  "nkeys node = u16_at node 2"

definition setHeader :: "bytes \<Rightarrow> u16 \<Rightarrow> u16 \<Rightarrow> bytes option" where
  "setHeader node t n = do {
     node \<leftarrow> put_at node 0 (le_bytes 2 t);
     put_at node 2 (le_bytes 2 n)
   }"

definition getPtr :: "bytes \<Rightarrow> u16 \<Rightarrow> u64 option" where
  "getPtr node idx = u64_at node (unat (HEADER + 8 * idx))"

definition setPtr :: "bytes \<Rightarrow> u16 \<Rightarrow> u64 \<Rightarrow> bytes option" where
  "setPtr node idx val = put_at node (unat (HEADER + 8 * idx)) (le_bytes 8 val)"

definition offsetPos :: "bytes \<Rightarrow> u16 \<Rightarrow> u16 option" where
  "offsetPos node idx = do {
     n \<leftarrow> nkeys node;
     Some (HEADER + 8 * n + 2 * (idx - 1))
   }"

definition getOffset :: "bytes \<Rightarrow> u16 \<Rightarrow> u16 option" where
  "getOffset node idx =
     (if idx = 0 then Some 0
      else do {
        pos \<leftarrow> offsetPos node idx;
        u16_at node (unat pos)
      })"

definition setOffset :: "bytes \<Rightarrow> u16 \<Rightarrow> u16 \<Rightarrow> bytes option" where
  "setOffset node idx offset = do {
     pos \<leftarrow> offsetPos node idx;
     put_at node (unat pos) (le_bytes 2 offset)
   }"

definition kvPos :: "bytes \<Rightarrow> u16 \<Rightarrow> u16 option" where
  "kvPos node idx = do {
     n \<leftarrow> nkeys node;
     off \<leftarrow> getOffset node idx;
     Some (HEADER + 8 * n + 2 * n + off)
   }"

definition nbytes :: "bytes \<Rightarrow> u16 option" where
  "nbytes node = nkeys node \<bind> kvPos node"

definition getKey :: "bytes \<Rightarrow> u16 \<Rightarrow> bytes option" where
  "getKey node idx = do {
     pos \<leftarrow> kvPos node idx;
     klen \<leftarrow> u16_at node (unat pos);
     rest \<leftarrow> slice_from node (unat (pos + 4));
     slice_to rest (unat klen)
   }"

definition getVal :: "bytes \<Rightarrow> u16 \<Rightarrow> bytes option" where
  "getVal node idx = do {
     pos \<leftarrow> kvPos node idx;
     klen \<leftarrow> u16_at node (unat pos);
     vlen \<leftarrow> u16_at node (unat (pos + 2));
     rest \<leftarrow> slice_from node (unat (pos + 4 + klen));
     slice_to rest (unat vlen)
   }"

section \<open>Building a node\<close>

definition nodeAppendKV :: "bytes \<Rightarrow> u16 \<Rightarrow> u64 \<Rightarrow> bytes \<Rightarrow> bytes \<Rightarrow> bytes option" where
  "nodeAppendKV new idx ptr key val = do {
     new \<leftarrow> setPtr new idx ptr;
     pos \<leftarrow> kvPos new idx;
     new \<leftarrow> put_at new (unat (pos + 0)) (le_bytes 2 (of_nat (length key) :: u16));
     new \<leftarrow> put_at new (unat (pos + 2)) (le_bytes 2 (of_nat (length val) :: u16));
     new \<leftarrow> copy_at new (unat (pos + 4)) key;
     new \<leftarrow> copy_at new (unat (pos + 4 + of_nat (length key))) val;
     off \<leftarrow> getOffset new idx;
     setOffset new (idx + 1) (off + 4 + of_nat (length key + length val))
   }"

text \<open>The loop of \<open>nodeAppendRange\<close> with \<open>k\<close> iterations left.\<close>

fun nodeAppendRange_loop :: "nat \<Rightarrow> bytes \<Rightarrow> bytes \<Rightarrow> u16 \<Rightarrow> u16 \<Rightarrow> bytes option" where
  "nodeAppendRange_loop 0 new old dst src = Some new"
| "nodeAppendRange_loop (Suc k) new old dst src = do {
     ptr \<leftarrow> getPtr old src;
     key \<leftarrow> getKey old src;
     val \<leftarrow> getVal old src;
     new \<leftarrow> nodeAppendKV new dst ptr key val;
     nodeAppendRange_loop k new old (dst + 1) (src + 1)
   }"

definition nodeAppendRange :: "bytes \<Rightarrow> bytes \<Rightarrow> u16 \<Rightarrow> u16 \<Rightarrow> u16 \<Rightarrow> bytes option" where
  "nodeAppendRange new old dstNew srcOld n = nodeAppendRange_loop (unat n) new old dstNew srcOld"

section \<open>Searching a node\<close>

lemma mid_bounds:
  fixes lo hi :: u16
  assumes "lo < hi"
  shows "unat (lo + (hi - lo) div 2) = unat lo + (unat hi - unat lo) div 2"
proof -
  have "unat (hi - lo) = unat hi - unat lo"
    using assms by (simp add: unat_sub order_less_imp_le)
  then have d: "unat ((hi - lo) div 2) = (unat hi - unat lo) div 2"
    by (simp add: unat_div)
  have "unat hi < 65536" using unsigned_less [of hi] by simp
  then have "unat lo + unat ((hi - lo) div 2) < 65536"
    using assms by (simp add: d word_less_nat_alt)
  then have "unat (lo + (hi - lo) div 2) = unat lo + unat ((hi - lo) div 2)"
    using unat_add_lem [of lo "(hi - lo) div 2"] by simp
  then show ?thesis by (simp only: d)
qed

function nodeLookupLE_loop :: "bytes \<Rightarrow> bytes \<Rightarrow> u16 \<Rightarrow> u16 \<Rightarrow> u16 option" where
  "nodeLookupLE_loop node key lo hi =
     (if lo < hi then do {
        let mid = lo + (hi - lo) div 2;
        k \<leftarrow> getKey node mid;
        (if cmp k key \<le> 0 then nodeLookupLE_loop node key (mid + 1) hi
         else nodeLookupLE_loop node key lo mid)
      }
      else Some lo)"
  by pat_completeness auto
termination
proof (relation "measure (\<lambda>(node, key, lo, hi). unat hi - unat lo)", goal_cases)
  case 1
  then show ?case by simp
next
  case (2 node key lo hi mid k)
  have m: "unat mid = unat lo + (unat hi - unat lo) div 2"
    using mid_bounds [OF 2(1)] 2(2) by simp
  have "unat lo < unat hi" using 2(1) by (simp add: word_less_nat_alt)
  moreover have "unat hi < 65536" using unsigned_less [of hi] by simp
  ultimately have "unat mid + 1 < 65536" and lt: "unat mid < unat hi" using m by auto
  then have "unat (mid + 1) = unat mid + 1" by (simp add: unat_word_ariths)
  moreover have "unat lo \<le> unat mid" using m by simp
  ultimately show ?case using lt by simp
next
  case (3 node key lo hi mid k)
  have m: "unat mid = unat lo + (unat hi - unat lo) div 2"
    using mid_bounds [OF 3(1)] 3(2) by simp
  have "unat lo < unat hi" using 3(1) by (simp add: word_less_nat_alt)
  with m show ?case by auto
qed

declare nodeLookupLE_loop.simps [simp del]

definition nodeLookupLE :: "bytes \<Rightarrow> bytes \<Rightarrow> u16 option" where
  "nodeLookupLE node key = do {
     n \<leftarrow> nkeys node;
     lo \<leftarrow> nodeLookupLE_loop node key 0 n;
     Some (if lo = 0 then 0 else lo - 1)
   }"

section \<open>What a node stores\<close>

text \<open>
  An entry is a child pointer, a key and a value. \<open>filled b t n es\<close>: the header of
  \<open>b\<close> announces type \<open>t\<close> and \<open>n\<close> keys, and the first \<open>length es\<close> of them are in
  place. \<open>bnode b t es\<close>: the node is complete.
\<close>

type_synonym entry = "u64 \<times> bytes \<times> bytes"

fun kvsize :: "entry \<Rightarrow> nat" where
  "kvsize (p, k, v) = 4 + length k + length v"

definition kvoff :: "entry list \<Rightarrow> nat" where
  "kvoff es = sum_list (map kvsize es)"

definition node_size :: "entry list \<Rightarrow> nat" where
  "node_size es = 4 + 10 * length es + kvoff es"

fun kvbytes :: "entry \<Rightarrow> bytes" where
  "kvbytes (p, k, v) =
     le_bytes 2 (of_nat (length k) :: u16) @ le_bytes 2 (of_nat (length v) :: u16) @ k @ v"

definition filled :: "bytes \<Rightarrow> u16 \<Rightarrow> nat \<Rightarrow> entry list \<Rightarrow> bool" where
  "filled b t n es \<longleftrightarrow>
     length b < 65536 \<and> 4 + 10 * n + kvoff es \<le> length b \<and> length es \<le> n \<and>
     window b 0 2 = le_bytes 2 t \<and> window b 2 2 = le_bytes 2 (of_nat n :: u16) \<and>
     (\<forall>j < length es.
        window b (4 + 8 * j) 8 = le_bytes 8 (fst (es ! j)) \<and>
        window b (4 + 8 * n + 2 * j) 2 = le_bytes 2 (of_nat (kvoff (take (Suc j) es)) :: u16) \<and>
        window b (4 + 10 * n + kvoff (take j es)) (kvsize (es ! j)) = kvbytes (es ! j))"

definition bnode :: "bytes \<Rightarrow> u16 \<Rightarrow> entry list \<Rightarrow> bool" where
  "bnode b t es \<longleftrightarrow> filled b t (length es) es"

lemma kvoff_simps [simp]:
  "kvoff [] = 0" "kvoff (e # es) = kvsize e + kvoff es" "kvoff (es @ fs) = kvoff es + kvoff fs"
  by (simp_all add: kvoff_def)

lemma length_kvbytes [simp]: "length (kvbytes e) = kvsize e"
  by (cases e) simp

lemma kvoff_take_Suc:
  "j < length es \<Longrightarrow> kvoff (take (Suc j) es) = kvoff (take j es) + kvsize (es ! j)"
  by (simp add: take_Suc_conv_app_nth)

lemma kvoff_take_le: "kvoff (take j es) \<le> kvoff es"
  by (metis append_take_drop_id kvoff_simps(3) le_add1)

lemma kvoff_take_Suc_le: "j < length es \<Longrightarrow> kvoff (take j es) + kvsize (es ! j) \<le> kvoff es"
  by (metis kvoff_take_Suc kvoff_take_le)

lemma node_size_append: "node_size (es @ fs) + 4 = node_size es + node_size fs"
  by (simp add: node_size_def)

section \<open>Accessors return what is stored\<close>

lemma filled_bounds:
  assumes "filled b t n es"
  shows "length b < 65536" "4 + 10 * n + kvoff es \<le> length b" "length es \<le> n"
  using assms by (auto simp: filled_def)

lemma filled_window:
  assumes "filled b t n es" "j < length es"
  shows "window b (4 + 8 * j) 8 = le_bytes 8 (fst (es ! j))"
    and "window b (4 + 8 * n + 2 * j) 2 = le_bytes 2 (of_nat (kvoff (take (Suc j) es)) :: u16)"
    and "window b (4 + 10 * n + kvoff (take j es)) (kvsize (es ! j)) = kvbytes (es ! j)"
  using assms by (auto simp: filled_def)

lemma filled_btype: "filled b t n es \<Longrightarrow> btype b = Some t"
  by (auto simp: filled_def btype_def intro: u16_at_window)

lemma filled_nkeys: "filled b t n es \<Longrightarrow> nkeys b = Some (of_nat n)"
  by (auto simp: filled_def nkeys_def intro: u16_at_window)

lemma filled_getPtr:
  assumes "filled b t n es" "j < length es"
  shows "getPtr b (of_nat j) = Some (fst (es ! j))"
proof -
  note bd = filled_bounds [OF assms(1)]
  have "HEADER + 8 * of_nat j = (of_nat (4 + 8 * j) :: u16)"
    by (simp add: HEADER_def)
  moreover have "4 + 8 * j < 65536" using bd assms(2) by linarith
  ultimately have "unat (HEADER + 8 * of_nat j :: u16) = 4 + 8 * j"
    by (simp only: unat_of_nat_u16)
  then show ?thesis
    using filled_window(1) [OF assms] bd assms(2)
    by (simp add: getPtr_def u64_at_window)
qed

lemma filled_getOffset:
  assumes "filled b t n es" "j \<le> length es"
  shows "getOffset b (of_nat j) = Some (of_nat (kvoff (take j es)))"
proof (cases j)
  case 0
  then show ?thesis by (simp add: getOffset_def)
next
  case (Suc i)
  note bd = filled_bounds [OF assms(1)]
  have i: "i < length es" using assms(2) Suc by simp
  have j: "j < 65536" using bd assms(2) by linarith
  then have nz: "(of_nat j :: u16) \<noteq> 0"
    using Suc unat_of_nat_u16 [OF j] by (metis nat.distinct(1) unat_0)
  have op: "offsetPos b (of_nat j) = Some (of_nat (4 + 8 * n + 2 * i))"
    by (simp add: offsetPos_def filled_nkeys [OF assms(1)] HEADER_def Suc)
  have lt: "4 + 8 * n + 2 * i + 2 \<le> length b" using bd i by linarith
  then have p: "unat (of_nat (4 + 8 * n + 2 * i) :: u16) = 4 + 8 * n + 2 * i"
    using bd(1) by (intro unat_of_nat_u16) linarith
  have "u16_at b (4 + 8 * n + 2 * i) = Some (of_nat (kvoff (take j es)))"
    using filled_window(2) [OF assms(1) i] lt Suc by (intro u16_at_window) simp_all
  then show ?thesis
    using nz op p by (simp only: getOffset_def if_False bind.bind_lunit)
qed

lemma filled_kvPos:
  assumes "filled b t n es" "j \<le> length es"
  shows "kvPos b (of_nat j) = Some (of_nat (4 + 10 * n + kvoff (take j es)))"
  by (simp add: kvPos_def filled_nkeys [OF assms(1)] filled_getOffset [OF assms] HEADER_def)

lemma filled_entry:
  assumes "filled b t n es" "j < length es" "es ! j = (p, k, v)"
  defines "q \<equiv> 4 + 10 * n + kvoff (take j es)"
  shows "kvPos b (of_nat j) = Some (of_nat q)"
    and "q + (4 + length k + length v) \<le> length b"
    and "u16_at b q = Some (of_nat (length k))"
    and "u16_at b (q + 2) = Some (of_nat (length v))"
    and "window b (q + 4) (length k) = k"
    and "window b (q + 4 + length k) (length v) = v"
proof -
  note bd = filled_bounds [OF assms(1)]
  show "kvPos b (of_nat j) = Some (of_nat q)"
    using filled_kvPos [OF assms(1)] assms(2) by (simp add: q_def)
  show fit: "q + (4 + length k + length v) \<le> length b"
    using kvoff_take_Suc_le [OF assms(2)] bd(2) assms(3) by (simp add: q_def)
  have "kvsize (es ! j) = 2 + (2 + (length k + length v))" by (simp add: assms(3))
  then have w: "window b q (2 + (2 + (length k + length v))) = kvbytes (p, k, v)"
    using filled_window(3) [OF assms(1,2)] assms(3) by (simp only: q_def)
  have sp: "window b q 2 = le_bytes 2 (of_nat (length k) :: u16)
      \<and> window b (q + 2) 2 = le_bytes 2 (of_nat (length v) :: u16)
      \<and> window b (q + 4) (length k) = k \<and> window b (q + 4 + length k) (length v) = v"
    using w fit unfolding window_split kvbytes.simps
    by (simp add: length_window append_eq_append_conv add.assoc)
  then show "u16_at b q = Some (of_nat (length k))"
    and "u16_at b (q + 2) = Some (of_nat (length v))"
    and "window b (q + 4) (length k) = k"
    and "window b (q + 4 + length k) (length v) = v"
    using fit by (auto intro: u16_at_window)
qed

lemma filled_getKey:
  assumes "filled b t n es" "j < length es"
  shows "getKey b (of_nat j) = Some (fst (snd (es ! j)))"
proof -
  obtain p k v where e: "es ! j = (p, k, v)" by (cases "es ! j")
  define q where "q = 4 + 10 * n + kvoff (take j es)"
  note fe = filled_entry [OF assms e, folded q_def]
  have lt: "q + 4 + length k < 65536" using fe(2) filled_bounds(1) [OF assms(1)] by linarith
  have u: "unat (of_nat q :: u16) = q" "unat (of_nat q + 4 :: u16) = q + 4"
    "unat (of_nat (length k) :: u16) = length k"
    using lt by (simp_all only: unat_of_nat_u16 unat_of_nat_add_u16)
  then show ?thesis
    using fe by (simp add: getKey_def e byte_simps window_def)
qed

lemma filled_getVal:
  assumes "filled b t n es" "j < length es"
  shows "getVal b (of_nat j) = Some (snd (snd (es ! j)))"
proof -
  obtain p k v where e: "es ! j = (p, k, v)" by (cases "es ! j")
  define q where "q = 4 + 10 * n + kvoff (take j es)"
  note fe = filled_entry [OF assms e, folded q_def]
  have lt: "q + 4 + length k + length v < 65536"
    using fe(2) filled_bounds(1) [OF assms(1)] by linarith
  have u: "unat (of_nat q :: u16) = q" "unat (of_nat q + 2 :: u16) = q + 2"
    "unat (of_nat q + 4 + of_nat (length k) :: u16) = q + 4 + length k"
    "unat (of_nat (length v) :: u16) = length v"
    using lt by (simp_all only: unat_of_nat_u16 unat_of_nat_add_u16)
  then show ?thesis
    using fe by (simp add: getVal_def e byte_simps window_def)
qed

section \<open>Appending to a node\<close>

text \<open>A write into the free part of a node leaves what it stores in place.\<close>

lemma filled_overwrite_ptr:
  assumes "filled b t n es" "length es < n"
  shows "filled (overwrite b (4 + 8 * length es) (le_bytes 8 p)) t n es"
proof -
  note bd = filled_bounds [OF assms(1)]
  have fit: "4 + 8 * length es + 8 \<le> length b" using bd assms(2) by linarith
  show ?thesis
    using assms fit bd kvoff_take_Suc_le
    by (auto simp: filled_def window_overwrite_before window_overwrite_after)
qed

lemma filled_overwrite_off:
  assumes "filled b t n es" "length es < n"
  shows "filled (overwrite b (4 + 8 * n + 2 * length es) (le_bytes 2 o1)) t n es"
proof -
  note bd = filled_bounds [OF assms(1)]
  have fit: "4 + 8 * n + 2 * length es + 2 \<le> length b" using bd assms(2) by linarith
  show ?thesis
    using assms fit bd kvoff_take_Suc_le
    by (auto simp: filled_def window_overwrite_before window_overwrite_after)
qed

lemma filled_overwrite_kv:
  assumes "filled b t n es" "4 + 10 * n + kvoff es + length xs \<le> length b"
  shows "filled (overwrite b (4 + 10 * n + kvoff es) xs) t n es"
proof -
  note bd = filled_bounds [OF assms(1)]
  have le: "4 + 10 * n + kvoff (take j es) + kvsize (es ! j) \<le> 4 + 10 * n + kvoff es"
    if "j < length es" for j
    using kvoff_take_Suc_le [OF that] by simp
  have pt: "4 + 8 * j + 8 \<le> 4 + 10 * n + kvoff es" if "j < length es" for j
    using that bd(3) by linarith
  have ot: "4 + 8 * n + 2 * j + 2 \<le> 4 + 10 * n + kvoff es" if "j < length es" for j
    using that bd(3) by linarith
  show ?thesis
    using assms bd le pt ot by (simp add: filled_def window_overwrite_before)
qed

lemma filled_snoc:
  assumes "filled b t n es" "length es < n" "4 + 10 * n + kvoff (es @ [e]) \<le> length b"
    and "window b (4 + 8 * length es) 8 = le_bytes 8 (fst e)"
    and "window b (4 + 8 * n + 2 * length es) 2 = le_bytes 2 (of_nat (kvoff (es @ [e])) :: u16)"
    and "window b (4 + 10 * n + kvoff es) (kvsize e) = kvbytes e"
  shows "filled b t n (es @ [e])"
  using assms by (auto simp: filled_def nth_append less_Suc_eq)

lemma nodeAppendKV_writes:
  assumes f: "filled b t n es" and i: "length es < n"
    and fit: "4 + 10 * n + kvoff es + kvsize (p, k, v) \<le> length b"
  shows "nodeAppendKV b (of_nat (length es)) p k v =
    Some (overwrite (overwrite (overwrite b (4 + 8 * length es) (le_bytes 8 p))
                       (4 + 10 * n + kvoff es) (kvbytes (p, k, v)))
            (4 + 8 * n + 2 * length es) (le_bytes 2 (of_nat (kvoff es + kvsize (p, k, v)) :: u16)))"
proof -
  note bd = filled_bounds [OF f]
  define i where "i = length es"
  define q where "q = 4 + 10 * n + kvoff es"
  define b1 where "b1 = overwrite b (4 + 8 * i) (le_bytes 8 p)"
  define b2 where "b2 = overwrite b1 q (kvbytes (p, k, v))"
  have i_le: "4 + 8 * i + 8 \<le> length b" "4 + 8 * n + 2 * i + 2 \<le> length b"
    using bd \<open>length es < n\<close> by (simp_all add: i_def)
  have f1: "filled b1 t n es" and l1: "length b1 = length b"
    using filled_overwrite_ptr [OF f \<open>length es < n\<close>] i_le by (simp_all add: b1_def i_def)
  have f2: "filled b2 t n es" and l2: "length b2 = length b"
    using filled_overwrite_kv [OF f1, of "kvbytes (p, k, v)"] fit l1
    by (simp_all add: b2_def q_def)
  have lt: "q + 4 + length k + length v < 65536" and fq: "q + 4 + length k + length v \<le> length b"
    using fit bd(1) by (simp_all add: q_def)
  have u: "unat (of_nat q + 0 :: u16) = q" "unat (of_nat q + 2 :: u16) = q + 2"
    "unat (of_nat q + 4 :: u16) = q + 4"
    "unat (of_nat q + 4 + of_nat (length k) :: u16) = q + 4 + length k"
    using lt by (simp_all only: add_0_right unat_of_nat_u16 unat_of_nat_add_u16)
  have s1: "setPtr b (of_nat i) p = Some b1"
  proof -
    have "unat (HEADER + 8 * of_nat i :: u16) = 4 + 8 * i"
      using unat_of_nat_u16 [of "4 + 8 * i"] i_le bd(1) by (simp add: HEADER_def)
    then show ?thesis using i_le by (simp add: setPtr_def put_at_Some b1_def)
  qed
  have s2: "kvPos b1 (of_nat i) = Some (of_nat q)"
    using filled_kvPos [OF f1, of i] by (simp add: i_def q_def)
  have w1: "put_at b1 q (le_bytes 2 kl) = Some (overwrite b1 q (le_bytes 2 kl))" for kl :: u16
    using fq l1 by (simp add: put_at_Some)
  have s3: "put_at (overwrite b1 q xs) (q + length xs) ys = Some (overwrite b1 q (xs @ ys))"
    if "q + length xs + length ys \<le> length b" for xs ys
    using that l1 by (simp add: put_at_Some overwrite_overwrite)
  have s4: "copy_at (overwrite b1 q xs) (q + length xs) ys = Some (overwrite b1 q (xs @ ys))"
    if "q + length xs + length ys \<le> length b" for xs ys
    using that l1 by (simp add: copy_at_Some overwrite_overwrite)
  define kl vl where "kl = le_bytes 2 (of_nat (length k) :: u16)"
    and "vl = le_bytes 2 (of_nat (length v) :: u16)"
  have c1: "put_at b1 q kl = Some (overwrite b1 q kl)" by (simp add: w1 kl_def)
  have c2: "put_at (overwrite b1 q kl) (q + 2) vl = Some (overwrite b1 q (kl @ vl))"
    using s3 [of kl vl] fq by (simp add: kl_def vl_def)
  have c3: "copy_at (overwrite b1 q (kl @ vl)) (q + 4) k = Some (overwrite b1 q (kl @ vl @ k))"
    using s4 [of "kl @ vl" k] fq by (simp add: kl_def vl_def)
  have c4: "copy_at (overwrite b1 q (kl @ vl @ k)) (q + 4 + length k) v = Some b2"
    using s4 [of "kl @ vl @ k" v] fq by (simp add: kl_def vl_def b2_def add.assoc)
  have c5: "getOffset b2 (of_nat i) = Some (of_nat (kvoff es))"
    using filled_getOffset [OF f2, of i] by (simp add: i_def)
  have c6: "setOffset b2 (of_nat i + 1) o1 = Some (overwrite b2 (4 + 8 * n + 2 * i) (le_bytes 2 o1))" for o1
  proof -
    have "offsetPos b2 (of_nat i + 1) = Some (of_nat (4 + 8 * n + 2 * i))"
      by (simp add: offsetPos_def filled_nkeys [OF f2] HEADER_def)
    moreover have "unat (of_nat (4 + 8 * n + 2 * i) :: u16) = 4 + 8 * n + 2 * i"
      using i_le bd(1) by (intro unat_of_nat_u16) linarith
    ultimately show ?thesis using i_le l2
      by (simp add: setOffset_def put_at_Some del: of_nat_add of_nat_mult)
  qed
  have o1: "of_nat (kvoff es) + 4 + of_nat (length k + length v) =
      (of_nat (kvoff es + kvsize (p, k, v)) :: u16)" by simp
  show ?thesis
    unfolding i_def [symmetric] q_def [symmetric] b1_def [symmetric] b2_def [symmetric]
    by (simp only: nodeAppendKV_def s1 s2 u c1 c2 c3 c4 c5 c6 o1 bind.bind_lunit
        kl_def [symmetric] vl_def [symmetric])
qed

lemma nodeAppendKV_filled:
  assumes f: "filled b t n es" and i: "length es < n"
    and fit: "4 + 10 * n + kvoff (es @ [(p, k, v)]) \<le> length b"
  shows "\<exists>b'. nodeAppendKV b (of_nat (length es)) p k v = Some b' \<and>
    filled b' t n (es @ [(p, k, v)]) \<and> length b' = length b"
proof -
  note bd = filled_bounds [OF f]
  define b1 where "b1 = overwrite b (4 + 8 * length es) (le_bytes 8 p)"
  define b2 where "b2 = overwrite b1 (4 + 10 * n + kvoff es) (kvbytes (p, k, v))"
  define b3 where "b3 = overwrite b2 (4 + 8 * n + 2 * length es)
    (le_bytes 2 (of_nat (kvoff es + kvsize (p, k, v)) :: u16))"
  have fit': "4 + 10 * n + kvoff es + kvsize (p, k, v) \<le> length b"
    using fit by (simp del: kvsize.simps)
  have l1: "length b1 = length b" using bd i by (simp add: b1_def)
  have l2: "length b2 = length b" using fit' l1 by (simp add: b2_def del: kvsize.simps kvbytes.simps)
  have l3: "length b3 = length b" using bd i l2 by (simp add: b3_def)
  have f1: "filled b1 t n es" using filled_overwrite_ptr [OF f i] by (simp add: b1_def)
  have f2: "filled b2 t n es"
    unfolding b2_def using fit' l1 by (intro filled_overwrite_kv f1) simp
  have f3: "filled b3 t n es" using filled_overwrite_off [OF f2 i] by (simp add: b3_def)
  have o3: "4 + 8 * n + 2 * length es + 2 \<le> 4 + 10 * n + kvoff es" using i by simp
  have "window b3 (4 + 8 * length es) 8 = le_bytes 8 p"
    using bd i l1 l2 fit'
    by (simp add: b3_def b2_def b1_def window_overwrite_before window_overwrite_same
        del: kvbytes.simps kvsize.simps)
  moreover have "window b3 (4 + 8 * n + 2 * length es) 2 =
      le_bytes 2 (of_nat (kvoff (es @ [(p, k, v)])) :: u16)"
    unfolding b3_def kvoff_simps using o3 fit' l2
    by (simp add: window_overwrite_same del: kvbytes.simps kvsize.simps)
  moreover have "window b3 (4 + 10 * n + kvoff es) (kvsize (p, k, v)) = kvbytes (p, k, v)"
    using o3 fit' l1 l2
    by (simp add: b3_def b2_def window_overwrite_after window_overwrite_same
        del: kvbytes.simps kvsize.simps)
  ultimately have "filled b3 t n (es @ [(p, k, v)])"
    using f3 i fit l3 by (intro filled_snoc) (simp_all del: kvbytes.simps kvsize.simps)
  then show ?thesis
    using nodeAppendKV_writes [OF f i fit'] l3
    unfolding b1_def [symmetric] b2_def [symmetric] b3_def [symmetric] by blast
qed

lemma nodeAppendRange_loop_filled:
  assumes "filled new t n es" "filled old t' n' fs"
    and "src + m \<le> length fs" "length es + m \<le> n"
    and "4 + 10 * n + kvoff (es @ take m (drop src fs)) \<le> length new"
  shows "\<exists>b'. nodeAppendRange_loop m new old (of_nat (length es)) (of_nat src) = Some b' \<and>
    filled b' t n (es @ take m (drop src fs)) \<and> length b' = length new"
  using assms
proof (induction m arbitrary: new es src)
  case 0
  then show ?case by simp
next
  case (Suc m)
  have src: "src < length fs" using Suc.prems(3) by simp
  obtain p k v where e: "fs ! src = (p, k, v)" by (cases "fs ! src")
  have tk: "take (Suc m) (drop src fs) = (p, k, v) # take m (drop (Suc src) fs)"
    using src e by (metis Cons_nth_drop_Suc take_Suc_Cons)
  have g: "getPtr old (of_nat src) = Some p" "getKey old (of_nat src) = Some k"
    "getVal old (of_nat src) = Some v"
    using filled_getPtr [OF Suc.prems(2) src] filled_getKey [OF Suc.prems(2) src]
      filled_getVal [OF Suc.prems(2) src] e by simp_all
  obtain b1 where b1: "nodeAppendKV new (of_nat (length es)) p k v = Some b1"
    "filled b1 t n (es @ [(p, k, v)])" "length b1 = length new"
    using nodeAppendKV_filled [OF Suc.prems(1), of p k v] Suc.prems(4,5) tk by auto
  have "\<exists>b'. nodeAppendRange_loop m b1 old (of_nat (length (es @ [(p, k, v)]))) (of_nat (Suc src))
      = Some b' \<and> filled b' t n ((es @ [(p, k, v)]) @ take m (drop (Suc src) fs)) \<and>
      length b' = length b1"
    using Suc.prems b1(2,3) tk by (intro Suc.IH) simp_all
  then show ?case
    using g b1(1,3) tk by (simp add: add.commute)
qed

lemma nodeAppendRange_filled:
  assumes "filled new t n es" "filled old t' n' fs"
    and "src + m \<le> length fs" "length es + m \<le> n"
    and "4 + 10 * n + kvoff (es @ take m (drop src fs)) \<le> length new"
  shows "\<exists>b'. nodeAppendRange new old (of_nat (length es)) (of_nat src) (of_nat m) = Some b' \<and>
    filled b' t n (es @ take m (drop src fs)) \<and> length b' = length new"
proof -
  have "m < 65536" using filled_bounds [OF assms(1)] assms(4) by linarith
  then show ?thesis
    using nodeAppendRange_loop_filled [OF assms] by (simp add: nodeAppendRange_def unat_of_nat_u16)
qed

lemma setHeader_filled:
  assumes "4 + 10 * n \<le> length b" "length b < 65536"
  shows "\<exists>b'. setHeader b t (of_nat n) = Some b' \<and> filled b' t n [] \<and> length b' = length b"
  using assms
  by (simp add: setHeader_def put_at_Some filled_def window_overwrite_same window_overwrite_before)

section \<open>The key order and the binary search\<close>

lemma cmp_eq: "cmp a b = (if a < b then -1 else if a = b then 0 else 1)"
  by (induction a b rule: cmp.induct) auto

lemma cmp_le_0 [simp]: "cmp a b \<le> 0 \<longleftrightarrow> a \<le> b"
  by (auto simp: cmp_eq)

lemma cmp_gt_0 [simp]: "0 < cmp a b \<longleftrightarrow> b < a"
  by (auto simp: cmp_eq)

lemma cmp_eq_0 [simp]: "cmp a b = 0 \<longleftrightarrow> a = b"
  by (auto simp: cmp_eq)

text \<open>Keys of an entry list, and how many of them are at most a given key.\<close>

abbreviation ekeys :: "entry list \<Rightarrow> bytes list" where
  "ekeys es \<equiv> map (\<lambda>e. fst (snd e)) es"

definition count_le :: "bytes list \<Rightarrow> bytes \<Rightarrow> nat" where
  "count_le ks key = length (takeWhile (\<lambda>k. k \<le> key) ks)"

lemma count_le_length: "count_le ks key \<le> length ks"
  by (simp add: count_le_def length_takeWhile_le)

lemma count_le_below: "j < count_le ks key \<Longrightarrow> ks ! j \<le> key"
  unfolding count_le_def by (metis nth_mem set_takeWhileD takeWhile_nth)

lemma count_le_above:
  assumes "sorted_wrt (<) ks" "count_le ks key \<le> j" "j < length ks"
  shows "key < ks ! j"
proof -
  let ?c = "count_le ks key"
  have "key < ks ! ?c"
    using assms(2,3) nth_length_takeWhile [of "\<lambda>k. k \<le> key" ks] by (simp add: count_le_def)
  moreover have "ks ! ?c \<le> ks ! j"
    using assms by (metis le_less sorted_wrt_nth_less)
  ultimately show ?thesis by (rule less_le_trans)
qed

lemma nodeLookupLE_loop_eq:
  assumes "filled b t n es" "sorted_wrt (<) (ekeys es)"
    and "lo \<le> count_le (ekeys es) key" "count_le (ekeys es) key \<le> hi" "hi \<le> length es"
  shows "nodeLookupLE_loop b key (of_nat lo) (of_nat hi) = Some (of_nat (count_le (ekeys es) key))"
  using assms(3-5)
proof (induction "hi - lo" arbitrary: lo hi rule: less_induct)
  case less
  let ?c = "count_le (ekeys es) key"
  have bd: "hi < 65536" "lo < 65536"
    using filled_bounds [OF assms(1)] less.prems by linarith+
  show ?case
  proof (cases "lo < hi")
    case False
    then have "lo = hi" "?c = lo" using less.prems by auto
    then show ?thesis by (simp add: nodeLookupLE_loop.simps)
  next
    case True
    let ?mid = "lo + (hi - lo) div 2"
    have lt: "(of_nat lo :: u16) < of_nat hi"
      using True bd by (simp add: word_less_nat_alt unat_of_nat_u16)
    have mid: "?mid < hi" "lo \<le> ?mid" using True by auto
    have "unat (of_nat lo + (of_nat hi - of_nat lo) div 2 :: u16) = ?mid"
      using mid_bounds [OF lt] bd by (simp add: unat_of_nat_u16)
    then have m: "(of_nat lo + (of_nat hi - of_nat lo) div 2 :: u16) = of_nat ?mid"
      by (metis of_nat_unat ucast_id)
    have k: "getKey b (of_nat ?mid) = Some (ekeys es ! ?mid)"
      using filled_getKey [OF assms(1), of ?mid] mid less.prems(3) by simp
    show ?thesis
    proof (cases "ekeys es ! ?mid \<le> key")
      case le: True
      have "?mid < ?c"
      proof (rule ccontr)
        assume "\<not> ?mid < ?c"
        then have "key < ekeys es ! ?mid"
          using mid(1) less.prems(3) by (intro count_le_above [OF assms(2)]) simp_all
        with le show False by simp
      qed
      then have "nodeLookupLE_loop b key (of_nat (Suc ?mid)) (of_nat hi) = Some (of_nat ?c)"
        using mid less.prems by (intro less.hyps) auto
      then show ?thesis
        using le lt k by (subst nodeLookupLE_loop.simps) (simp add: m Let_def add.commute)
    next
      case gt: False
      have "?c \<le> ?mid" using gt count_le_below [of ?mid "ekeys es" key] by (auto simp only: not_less [symmetric])
      then have "nodeLookupLE_loop b key (of_nat lo) (of_nat ?mid) = Some (of_nat ?c)"
        using mid less.prems by (intro less.hyps) auto
      then show ?thesis
        using gt lt k by (subst nodeLookupLE_loop.simps) (simp add: m Let_def)
    qed
  qed
qed

text \<open>
  The index \<open>nodeLookupLE\<close> returns: the last key that is at most the one looked up,
  or 0 when there is none.
\<close>

definition le_index :: "bytes list \<Rightarrow> bytes \<Rightarrow> nat" where
  "le_index ks key = count_le ks key - 1"

lemma nodeLookupLE_filled:
  assumes "bnode b t es" "sorted_wrt (<) (ekeys es)"
  shows "nodeLookupLE b key = Some (of_nat (le_index (ekeys es) key))"
proof -
  let ?c = "count_le (ekeys es) key"
  have f: "filled b t (length es) es" using assms(1) by (simp add: bnode_def)
  have c: "?c \<le> length es" using count_le_length [of "ekeys es" key] by simp
  then have "?c < 65536" using filled_bounds [OF f] by linarith
  then have z: "(of_nat ?c :: u16) = 0 \<longleftrightarrow> ?c = 0"
    using unat_of_nat_u16 [of ?c] by (auto simp: unat_eq_zero [symmetric])
  have "nodeLookupLE_loop b key 0 (of_nat (length es)) = Some (of_nat ?c)"
    using nodeLookupLE_loop_eq [OF f assms(2), of 0 key "length es"] c by simp
  then show ?thesis
    using z by (auto simp: nodeLookupLE_def filled_nkeys [OF f] le_index_def of_nat_diff)
qed

lemma le_index_less: "ks \<noteq> [] \<Longrightarrow> le_index ks key < length ks"
  using count_le_length [of ks key] by (cases ks) (auto simp: le_index_def)

lemma bnode_access:
  assumes "bnode b t es"
  shows "btype b = Some t" "nkeys b = Some (of_nat (length es))"
    "nbytes b = Some (of_nat (node_size es))"
    "j < length es \<Longrightarrow> getPtr b (of_nat j) = Some (fst (es ! j))"
    "j < length es \<Longrightarrow> getKey b (of_nat j) = Some (fst (snd (es ! j)))"
    "j < length es \<Longrightarrow> getVal b (of_nat j) = Some (snd (snd (es ! j)))"
    "length es < 65536" "node_size es < 65536" "node_size es \<le> length b" "length b < 65536"
proof -
  have f: "filled b t (length es) es" using assms by (simp add: bnode_def)
  show "btype b = Some t" "nkeys b = Some (of_nat (length es))"
    "j < length es \<Longrightarrow> getPtr b (of_nat j) = Some (fst (es ! j))"
    "j < length es \<Longrightarrow> getKey b (of_nat j) = Some (fst (snd (es ! j)))"
    "j < length es \<Longrightarrow> getVal b (of_nat j) = Some (snd (snd (es ! j)))"
    by (fact filled_btype [OF f] filled_nkeys [OF f] filled_getPtr [OF f] filled_getKey [OF f]
        filled_getVal [OF f])+
  show "nbytes b = Some (of_nat (node_size es))"
    using filled_kvPos [OF f, of "length es"]
    by (simp add: nbytes_def filled_nkeys [OF f] node_size_def)
  show "length es < 65536" "node_size es < 65536" "node_size es \<le> length b" "length b < 65536"
    using filled_bounds [OF f] by (simp_all add: node_size_def)
qed

end
