(* ===== verification/NodeOps.thy ===== *)
theory NodeOps
  imports Node
begin

text \<open>
  Operations on whole nodes: inserting into and updating a leaf, splitting an
  oversized node (\<^verbatim>\<open>internal/btree/insert.go\<close>), removing an entry, merging two nodes
  and replacing two children by one (\<^verbatim>\<open>internal/btree/delete.go\<close>). Each is shown to
  carry out the corresponding list operation on the entries, as long as the result
  fits the slice it is written to; the split lemmas say when the halves fit a page.
\<close>

text \<open>\<^verbatim>\<open>make([]byte, n)\<close>.\<close>

definition make_bytes :: "nat \<Rightarrow> bytes" where
  "make_bytes n = replicate n 0"

section \<open>Leaves\<close>

definition leafInsert :: "bytes \<Rightarrow> bytes \<Rightarrow> u16 \<Rightarrow> bytes \<Rightarrow> bytes \<Rightarrow> bytes option" where
  "leafInsert new old idx key val = do {
     n \<leftarrow> nkeys old;
     new \<leftarrow> setHeader new BNODE_LEAF (n + 1);
     new \<leftarrow> nodeAppendRange new old 0 0 idx;
     new \<leftarrow> nodeAppendKV new idx 0 key val;
     nodeAppendRange new old (idx + 1) idx (n - idx)
   }"

definition leafUpdate :: "bytes \<Rightarrow> bytes \<Rightarrow> u16 \<Rightarrow> bytes \<Rightarrow> bytes \<Rightarrow> bytes option" where
  "leafUpdate new old idx key val = do {
     n \<leftarrow> nkeys old;
     new \<leftarrow> setHeader new BNODE_LEAF n;
     new \<leftarrow> nodeAppendRange new old 0 0 idx;
     new \<leftarrow> nodeAppendKV new idx 0 key val;
     nodeAppendRange new old (idx + 1) (idx + 1) (n - (idx + 1))
   }"

text \<open>The leaf case of \<open>treeDelete\<close> once the key is found.\<close>

definition leafDelete :: "bytes \<Rightarrow> u16 \<Rightarrow> bytes option" where
  "leafDelete node idx = do {
     n \<leftarrow> nkeys node;
     new \<leftarrow> setHeader (make_bytes BTREE_PAGE_SIZE) BNODE_LEAF (n - 1);
     new \<leftarrow> nodeAppendRange new node 0 0 idx;
     nodeAppendRange new node idx (idx + 1) (n - (idx + 1))
   }"

section \<open>Splitting\<close>

text \<open>
  The loop of \<open>nodeSplit2\<close> that looks for the split index, with \<open>k\<close> iterations left.
\<close>

fun nodeSplit2_loop :: "nat \<Rightarrow> bytes \<Rightarrow> u16 \<Rightarrow> u16 \<Rightarrow> u16 \<Rightarrow> u16 \<Rightarrow> u16 option" where
  "nodeSplit2_loop 0 old totalBytes i accum splitIdx = Some splitIdx"
| "nodeSplit2_loop (Suc k) old totalBytes i accum splitIdx = do {
     key \<leftarrow> getKey old i;
     val \<leftarrow> getVal old i;
     let kvBytes = 4 + of_nat (length key) + of_nat (length val);
     (if accum + kvBytes > totalBytes div 2 \<and> i > 0 then Some splitIdx
      else nodeSplit2_loop k old totalBytes (i + 1) (accum + kvBytes) (i + 1))
   }"

definition nodeSplit2 :: "bytes \<Rightarrow> bytes \<Rightarrow> bytes \<Rightarrow> (bytes \<times> bytes) option" where
  "nodeSplit2 left right old = do {
     n \<leftarrow> nkeys old;
     totalBytes \<leftarrow> nbytes old;
     splitIdx \<leftarrow> nodeSplit2_loop (unat n) old totalBytes 0 0 0;
     t \<leftarrow> btype old;
     left \<leftarrow> setHeader left t splitIdx;
     left \<leftarrow> nodeAppendRange left old 0 0 splitIdx;
     right \<leftarrow> setHeader right t (n - splitIdx);
     right \<leftarrow> nodeAppendRange right old 0 splitIdx (n - splitIdx);
     Some (left, right)
   }"

text \<open>\<open>nodeSplit3\<close> returns the slice \<^verbatim>\<open>split[:nsplit]\<close> its callers use.\<close>

definition nodeSplit3 :: "bytes \<Rightarrow> bytes list option" where
  "nodeSplit3 old = do {
     nb \<leftarrow> nbytes old;
     (if unat nb \<le> BTREE_PAGE_SIZE then Some [old]
      else do {
        (left, right) \<leftarrow> nodeSplit2 (make_bytes (2 * BTREE_PAGE_SIZE)) (make_bytes BTREE_PAGE_SIZE) old;
        lb \<leftarrow> nbytes left;
        (if unat lb \<le> BTREE_PAGE_SIZE then Some [left, right]
         else do {
           (leftleft, middle) \<leftarrow>
             nodeSplit2 (make_bytes BTREE_PAGE_SIZE) (make_bytes BTREE_PAGE_SIZE) left;
           Some [leftleft, middle, right]
         })
      })
   }"

section \<open>Merging\<close>

definition nodeMerge :: "bytes \<Rightarrow> bytes \<Rightarrow> bytes \<Rightarrow> bytes option" where
  "nodeMerge new left right = do {
     t \<leftarrow> btype left;
     ln \<leftarrow> nkeys left;
     rn \<leftarrow> nkeys right;
     new \<leftarrow> setHeader new t (ln + rn);
     new \<leftarrow> nodeAppendRange new left 0 0 ln;
     nodeAppendRange new right ln 0 rn
   }"

definition nodeReplace2Kid :: "bytes \<Rightarrow> bytes \<Rightarrow> u16 \<Rightarrow> u64 \<Rightarrow> bytes \<Rightarrow> bytes option" where
  "nodeReplace2Kid new node idx ptr key = do {
     n \<leftarrow> nkeys node;
     new \<leftarrow> setHeader new BNODE_INTERNAL (n - 1);
     new \<leftarrow> nodeAppendRange new node 0 0 idx;
     new \<leftarrow> nodeAppendKV new idx ptr key [];
     nodeAppendRange new node (idx + 1) (idx + 2) (n - (idx + 2))
   }"

section \<open>Building a node from pieces\<close>

lemma length_make_bytes [simp]: "length (make_bytes n) = n"
  by (simp add: make_bytes_def)

lemma node_size_simps [simp]:
  "node_size [] = 4" "node_size (e # es) = 10 + kvsize e + node_size es"
  by (simp_all add: node_size_def)

lemma node_size_app: "node_size (es @ fs) = node_size es + (10 * length fs + kvoff fs)"
  by (simp add: node_size_def)

lemma setHeader_start:
  assumes "node_size es \<le> length b" "length b < 65536"
  shows "\<exists>b'. setHeader b t (of_nat (length es)) = Some b' \<and> filled b' t (length es) [] \<and>
    length b' = length b"
  using assms by (intro setHeader_filled) (simp_all add: node_size_def)

text \<open>
  Appending a range, or one entry, to the first entries \<open>pre\<close> of the final list
  \<open>pre @ xs @ post\<close>.
\<close>

lemma append_range:
  assumes "filled new t (length (pre @ xs @ post)) pre" "bnode old t' fs"
    and "xs = take m (drop src fs)" "src + m \<le> length fs"
    and "node_size (pre @ xs @ post) \<le> length new"
    and "i = of_nat (length pre)" "j = of_nat src" "l = of_nat m"
  shows "\<exists>b'. nodeAppendRange new old i j l = Some b' \<and>
    filled b' t (length (pre @ xs @ post)) (pre @ xs) \<and> length b' = length new"
  using nodeAppendRange_filled [of new t "length (pre @ xs @ post)" pre old t' "length fs" fs src m]
    assms by (simp add: bnode_def node_size_def)

lemma append_entry:
  assumes "filled new t (length (pre @ (p, k, v) # post)) pre"
    and "node_size (pre @ (p, k, v) # post) \<le> length new" "i = of_nat (length pre)"
  shows "\<exists>b'. nodeAppendKV new i p k v = Some b' \<and>
    filled b' t (length (pre @ (p, k, v) # post)) (pre @ [(p, k, v)]) \<and> length b' = length new"
  using nodeAppendKV_filled [of new t "length (pre @ (p, k, v) # post)" pre p k v] assms
  by (simp add: node_size_def)

text \<open>
  The shape all replacements share: copy a prefix, append one entry, copy a suffix.
\<close>

lemma splice_bnode:
  assumes old: "bnode old t es" and i: "i \<le> length es" and m: "src + m \<le> length es"
    and fs: "fs = take i es @ (p, k, v) # take m (drop src es)"
    and fit: "node_size fs \<le> length new" "length new < 65536"
    and w: "n = of_nat (length fs)" "i1 = of_nat i + 1" "j = of_nat src" "l = of_nat m"
  shows "\<exists>b'. do {
      new \<leftarrow> setHeader new T n;
      new \<leftarrow> nodeAppendRange new old 0 0 (of_nat i);
      new \<leftarrow> nodeAppendKV new (of_nat i) p k v;
      nodeAppendRange new old i1 j l
    } = Some b' \<and> bnode b' T fs \<and> length b' = length new"
proof -
  let ?post = "take m (drop src es)"
  obtain b0 where b0: "setHeader new T n = Some b0" "filled b0 T (length fs) []"
    "length b0 = length new"
    using setHeader_start [OF fit] w(1) by blast
  have "\<exists>b'. nodeAppendRange b0 old 0 0 (of_nat i) = Some b' \<and>
    filled b' T (length ([] @ take i es @ (p, k, v) # ?post)) ([] @ take i es) \<and>
    length b' = length b0"
    by (rule append_range [OF _ old, where m = i and src = 0])
      (use b0(2,3) fs i fit(1) in simp_all)
  then obtain b1 where b1: "nodeAppendRange b0 old 0 0 (of_nat i) = Some b1"
    "filled b1 T (length (take i es @ (p, k, v) # ?post)) (take i es)" "length b1 = length new"
    using b0(3) by auto
  have "\<exists>b'. nodeAppendKV b1 (of_nat i) p k v = Some b' \<and>
    filled b' T (length (take i es @ (p, k, v) # ?post)) (take i es @ [(p, k, v)]) \<and>
    length b' = length b1"
    by (rule append_entry [OF b1(2)]) (use b1(3) fs i fit(1) in simp_all)
  then obtain b2 where b2: "nodeAppendKV b1 (of_nat i) p k v = Some b2"
    "filled b2 T (length ((take i es @ [(p, k, v)]) @ ?post @ [])) (take i es @ [(p, k, v)])"
    "length b2 = length new"
    using b1(3) by auto
  have "\<exists>b'. nodeAppendRange b2 old i1 j l = Some b' \<and>
    filled b' T (length ((take i es @ [(p, k, v)]) @ ?post @ [])) ((take i es @ [(p, k, v)]) @ ?post) \<and>
    length b' = length b2"
    by (rule append_range [OF b2(2) old refl m])
      (use b2(3) fs i fit(1) w in simp_all)
  then obtain b3 where b3: "nodeAppendRange b2 old i1 j l = Some b3" "bnode b3 T fs"
    "length b3 = length new"
    using b2(3) fs by (auto simp: bnode_def)
  show ?thesis using b0(1) b1(1) b2(1) b3 by simp
qed

lemma leafInsert_bnode:
  assumes old: "bnode old t es" and i: "i \<le> length es"
    and fit: "node_size (take i es @ (0, k, v) # drop i es) \<le> length new" "length new < 65536"
  shows "\<exists>b'. leafInsert new old (of_nat i) k v = Some b' \<and>
    bnode b' BNODE_LEAF (take i es @ (0, k, v) # drop i es) \<and> length b' = length new"
  unfolding leafInsert_def bnode_access(2) [OF old] bind.bind_lunit
  by (rule splice_bnode [OF old i, of i "length es - i"])
    (use i fit in \<open>simp_all add: of_nat_diff\<close>)

lemma leafUpdate_bnode:
  assumes old: "bnode old t es" and i: "i < length es"
    and fit: "node_size (take i es @ (0, k, v) # drop (Suc i) es) \<le> length new" "length new < 65536"
  shows "\<exists>b'. leafUpdate new old (of_nat i) k v = Some b' \<and>
    bnode b' BNODE_LEAF (take i es @ (0, k, v) # drop (Suc i) es) \<and> length b' = length new"
  unfolding leafUpdate_def bnode_access(2) [OF old] bind.bind_lunit
  by (rule splice_bnode [OF old, of i "Suc i" "length es - Suc i"])
    (use i fit in \<open>simp_all add: of_nat_diff\<close>)

lemma nodeReplace2Kid_bnode:
  assumes old: "bnode old t es" and i: "Suc i < length es"
    and fit: "node_size (take i es @ (p, k, []) # drop (i + 2) es) \<le> length new" "length new < 65536"
  shows "\<exists>b'. nodeReplace2Kid new old (of_nat i) p k = Some b' \<and>
    bnode b' BNODE_INTERNAL (take i es @ (p, k, []) # drop (i + 2) es) \<and> length b' = length new"
  unfolding nodeReplace2Kid_def bnode_access(2) [OF old] bind.bind_lunit
  by (rule splice_bnode [OF old, of i "i + 2" "length es - (i + 2)"])
    (use i fit in \<open>simp_all add: of_nat_diff\<close>)

text \<open>Copying one range, and two ranges one after the other.\<close>

lemma one_range_bnode:
  assumes a: "bnode a ta es" and m: "src + m \<le> length es" and fs: "fs = take m (drop src es)"
    and fit: "node_size fs \<le> length new" "length new < 65536"
    and w: "n = of_nat (length fs)" "j = of_nat src" "l = of_nat m"
  shows "\<exists>b'. do {
      new \<leftarrow> setHeader new T n;
      nodeAppendRange new a 0 j l
    } = Some b' \<and> bnode b' T fs \<and> length b' = length new"
proof -
  obtain b0 where b0: "setHeader new T n = Some b0" "filled b0 T (length fs) []"
    "length b0 = length new"
    using setHeader_start [OF fit] w(1) by blast
  have "\<exists>b'. nodeAppendRange b0 a 0 j l = Some b' \<and>
    filled b' T (length ([] @ fs @ [])) ([] @ fs) \<and> length b' = length b0"
    by (rule append_range [OF _ a fs m]) (use b0(2,3) fit(1) w in simp_all)
  then show ?thesis using b0(1,3) by (auto simp: bnode_def)
qed

lemma two_ranges_bnode:
  assumes a: "bnode a ta es" and b: "bnode b tb gs"
    and m: "m \<le> length es" "src + m2 \<le> length gs"
    and fs: "fs = take m es @ take m2 (drop src gs)"
    and fit: "node_size fs \<le> length new" "length new < 65536"
    and w: "n = of_nat (length fs)" "i = of_nat m" "j = of_nat src" "l = of_nat m2"
  shows "\<exists>b'. do {
      new \<leftarrow> setHeader new T n;
      new \<leftarrow> nodeAppendRange new a 0 0 i;
      nodeAppendRange new b i j l
    } = Some b' \<and> bnode b' T fs \<and> length b' = length new"
proof -
  let ?post = "take m2 (drop src gs)"
  obtain b0 where b0: "setHeader new T n = Some b0" "filled b0 T (length fs) []"
    "length b0 = length new"
    using setHeader_start [OF fit] w(1) by blast
  have "\<exists>b'. nodeAppendRange b0 a 0 0 i = Some b' \<and>
    filled b' T (length ([] @ take m es @ ?post)) ([] @ take m es) \<and> length b' = length b0"
    by (rule append_range [OF _ a, where m = m and src = 0])
      (use b0(2,3) fs m fit(1) w in simp_all)
  then obtain b1 where b1: "nodeAppendRange b0 a 0 0 i = Some b1"
    "filled b1 T (length (take m es @ ?post @ [])) (take m es)" "length b1 = length new"
    using b0(3) by auto
  have "\<exists>b'. nodeAppendRange b1 b i j l = Some b' \<and>
    filled b' T (length (take m es @ ?post @ [])) (take m es @ ?post) \<and> length b' = length b1"
    by (rule append_range [OF b1(2) b refl m(2)]) (use b1(3) fs m fit(1) w in simp_all)
  then show ?thesis using b0(1) b1(1,3) fs by (auto simp: bnode_def)
qed

lemma leafDelete_bnode:
  assumes old: "bnode node t es" and i: "i < length es"
    and fit: "node_size es \<le> BTREE_PAGE_SIZE + 14"
  shows "\<exists>b'. leafDelete node (of_nat i) = Some b' \<and>
    bnode b' BNODE_LEAF (take i es @ drop (Suc i) es) \<and> length b' = BTREE_PAGE_SIZE"
proof -
  have "node_size es = node_size (take i es @ drop (Suc i) es) + 10 + kvsize (es ! i)"
    using i arg_cong [OF id_take_nth_drop [OF i], of node_size] by (simp add: node_size_def)
  moreover have "4 \<le> kvsize (es ! i)" by (cases "es ! i") simp
  ultimately have "node_size (take i es @ drop (Suc i) es) \<le> BTREE_PAGE_SIZE"
    using fit by linarith
  then have "\<exists>b'. leafDelete node (of_nat i) = Some b' \<and>
    bnode b' BNODE_LEAF (take i es @ drop (Suc i) es) \<and> length b' = length (make_bytes BTREE_PAGE_SIZE)"
    unfolding leafDelete_def bnode_access(2) [OF old] bind.bind_lunit
    by (intro two_ranges_bnode [OF old old, of i "Suc i" "length es - Suc i"])
      (use i in \<open>simp_all add: of_nat_diff BTREE_PAGE_SIZE_def\<close>)
  then show ?thesis by simp
qed

lemma nodeMerge_bnode:
  assumes l: "bnode left t es" and r: "bnode right t' fs"
    and fit: "node_size (es @ fs) \<le> length new" "length new < 65536"
  shows "\<exists>b'. nodeMerge new left right = Some b' \<and> bnode b' t (es @ fs) \<and> length b' = length new"
  unfolding nodeMerge_def bnode_access(1,2) [OF l] bnode_access(2) [OF r] bind.bind_lunit
  by (rule two_ranges_bnode [OF l r, of "length es" 0 "length fs"]) (use fit in simp_all)

section \<open>Where a node is split\<close>

text \<open>
  The split index as a function of the entries: entries go left as long as their
  bytes, headers and pointers not counted, stay within half of the node's size.
\<close>

fun split_count :: "nat \<Rightarrow> nat \<Rightarrow> bool \<Rightarrow> entry list \<Rightarrow> nat" where
  "split_count h acc first [] = 0"
| "split_count h acc first (e # es) =
     (if h < acc + kvsize e \<and> \<not> first then 0
      else Suc (split_count h (acc + kvsize e) False es))"

definition split_idx :: "entry list \<Rightarrow> nat" where
  "split_idx es = split_count (node_size es div 2) 0 True es"

lemma split_count_le: "split_count h acc f es \<le> length es"
  by (induction es arbitrary: acc f) auto

lemma nodeSplit2_loop_eq:
  assumes old: "bnode old t es" and "i + k = length es" and h: "h = of_nat (node_size es)"
  shows "nodeSplit2_loop k old h (of_nat i) (of_nat (kvoff (take i es))) (of_nat i) =
    Some (of_nat (i + split_count (node_size es div 2) (kvoff (take i es)) (i = 0) (drop i es)))"
  using assms(2)
proof (induction k arbitrary: i)
  case 0
  then show ?case by simp
next
  case (Suc k)
  have i: "i < length es" using Suc.prems by simp
  obtain p ky v where e: "es ! i = (p, ky, v)" by (cases "es ! i")
  have dr: "drop i es = (p, ky, v) # drop (Suc i) es" using i e by (metis Cons_nth_drop_Suc)
  note acc = bnode_access [OF old]
  let ?a = "kvoff (take (Suc i) es)"
  have a: "?a = kvoff (take i es) + kvsize (p, ky, v)" using kvoff_take_Suc [OF i] e by simp
  have lt: "?a < 65536" "i < 65536"
    using acc(7,8) kvoff_take_le [of "Suc i" es] i by (simp_all add: node_size_def)
  have w: "of_nat (kvoff (take i es)) + (4 + of_nat (length ky) + of_nat (length v)) = (of_nat ?a :: u16)"
    by (simp add: a add.assoc)
  have c: "of_nat ?a > h div 2 \<longleftrightarrow> node_size es div 2 < ?a"
    using lt acc(8) by (simp add: h word_less_nat_alt unat_div unat_of_nat_u16)
  have z: "(0 :: u16) < of_nat i \<longleftrightarrow> i \<noteq> 0"
    using lt by (simp add: word_less_nat_alt unat_of_nat_u16)
  have step: "nodeSplit2_loop (Suc k) old h (of_nat i) (of_nat (kvoff (take i es))) (of_nat i) =
      (if node_size es div 2 < ?a \<and> i \<noteq> 0 then Some (of_nat i)
       else nodeSplit2_loop k old h (of_nat i + 1) (of_nat ?a) (of_nat i + 1))"
    by (simp only: nodeSplit2_loop.simps acc(5,6) [OF i] e fst_conv snd_conv bind.bind_lunit
        Let_def w c z)
  have IH: "nodeSplit2_loop k old h (of_nat (Suc i)) (of_nat ?a) (of_nat (Suc i)) =
      Some (of_nat (Suc i + split_count (node_size es div 2) ?a False (drop (Suc i) es)))"
    using Suc.IH [of "Suc i"] Suc.prems by simp
  have sc: "split_count (node_size es div 2) (kvoff (take i es)) (i = 0) (drop i es) =
      (if node_size es div 2 < ?a \<and> i \<noteq> 0 then 0
       else Suc (split_count (node_size es div 2) ?a False (drop (Suc i) es)))"
    by (simp only: dr a split_count.simps)
  show ?case
    using IH unfolding step sc by (simp add: add.commute)
qed

lemma split_idx_le: "split_idx es \<le> length es"
  by (simp add: split_idx_def split_count_le)

lemma nodeSplit2_bnode:
  assumes old: "bnode old t es"
    and l: "node_size (take (split_idx es) es) \<le> length left" "length left < 65536"
    and r: "node_size (drop (split_idx es) es) \<le> length right" "length right < 65536"
  shows "\<exists>l r. nodeSplit2 left right old = Some (l, r) \<and>
    bnode l t (take (split_idx es) es) \<and> bnode r t (drop (split_idx es) es) \<and>
    length l = length left \<and> length r = length right"
proof -
  note acc = bnode_access [OF old]
  let ?s = "split_idx es"
  have idx: "nodeSplit2_loop (unat (of_nat (length es) :: u16)) old (of_nat (node_size es)) 0 0 0 =
      Some (of_nat ?s)"
    using nodeSplit2_loop_eq [OF old, of 0 "length es"] acc(7)
    by (simp add: unat_of_nat_u16 split_idx_def)
  have "\<exists>b. do { x \<leftarrow> setHeader left t (of_nat ?s); nodeAppendRange x old 0 0 (of_nat ?s) } = Some b \<and>
      bnode b t (take ?s es) \<and> length b = length left"
    by (rule one_range_bnode [OF old, of 0 ?s]) (use split_idx_le l in simp_all)
  then obtain lb b1 where lb: "setHeader left t (of_nat ?s) = Some b1"
    "nodeAppendRange b1 old 0 0 (of_nat ?s) = Some lb"
    "bnode lb t (take ?s es)" "length lb = length left"
    by (auto simp: bind_eq_Some_conv)
  have d: "of_nat (length es) - of_nat ?s = (of_nat (length es - ?s) :: u16)"
    by (simp add: of_nat_diff split_idx_le)
  have "\<exists>b. do { x \<leftarrow> setHeader right t (of_nat (length es) - of_nat ?s);
        nodeAppendRange x old 0 (of_nat ?s) (of_nat (length es) - of_nat ?s) } = Some b \<and>
      bnode b t (drop ?s es) \<and> length b = length right"
    by (rule one_range_bnode [OF old, of ?s "length es - ?s"]) (use split_idx_le r d in simp_all)
  then obtain rb b2 where rb: "setHeader right t (of_nat (length es) - of_nat ?s) = Some b2"
    "nodeAppendRange b2 old 0 (of_nat ?s) (of_nat (length es) - of_nat ?s) = Some rb"
    "bnode rb t (drop ?s es)" "length rb = length right"
    by (auto simp: bind_eq_Some_conv)
  show ?thesis
    using lb rb by (simp add: nodeSplit2_def acc(1-3) idx)
qed

lemma split_count_over:
  "split_count h acc f es < length es \<Longrightarrow>
   h < acc + kvoff (take (Suc (split_count h acc f es)) es)"
proof (induction es arbitrary: acc f)
  case Nil
  then show ?case by simp
next
  case (Cons e es)
  show ?case
    using Cons.prems Cons.IH [of "acc + kvsize e" False] by (auto simp: add.assoc split: if_splits)
qed

lemma split_count_under:
  "split_count h acc f es \<le> (if f then 1 else 0) \<or> acc + kvoff (take (split_count h acc f es) es) \<le> h"
proof (induction es arbitrary: acc f)
  case Nil
  then show ?case by simp
next
  case (Cons e es)
  show ?case
    using Cons.IH [of "acc + kvsize e" False] by (auto simp: add.assoc)
qed

lemma split_count_pos: "es \<noteq> [] \<Longrightarrow> 0 < split_count h acc True es"
  by (cases es) auto

lemma split_count_all: "acc + kvoff es \<le> h \<Longrightarrow> split_count h acc f es = length es"
  by (induction es arbitrary: acc f) auto

lemma kvoff_ge: "\<forall>e \<in> set es. m \<le> kvsize e \<Longrightarrow> m * length es \<le> kvoff es"
  by (induction es) auto

lemma kvoff_le: "\<forall>e \<in> set es. kvsize e \<le> m \<Longrightarrow> kvoff es \<le> m * length es"
  by (induction es) auto

text \<open>
  Entries of at least 16 and at most 1500 bytes: a node that outgrew its page by less
  than 940 bytes is cut into two nodes that both fit a page and are both non-empty.
\<close>

definition mid_entry :: "entry \<Rightarrow> bool" where
  "mid_entry e \<longleftrightarrow> 16 \<le> kvsize e \<and> kvsize e \<le> 1500"

lemma split_idx_fits:
  assumes mid: "\<forall>e \<in> set es. mid_entry e" and N: "4096 < node_size es" "node_size es \<le> 5036"
  shows "0 < split_idx es" "split_idx es < length es"
    "node_size (take (split_idx es) es) \<le> 4096" "node_size (drop (split_idx es) es) \<le> 4096"
proof -
  define s where "s = split_idx es"
  have ne: "es \<noteq> []" using N by auto
  show pos: "0 < split_idx es" using ne by (simp add: split_idx_def split_count_pos)
  have take_mid: "\<forall>e \<in> set (take s es). 16 \<le> kvsize e \<and> kvsize e \<le> 1500"
    using mid by (auto simp: mid_entry_def dest: in_set_takeD)
  have s16: "16 * s \<le> kvoff (take s es)"
    using kvoff_ge [of "take s es" 16] take_mid split_idx_le [of es] by (simp add: s_def)
  have "s \<le> 1 \<or> kvoff (take s es) \<le> node_size es div 2"
    using split_count_under [of "node_size es div 2" 0 True es] by (simp add: s_def split_idx_def)
  moreover have "kvoff (take s es) \<le> 1500 * s"
    using kvoff_le [of "take s es" 1500] take_mid split_idx_le [of es] by (simp add: s_def)
  ultimately have left: "node_size (take s es) \<le> 4096"
    using s16 N split_idx_le [of es] by (auto simp: node_size_def s_def)
  then show "node_size (take (split_idx es) es) \<le> 4096" by (simp add: s_def)
  show lt: "split_idx es < length es"
    using left N(1) split_idx_le [of es] by (auto simp: s_def le_less)
  have "node_size es div 2 < kvoff (take (Suc s) es)"
    using split_count_over [of "node_size es div 2" 0 True es] lt by (simp add: s_def split_idx_def)
  moreover have "kvoff (take (Suc s) es) \<le> kvoff (take s es) + 1500"
    using kvoff_take_Suc [of s es] lt mid nth_mem [OF lt] by (auto simp: s_def mid_entry_def)
  moreover have "node_size es + 4 = node_size (take s es) + node_size (drop s es)"
    using node_size_append [of "take s es" "drop s es"] by simp
  ultimately show "node_size (drop (split_idx es) es) \<le> 4096"
    using N unfolding s_def [symmetric] by (simp add: node_size_def)
qed

lemma nodeSplit3_one:
  assumes "bnode old t es" "node_size es \<le> BTREE_PAGE_SIZE"
  shows "nodeSplit3 old = Some [old]"
  using bnode_access [OF assms(1)] assms(2) by (simp add: nodeSplit3_def unat_of_nat_u16)

lemma nodeSplit3_two:
  assumes old: "bnode old t es" and mid: "\<forall>e \<in> set es. mid_entry e"
    and N: "BTREE_PAGE_SIZE < node_size es" "node_size es \<le> 5036"
  shows "\<exists>l r. nodeSplit3 old = Some [l, r] \<and>
    bnode l t (take (split_idx es) es) \<and> bnode r t (drop (split_idx es) es) \<and>
    length l = 2 * BTREE_PAGE_SIZE \<and> length r = BTREE_PAGE_SIZE"
proof -
  note fits = split_idx_fits [OF mid N(1) [unfolded BTREE_PAGE_SIZE_def] N(2)]
  note acc = bnode_access [OF old]
  obtain l r where lr: "nodeSplit2 (make_bytes (2 * BTREE_PAGE_SIZE)) (make_bytes BTREE_PAGE_SIZE) old
      = Some (l, r)" "bnode l t (take (split_idx es) es)" "bnode r t (drop (split_idx es) es)"
    "length l = 2 * BTREE_PAGE_SIZE" "length r = BTREE_PAGE_SIZE"
    using nodeSplit2_bnode [OF old, of "make_bytes (2 * BTREE_PAGE_SIZE)" "make_bytes BTREE_PAGE_SIZE"]
      fits by (auto simp: BTREE_PAGE_SIZE_def)
  have "nbytes l = Some (of_nat (node_size (take (split_idx es) es)))"
    "unat (of_nat (node_size (take (split_idx es) es)) :: u16) \<le> BTREE_PAGE_SIZE"
    using bnode_access(3,8) [OF lr(2)] fits(3) by (simp_all add: unat_of_nat_u16 BTREE_PAGE_SIZE_def)
  then show ?thesis
    using lr N(1) acc(3,8) by (simp add: nodeSplit3_def unat_of_nat_u16)
qed

text \<open>Every entry list that fits is stored by some node.\<close>

lemma filled_build:
  "4 + 10 * n + kvoff es \<le> m \<Longrightarrow> length es \<le> n \<Longrightarrow> m < 65536 \<Longrightarrow>
   \<exists>b. filled b t n es \<and> length b = m"
proof (induction es rule: rev_induct)
  case Nil
  then show ?case using setHeader_filled [of n "make_bytes m" t] by auto
next
  case (snoc e es)
  obtain p k v where e: "e = (p, k, v)" by (cases e)
  obtain b where b: "filled b t n es" "length b = m"
    using snoc by (auto simp del: kvsize.simps)
  then show ?case
    using nodeAppendKV_filled [OF b(1), of p k v] snoc.prems by (auto simp: e)
qed

lemma bnode_build:
  assumes "node_size es \<le> m" "m < 65536"
  shows "\<exists>b. bnode b t es \<and> length b = m"
  using filled_build [of "length es" es m t] assms by (simp add: bnode_def node_size_def)

text \<open>
  Entries of at most ten bytes each (six for key and value): half of the node's size
  is never reached, so everything stays on the left.
\<close>

lemma split_idx_small:
  assumes "\<forall>e \<in> set es. kvsize e \<le> 10"
  shows "split_idx es = length es"
  using kvoff_le [OF assms] by (simp add: split_idx_def split_count_all node_size_def)

text \<open>Appending panics when the two length fields of the entry do not fit any more.\<close>

lemma nodeAppendKV_overflow:
  assumes f: "filled b t n es" and i: "length es < n"
    and over: "length b < 4 + 10 * n + kvoff es + 4" "4 + 10 * n + kvoff es + 4 < 65536"
  shows "nodeAppendKV b (of_nat (length es)) p k v = None"
proof -
  note bd = filled_bounds [OF f]
  define q where "q = 4 + 10 * n + kvoff es"
  define b1 where "b1 = overwrite b (4 + 8 * length es) (le_bytes 8 p)"
  have le: "4 + 8 * length es + 8 \<le> length b" using bd i by simp
  have f1: "filled b1 t n es" using filled_overwrite_ptr [OF f i] by (simp add: b1_def)
  have "unat (HEADER + 8 * of_nat (length es) :: u16) = 4 + 8 * length es"
    using unat_of_nat_u16 [of "4 + 8 * length es"] le bd(1) by (simp add: HEADER_def)
  then have s1: "setPtr b (of_nat (length es)) p = Some b1"
    using le by (simp add: setPtr_def put_at_Some b1_def)
  have s2: "kvPos b1 (of_nat (length es)) = Some (of_nat q)"
    using filled_kvPos [OF f1, of "length es"] by (simp add: q_def)
  have u: "unat (of_nat q + 0 :: u16) = q" "unat (of_nat q + 2 :: u16) = q + 2"
    using over by (simp_all only: q_def add_0_right unat_of_nat_u16 unat_of_nat_add_u16)
  have l1: "length b1 = length b" using le by (simp add: b1_def)
  have p2: "put_at b2 (q + 2) (le_bytes 2 vl) = None"
    if "put_at b1 q (le_bytes 2 kl) = Some b2" for kl vl :: u16 and b2
    using put_at_length [OF that] l1 over by (simp add: put_at_def q_def)
  show ?thesis
    unfolding nodeAppendKV_def s1 s2 u bind.bind_lunit
    using p2 by (auto simp: bind_eq_None_conv)
qed

lemma nodeAppendRange_loop_add:
  "nodeAppendRange_loop (a + b) new old d s =
   nodeAppendRange_loop a new old d s \<bind>
     (\<lambda>n. nodeAppendRange_loop b n old (d + of_nat a) (s + of_nat a))"
  by (induction a arbitrary: new d s) (simp_all add: Option.bind_assoc add.assoc)

lemma nodeAppendRange_overflow:
  assumes new: "filled new t n []" and old: "bnode old t' fs" and n: "n = length fs"
    and m: "m < length fs"
    and fit: "4 + 10 * n + kvoff (take m fs) \<le> length new"
      "length new < 4 + 10 * n + kvoff (take m fs) + 4"
      "4 + 10 * n + kvoff (take m fs) + 4 < 65536"
  shows "nodeAppendRange new old 0 0 (of_nat n) = None"
proof -
  have f: "filled old t' (length fs) fs" using old by (simp add: bnode_def)
  obtain b1 where b1: "nodeAppendRange_loop m new old 0 0 = Some b1"
    "filled b1 t n (take m fs)" "length b1 = length new"
    using nodeAppendRange_loop_filled [OF new f, of 0 m] m n fit(1) by auto
  obtain p k v where e: "fs ! m = (p, k, v)" by (cases "fs ! m")
  have "nodeAppendKV b1 (of_nat (length (take m fs))) p k v = None"
    using m n fit b1(3) by (intro nodeAppendKV_overflow [OF b1(2)]) simp_all
  then have "nodeAppendKV b1 (of_nat m) p k v = None" using m by simp
  then have "nodeAppendRange_loop (Suc (n - Suc m)) b1 old (of_nat m) (of_nat m) = None"
    using bnode_access(4-6) [OF old m] e by simp
  then have "nodeAppendRange_loop (m + Suc (n - Suc m)) new old 0 0 = None"
    using b1(1) unfolding nodeAppendRange_loop_add by simp
  moreover have "m + Suc (n - Suc m) = n" using m n by simp
  ultimately have "nodeAppendRange_loop n new old 0 0 = None" by (simp only:)
  then show ?thesis
    using n bnode_access(7) [OF old] by (simp add: nodeAppendRange_def unat_of_nat_u16)
qed

lemma nodeSplit3_small_reduces:
  assumes old: "bnode old t es" and small: "\<forall>e \<in> set es. kvsize e \<le> 10"
    and N: "BTREE_PAGE_SIZE < node_size es" "node_size es \<le> 2 * BTREE_PAGE_SIZE"
  shows "\<exists>l r. bnode l t es \<and> bnode r t [] \<and>
    nodeSplit3 old = do {
      (leftleft, middle) \<leftarrow> nodeSplit2 (make_bytes BTREE_PAGE_SIZE) (make_bytes BTREE_PAGE_SIZE) l;
      Some [leftleft, middle, r]
    }"
proof -
  note acc = bnode_access [OF old]
  have s: "split_idx es = length es" using small by (rule split_idx_small)
  obtain l r where lr: "nodeSplit2 (make_bytes (2 * BTREE_PAGE_SIZE)) (make_bytes BTREE_PAGE_SIZE) old
      = Some (l, r)" "bnode l t es" "bnode r t []"
    using nodeSplit2_bnode [OF old, of "make_bytes (2 * BTREE_PAGE_SIZE)" "make_bytes BTREE_PAGE_SIZE"]
      s N(2) by (auto simp: BTREE_PAGE_SIZE_def)
  have u: "unat (of_nat (node_size es) :: u16) = node_size es" using acc(8) by (rule unat_of_nat_u16)
  then show ?thesis
    using lr N(1) acc(3) bnode_access(3) [OF lr(2)]
    by (intro exI [of _ l] exI [of _ r]) (simp add: nodeSplit3_def not_le)
qed

lemma nodeSplit2_overflow:
  assumes old: "bnode old t es" and s: "split_idx es = length es" and m: "m < length es"
    and fit: "4 + 10 * length es + kvoff (take m es) \<le> length left"
      "length left < 4 + 10 * length es + kvoff (take m es) + 4"
      "length left + 4 < 65536"
  shows "nodeSplit2 left right old = None"
proof -
  note acc = bnode_access [OF old]
  have idx: "nodeSplit2_loop (unat (of_nat (length es) :: u16)) old (of_nat (node_size es)) 0 0 0 =
      Some (of_nat (length es))"
    using nodeSplit2_loop_eq [OF old, of 0 "length es"] acc(7) s
    by (simp add: unat_of_nat_u16 split_idx_def)
  obtain b0 where b0: "setHeader left t (of_nat (length es)) = Some b0"
    "filled b0 t (length es) []" "length b0 = length left"
    using setHeader_filled [of "length es" left t] fit by auto
  have "nodeAppendRange b0 old 0 0 (of_nat (length es)) = None"
    using fit b0(3) by (intro nodeAppendRange_overflow [OF b0(2) old refl m]) simp_all
  then show ?thesis by (simp add: nodeSplit2_def acc(1-3) idx b0(1))
qed

end
