(* ===== verification/BTree.thy ===== *)
theory BTree
  imports NodeOps
begin

text \<open>
  The B+tree of \<^verbatim>\<open>internal/btree\<close>: \<open>Insert\<close>, \<open>Get\<close> and \<open>Delete\<close> over pages
  (\<^verbatim>\<open>insert.go\<close>, \<^verbatim>\<open>delete.go\<close>). The tree reaches its pages through the three
  callbacks of the struct \<^verbatim>\<open>BTree\<close>; they are a record here, over an arbitrary
  store state that every call threads through. The recursive functions and the
  descent loop of \<open>Get\<close> are \<^theory_text>\<open>partial_function (option)\<close>: a descent that
  never ends, like a panic, is \<open>None\<close>.
\<close>

record 's pager =
  GetPage :: "'s \<Rightarrow> u64 \<Rightarrow> bytes option"
  NewPage :: "'s \<Rightarrow> bytes \<Rightarrow> (u64 \<times> 's) option"
  DelPage :: "'s \<Rightarrow> u64 \<Rightarrow> 's option"

section \<open>Insertion\<close>

text \<open>The loop of \<open>nodeReplaceKidN\<close> over the new children.\<close>

fun nodeReplaceKidN_loop :: "'s pager \<Rightarrow> 's \<Rightarrow> bytes \<Rightarrow> u16 \<Rightarrow> bytes list \<Rightarrow> (bytes \<times> 's) option" where
  "nodeReplaceKidN_loop P s new idx [] = Some (new, s)"
| "nodeReplaceKidN_loop P s new idx (kid # kids) = do {
     (ptr, s) \<leftarrow> NewPage P s kid;
     key \<leftarrow> getKey kid 0;
     new \<leftarrow> nodeAppendKV new idx ptr key [];
     nodeReplaceKidN_loop P s new (idx + 1) kids
   }"

definition nodeReplaceKidN :: "'s pager \<Rightarrow> 's \<Rightarrow> bytes \<Rightarrow> bytes \<Rightarrow> u16 \<Rightarrow> bytes list \<Rightarrow> (bytes \<times> 's) option" where
  "nodeReplaceKidN P s new old idx kids = do {
     let inc = of_nat (length kids);
     n \<leftarrow> nkeys old;
     new \<leftarrow> setHeader new BNODE_INTERNAL (n + inc - 1);
     new \<leftarrow> nodeAppendRange new old 0 0 idx;
     (new, s) \<leftarrow> nodeReplaceKidN_loop P s new idx kids;
     new \<leftarrow> nodeAppendRange new old (idx + inc) (idx + 1) (n - (idx + 1));
     Some (new, s)
   }"

text \<open>The leaf case of \<open>treeInsert\<close>.\<close>

definition treeInsert_leaf :: "bytes \<Rightarrow> bytes \<Rightarrow> u16 \<Rightarrow> bytes \<Rightarrow> bytes \<Rightarrow> bytes option" where
  "treeInsert_leaf new node idx key val = do {
     n \<leftarrow> nkeys node;
     c \<leftarrow> (if n > 0 then do { k \<leftarrow> getKey node idx; Some (cmp key k) } else Some (-1));
     (if n > 0 \<and> c = 0 then leafUpdate new node idx key val
      else leafInsert new node (if n > 0 \<and> c > 0 then idx + 1 else idx) key val)
   }"

partial_function (option) treeInsert :: "'s pager \<Rightarrow> 's \<Rightarrow> bytes \<Rightarrow> bytes \<Rightarrow> bytes \<Rightarrow> (bytes \<times> 's) option" where
  "treeInsert P s node key val = do {
     let new = make_bytes (2 * BTREE_PAGE_SIZE);
     idx \<leftarrow> nodeLookupLE node key;
     t \<leftarrow> btype node;
     (if t = BNODE_LEAF then do {
        new \<leftarrow> treeInsert_leaf new node idx key val;
        Some (new, s)
      }
      else if t = BNODE_INTERNAL then do {
        kptr \<leftarrow> getPtr node idx;
        knode \<leftarrow> GetPage P s kptr;
        s \<leftarrow> DelPage P s kptr;
        (knode, s) \<leftarrow> treeInsert P s knode key val;
        split \<leftarrow> nodeSplit3 knode;
        nodeReplaceKidN P s new node idx split
      }
      else Some (new, s))
   }"

text \<open>The loop of \<open>Insert\<close> that fills a new root.\<close>

fun Insert_root_loop :: "'s pager \<Rightarrow> 's \<Rightarrow> bytes \<Rightarrow> u16 \<Rightarrow> bytes list \<Rightarrow> (bytes \<times> 's) option" where
  "Insert_root_loop P s root i [] = Some (root, s)"
| "Insert_root_loop P s root i (knode # knodes) = do {
     (ptr, s) \<leftarrow> NewPage P s knode;
     pos \<leftarrow> offsetPos root (i + 1);
     root \<leftarrow> copy_at root (unat pos) (make_bytes 2);
     key \<leftarrow> getKey knode 0;
     root \<leftarrow> nodeAppendKV root i ptr key [];
     Insert_root_loop P s root (i + 1) knodes
   }"

text \<open>\<open>Insert\<close> returns the new root pointer and the store.\<close>

definition Insert :: "'s pager \<Rightarrow> 's \<Rightarrow> u64 \<Rightarrow> bytes \<Rightarrow> bytes \<Rightarrow> (u64 \<times> 's) option" where
  "Insert P s Root key val =
     (if Root = 0 then do {
        root \<leftarrow> setHeader (make_bytes BTREE_PAGE_SIZE) BNODE_LEAF 1;
        root \<leftarrow> nodeAppendKV root 0 0 key val;
        NewPage P s root
      }
      else do {
        node \<leftarrow> GetPage P s Root;
        s \<leftarrow> DelPage P s Root;
        (node, s) \<leftarrow> treeInsert P s node key val;
        split \<leftarrow> nodeSplit3 node;
        (if length split > 1 then do {
           root \<leftarrow> setHeader (make_bytes BTREE_PAGE_SIZE) BNODE_INTERNAL (of_nat (length split));
           (root, s) \<leftarrow> Insert_root_loop P s root 0 split;
           NewPage P s root
         }
         else do {
           n0 \<leftarrow> index split 0;
           NewPage P s n0
         })
      })"

section \<open>Lookup\<close>

partial_function (option) Get_loop :: "'s pager \<Rightarrow> 's \<Rightarrow> bytes \<Rightarrow> bytes \<Rightarrow> bytes option option" where
  "Get_loop P s node key = do {
     idx \<leftarrow> nodeLookupLE node key;
     t \<leftarrow> btype node;
     (if t = BNODE_LEAF then do {
        k \<leftarrow> getKey node idx;
        (if cmp key k = 0 then do { v \<leftarrow> getVal node idx; Some (Some v) } else Some None)
      }
      else if t = BNODE_INTERNAL then do {
        p \<leftarrow> getPtr node idx;
        node \<leftarrow> GetPage P s p;
        Get_loop P s node key
      }
      else Get_loop P s node key)
   }"

text \<open>\<open>Some None\<close> is the return \<^verbatim>\<open>nil, false\<close>.\<close>

definition Get :: "'s pager \<Rightarrow> 's \<Rightarrow> u64 \<Rightarrow> bytes \<Rightarrow> bytes option option" where
  "Get P s Root key =
     (if Root = 0 then Some None
      else do {
        node \<leftarrow> GetPage P s Root;
        Get_loop P s node key
      })"

section \<open>Deletion\<close>

text \<open>\<open>shouldMerge\<close> returns the direction and the sibling (an empty slice for 0).\<close>

definition shouldMerge :: "'s pager \<Rightarrow> 's \<Rightarrow> bytes \<Rightarrow> u16 \<Rightarrow> bytes \<Rightarrow> (int \<times> bytes) option" where
  "shouldMerge P s node idx updated = do {
     ub \<leftarrow> nbytes updated;
     (if unat ub > BTREE_PAGE_SIZE div 4 then Some (0, [])
      else do {
        left \<leftarrow> (if idx > 0 then do {
             p \<leftarrow> getPtr node (idx - 1);
             sibling \<leftarrow> GetPage P s p;
             sb \<leftarrow> nbytes sibling;
             Some (if unat (sb + ub - HEADER) \<le> BTREE_PAGE_SIZE then Some sibling else None)
           } else Some None);
        (case left of
           Some sibling \<Rightarrow> Some (-1, sibling)
         | None \<Rightarrow> do {
             n \<leftarrow> nkeys node;
             (if idx + 1 < n then do {
                p \<leftarrow> getPtr node (idx + 1);
                sibling \<leftarrow> GetPage P s p;
                sb \<leftarrow> nbytes sibling;
                Some (if unat (sb + ub - HEADER) \<le> BTREE_PAGE_SIZE then (1, sibling) else (0, []))
              }
              else Some (0, []))
           })
      })
   }"

text \<open>\<open>treeDelete\<close> returns an empty slice (\<^verbatim>\<open>BNode{}\<close>) when the key is not there.\<close>

partial_function (option) treeDelete :: "'s pager \<Rightarrow> 's \<Rightarrow> bytes \<Rightarrow> bytes \<Rightarrow> (bytes \<times> 's) option" where
  "treeDelete P s node key = do {
     idx \<leftarrow> nodeLookupLE node key;
     t \<leftarrow> btype node;
     (if t = BNODE_LEAF then do {
        k \<leftarrow> getKey node idx;
        (if cmp key k \<noteq> 0 then Some ([], s)
         else do {
           new \<leftarrow> leafDelete node idx;
           Some (new, s)
         })
      }
      else if t = BNODE_INTERNAL then do {
        kptr \<leftarrow> getPtr node idx;
        knode \<leftarrow> GetPage P s kptr;
        (updated, s) \<leftarrow> treeDelete P s knode key;
        (if length updated = 0 then Some ([], s)
         else do {
           s \<leftarrow> DelPage P s kptr;
           let new = make_bytes BTREE_PAGE_SIZE;
           (mergeDir, sibling) \<leftarrow> shouldMerge P s node idx updated;
           (if mergeDir < 0 then do {
              merged \<leftarrow> nodeMerge (make_bytes BTREE_PAGE_SIZE) sibling updated;
              p \<leftarrow> getPtr node (idx - 1);
              s \<leftarrow> DelPage P s p;
              (ptr, s) \<leftarrow> NewPage P s merged;
              mk \<leftarrow> getKey merged 0;
              new \<leftarrow> nodeReplace2Kid new node (idx - 1) ptr mk;
              Some (new, s)
            }
            else if mergeDir > 0 then do {
              merged \<leftarrow> nodeMerge (make_bytes BTREE_PAGE_SIZE) updated sibling;
              p \<leftarrow> getPtr node (idx + 1);
              s \<leftarrow> DelPage P s p;
              (ptr, s) \<leftarrow> NewPage P s merged;
              mk \<leftarrow> getKey merged 0;
              new \<leftarrow> nodeReplace2Kid new node idx ptr mk;
              Some (new, s)
            }
            else do {
              un \<leftarrow> nkeys updated;
              (if un = 0 then do {
                 new \<leftarrow> setHeader new BNODE_INTERNAL 0;
                 Some (new, s)
               }
               else nodeReplaceKidN P s new node idx [updated])
            })
         })
      }
      else Some ([], s))
   }"

definition Delete :: "'s pager \<Rightarrow> 's \<Rightarrow> u64 \<Rightarrow> bytes \<Rightarrow> (bool \<times> u64 \<times> 's) option" where
  "Delete P s Root key =
     (if Root = 0 then Some (False, Root, s)
      else do {
        node \<leftarrow> GetPage P s Root;
        (updated, s) \<leftarrow> treeDelete P s node key;
        (if length updated = 0 then Some (False, Root, s)
         else do {
           s \<leftarrow> DelPage P s Root;
           n \<leftarrow> nkeys updated;
           (if n = 0 then Some (True, 0, s)
            else do {
              (r, s) \<leftarrow> NewPage P s updated;
              Some (True, r, s)
            })
         })
      })"

end
