(* ===== verification/Tree_Spec.thy ===== *)
theory Tree_Spec
  imports BTree
begin

text \<open>
  What the pages of a B+tree represent. An abstract tree has key/value lists in its
  leaves and, in its inner nodes, the pointer and separator of every child. \<open>rep\<close> relates it
  to the pages of a store; \<open>wf_tree\<close>, \<open>fits\<close> and \<open>usual\<close> are the invariants (shape and
  separators, page sizes, entry sizes), and the in-order list of pairs is the
  content. The specification of an update is a function on that list.
\<close>

datatype atree = ALeaf "(bytes \<times> bytes) list" | ANode "(u64 \<times> bytes \<times> atree) list"

fun contents :: "atree \<Rightarrow> (bytes \<times> bytes) list" where
  "contents (ALeaf kvs) = kvs"
| "contents (ANode xs) = concat (map (\<lambda>x. contents (snd (snd x))) xs)"

fun ptrs :: "atree \<Rightarrow> u64 list" where
  "ptrs (ALeaf kvs) = []"
| "ptrs (ANode xs) = concat (map (\<lambda>x. fst x # ptrs (snd (snd x))) xs)"

fun entries :: "atree \<Rightarrow> entry list" where
  "entries (ALeaf kvs) = map (\<lambda>x. (0, fst x, snd x)) kvs"
| "entries (ANode xs) = map (\<lambda>x. (fst x, fst (snd x), [])) xs"

fun atype :: "atree \<Rightarrow> u16" where
  "atype (ALeaf kvs) = BNODE_LEAF"
| "atype (ANode xs) = BNODE_INTERNAL"

text \<open>\<open>rep m t b\<close>: the page \<open>b\<close> is the root of \<open>t\<close>, whose other pages are in \<open>m\<close>.\<close>

fun rep :: "(u64 \<Rightarrow> bytes option) \<Rightarrow> atree \<Rightarrow> bytes \<Rightarrow> bool" where
  "rep m (ALeaf kvs) b = bnode b BNODE_LEAF (entries (ALeaf kvs))"
| "rep m (ANode xs) b =
     (bnode b BNODE_INTERNAL (entries (ANode xs)) \<and>
      (\<forall>x \<in> set xs. case m (fst x) of None \<Rightarrow> False | Some b' \<Rightarrow> rep m (snd (snd x)) b'))"

text \<open>Leaves at depth \<open>h\<close>, no empty node, every separator the first key below it.\<close>

fun wf_tree :: "nat \<Rightarrow> atree \<Rightarrow> bool" where
  "wf_tree 0 (ALeaf kvs) \<longleftrightarrow> kvs \<noteq> []"
| "wf_tree (Suc h) (ANode xs) \<longleftrightarrow> xs \<noteq> [] \<and>
     (\<forall>x \<in> set xs. wf_tree h (snd (snd x)) \<and> fst (snd x) = fst (hd (contents (snd (snd x)))))"
| "wf_tree _ _ \<longleftrightarrow> False"

definition tsize :: "atree \<Rightarrow> nat" where
  "tsize t = node_size (entries t)"

text \<open>Every page below the root has at most the page size.\<close>

fun fits :: "atree \<Rightarrow> bool" where
  "fits (ALeaf kvs) \<longleftrightarrow> True"
| "fits (ANode xs) \<longleftrightarrow>
     (\<forall>x \<in> set xs. tsize (snd (snd x)) \<le> BTREE_PAGE_SIZE \<and> fits (snd (snd x)))"

text \<open>The entry sizes for which node splitting is safe.\<close>

definition usual :: "bytes \<times> bytes \<Rightarrow> bool" where
  "usual x \<longleftrightarrow> 12 \<le> length (fst x) \<and> length (fst x) \<le> 460 \<and> length (fst x) + length (snd x) \<le> 920"

definition keys_sorted :: "(bytes \<times> bytes) list \<Rightarrow> bool" where
  "keys_sorted xs \<longleftrightarrow> sorted_wrt (<) (map fst xs)"

text \<open>The specification of an insertion and of a deletion on the sorted content.\<close>

definition put_kv :: "bytes \<Rightarrow> bytes \<Rightarrow> (bytes \<times> bytes) list \<Rightarrow> (bytes \<times> bytes) list" where
  "put_kv k v xs = filter (\<lambda>x. fst x < k) xs @ (k, v) # filter (\<lambda>x. k < fst x) xs"

definition del_kv :: "bytes \<Rightarrow> (bytes \<times> bytes) list \<Rightarrow> (bytes \<times> bytes) list" where
  "del_kv k xs = filter (\<lambda>x. fst x \<noteq> k) xs"

section \<open>The content as a map\<close>

lemma map_of_filter_key:
  "map_of (filter (\<lambda>x. P (fst x)) xs) q = (if P q then map_of xs q else None)"
  by (induction xs) auto

lemma map_of_put_kv: "map_of (put_kv k v xs) = (map_of xs)(k \<mapsto> v)"
  by (rule ext) (auto simp: put_kv_def map_add_def map_of_filter_key [of "\<lambda>y. y < k"]
      map_of_filter_key [of "\<lambda>y. k < y"] split: option.splits if_splits)

lemma map_of_del_kv: "map_of (del_kv k xs) = (map_of xs)(k := None)"
  by (rule ext) (simp add: del_kv_def map_of_filter_key [of "\<lambda>x. x \<noteq> k"])

lemma keys_sorted_simps [simp]:
  "keys_sorted []"
  "keys_sorted (x # xs) \<longleftrightarrow> (\<forall>y \<in> set xs. fst x < fst y) \<and> keys_sorted xs"
  "keys_sorted (xs @ ys) \<longleftrightarrow> keys_sorted xs \<and> keys_sorted ys \<and>
     (\<forall>x \<in> set xs. \<forall>y \<in> set ys. fst x < fst y)"
  by (auto simp: keys_sorted_def sorted_wrt_append)

lemma keys_sorted_filter: "keys_sorted xs \<Longrightarrow> keys_sorted (filter P xs)"
  by (induction xs) auto

lemma keys_sorted_put_kv: "keys_sorted xs \<Longrightarrow> keys_sorted (put_kv k v xs)"
  by (auto simp: put_kv_def keys_sorted_filter)

lemma set_put_kv: "set (put_kv k v xs) \<subseteq> insert (k, v) (set xs)"
  by (auto simp: put_kv_def)

lemma put_kv_not_Nil [simp]: "put_kv k v xs \<noteq> []"
  by (simp add: put_kv_def)

text \<open>An update inside one segment of a sorted list.\<close>

lemma put_kv_append:
  assumes "\<forall>x \<in> set xs. fst x < k" "\<forall>x \<in> set zs. k < fst x"
  shows "put_kv k v (xs @ ys @ zs) = xs @ put_kv k v ys @ zs"
proof -
  have "filter (\<lambda>x. fst x < k) xs = xs" "filter (\<lambda>x. k < fst x) xs = []"
    "filter (\<lambda>x. fst x < k) zs = []" "filter (\<lambda>x. k < fst x) zs = zs"
    using assms by (auto simp: filter_id_conv filter_empty_conv)
  then show ?thesis by (simp add: put_kv_def)
qed

lemma del_kv_append:
  assumes "\<forall>x \<in> set xs. fst x < k" "\<forall>x \<in> set zs. k < fst x"
  shows "del_kv k (xs @ ys @ zs) = xs @ del_kv k ys @ zs"
proof -
  have "filter (\<lambda>x. fst x \<noteq> k) xs = xs" "filter (\<lambda>x. fst x \<noteq> k) zs = zs"
    using assms by (auto simp: filter_id_conv)
  then show ?thesis by (simp add: del_kv_def)
qed

section \<open>Positions in a leaf\<close>

abbreviation kidx :: "(bytes \<times> bytes) list \<Rightarrow> bytes \<Rightarrow> nat" where
  "kidx kvs k \<equiv> le_index (map fst kvs) k"

lemma take_count_le:
  assumes "keys_sorted kvs"
  shows "take (count_le (map fst kvs) k) kvs = filter (\<lambda>x. fst x \<le> k) kvs"
    and "drop (count_le (map fst kvs) k) kvs = filter (\<lambda>x. k < fst x) kvs"
proof -
  have "takeWhile (\<lambda>x. fst x \<le> k) kvs = filter (\<lambda>x. fst x \<le> k) kvs \<and>
    dropWhile (\<lambda>x. fst x \<le> k) kvs = filter (\<lambda>x. k < fst x) kvs"
    using assms
  proof (induction kvs)
    case Nil
    then show ?case by simp
  next
    case (Cons x xs)
    show ?case
    proof (cases "fst x \<le> k")
      case True
      then show ?thesis using Cons by auto
    next
      case False
      then have "\<forall>y \<in> set (x # xs). k < fst y"
        using Cons.prems by (auto intro: less_trans)
      then have "filter (\<lambda>y. fst y \<le> k) (x # xs) = []" "filter (\<lambda>y. k < fst y) (x # xs) = x # xs"
        by (auto simp: filter_empty_conv filter_id_conv)
      then show ?thesis using False by simp
    qed
  qed
  moreover have "count_le (map fst kvs) k = length (takeWhile (\<lambda>x. fst x \<le> k) kvs)"
    by (simp add: count_le_def takeWhile_map comp_def)
  ultimately show "take (count_le (map fst kvs) k) kvs = filter (\<lambda>x. fst x \<le> k) kvs"
    and "drop (count_le (map fst kvs) k) kvs = filter (\<lambda>x. k < fst x) kvs"
    using takeWhile_eq_take [of "\<lambda>x. fst x \<le> k" kvs] dropWhile_eq_drop [of "\<lambda>x. fst x \<le> k" kvs]
    by metis+
qed

lemma filter_less_take:
  assumes "keys_sorted kvs"
  shows "filter (\<lambda>x. fst x < k) kvs = filter (\<lambda>x. fst x < k) (take (count_le (map fst kvs) k) kvs)"
proof -
  have "filter (\<lambda>x. fst x < k) kvs = filter (\<lambda>x. fst x < k) (filter (\<lambda>x. fst x \<le> k) kvs)"
    by (auto intro: filter_cong)
  then show ?thesis by (simp add: take_count_le(1) [OF assms])
qed

lemma put_kv_cases:
  assumes sorted: "keys_sorted kvs" and c_def: "c = count_le (map fst kvs) k"
  shows "c = 0 \<Longrightarrow> put_kv k v kvs = (k, v) # kvs"
    and "0 < c \<Longrightarrow> fst (kvs ! (c - 1)) = k \<Longrightarrow> put_kv k v kvs = take (c - 1) kvs @ (k, v) # drop c kvs"
    and "0 < c \<Longrightarrow> fst (kvs ! (c - 1)) < k \<Longrightarrow> put_kv k v kvs = take c kvs @ (k, v) # drop c kvs"
proof -
  note less = filter_less_take [OF sorted, of k, folded c_def]
  note gt = take_count_le(2) [OF sorted, of k, folded c_def, symmetric]
  have cl: "c \<le> length kvs" using count_le_length [of "map fst kvs" k] by (simp add: c_def)
  show "put_kv k v kvs = (k, v) # kvs" if "c = 0"
    using that by (simp add: put_kv_def less gt)
  have snoc: "take c kvs = take (c - 1) kvs @ [kvs ! (c - 1)]" if "0 < c"
    using that cl by (cases c) (simp_all add: take_Suc_conv_app_nth)
  have below: "\<forall>x \<in> set (take (c - 1) kvs). fst x < fst (kvs ! (c - 1))" if "0 < c"
  proof -
    have "keys_sorted (take c kvs @ drop c kvs)" using sorted by simp
    then show ?thesis using that by (simp only: keys_sorted_simps snoc) simp
  qed
  show "put_kv k v kvs = take (c - 1) kvs @ (k, v) # drop c kvs"
    if "0 < c" "fst (kvs ! (c - 1)) = k"
    using below that snoc [OF that(1)] by (simp add: put_kv_def less gt filter_id_conv)
  show "put_kv k v kvs = take c kvs @ (k, v) # drop c kvs"
    if "0 < c" "fst (kvs ! (c - 1)) < k"
  proof -
    have "\<forall>x \<in> set (take c kvs). fst x < k"
      using below [OF that(1)] that snoc [OF that(1)] by (auto intro: less_trans)
    then have "filter (\<lambda>x. fst x < k) (take c kvs) = take c kvs" by (simp add: filter_id_conv)
    then show ?thesis by (simp add: put_kv_def less gt)
  qed
qed

lemma leaf_entries_splice:
  "entries (ALeaf (take i kvs @ (k, v) # drop j kvs)) =
   take i (entries (ALeaf kvs)) @ (0, k, v) # drop j (entries (ALeaf kvs))"
  by (simp add: take_map drop_map)

lemma leaf_ekeys [simp]: "ekeys (entries (ALeaf kvs)) = map fst kvs"
  by (simp add: comp_def)

lemma treeInsert_leaf_bnode:
  assumes node: "bnode node BNODE_LEAF (entries (ALeaf kvs))" and sorted: "keys_sorted kvs"
    and fit: "node_size (entries (ALeaf (put_kv k v kvs))) \<le> length new" "length new < 65536"
  shows "\<exists>b'. treeInsert_leaf new node (of_nat (kidx kvs k)) k v = Some b' \<and>
    bnode b' BNODE_LEAF (entries (ALeaf (put_kv k v kvs))) \<and> length b' = length new"
proof -
  let ?es = "entries (ALeaf kvs)" and ?c = "count_le (map fst kvs) k"
  note acc = bnode_access [OF node]
  note cases = put_kv_cases [OF sorted refl, of k v]
  have len: "length ?es = length kvs" by simp
  have n0: "(0 :: u16) < of_nat (length kvs) \<longleftrightarrow> kvs \<noteq> []"
    using acc(7) by (simp add: word_less_nat_alt unat_of_nat_u16)
  have idx: "kidx kvs k = ?c - 1" by (simp add: le_index_def)
  have cl: "?c \<le> length kvs" using count_le_length [of "map fst kvs" k] by simp
  have insert: "\<exists>b'. leafInsert new node (of_nat i) k v = Some b' \<and>
      bnode b' BNODE_LEAF (entries (ALeaf (put_kv k v kvs))) \<and> length b' = length new"
    if "i \<le> length kvs" "put_kv k v kvs = take i kvs @ (k, v) # drop i kvs" for i
    using leafInsert_bnode [OF node, of i k v new] that fit leaf_entries_splice [of i kvs k v i] len
    by simp
  show ?thesis
  proof (cases "kvs = []")
    case True
    then show ?thesis
      using insert [of 0] acc(2) by (simp add: treeInsert_leaf_def le_index_def put_kv_def count_le_def)
  next
    case False
    have i: "kidx kvs k < length ?es" using le_index_less [of "map fst kvs" k] False by simp
    have key: "getKey node (of_nat (kidx kvs k)) = Some (fst (kvs ! kidx kvs k))"
      using acc(5) [OF i] i by simp
    consider (eq) "k = fst (kvs ! kidx kvs k)" | (gt) "fst (kvs ! kidx kvs k) < k"
      | (lt) "k < fst (kvs ! kidx kvs k)" by (rule linorder_cases)
    then show ?thesis
    proof cases
      case eq
      have "0 < ?c"
        using eq count_le_above [of "map fst kvs" k 0] sorted False
        by (cases "?c") (auto simp: idx keys_sorted_def)
      then have put: "put_kv k v kvs = take (kidx kvs k) kvs @ (k, v) # drop (Suc (kidx kvs k)) kvs"
        using cases(2) eq idx by simp
      have "\<exists>b'. leafUpdate new node (of_nat (kidx kvs k)) k v = Some b' \<and>
        bnode b' BNODE_LEAF (entries (ALeaf (put_kv k v kvs))) \<and> length b' = length new"
        using leafUpdate_bnode [OF node i, of k v new] fit
          leaf_entries_splice [of "kidx kvs k" kvs k v "Suc (kidx kvs k)"] put by simp
      then show ?thesis using acc(2) key n0 False eq by (simp add: treeInsert_leaf_def len)
    next
      case gt
      then have cmp1: "cmp k (fst (kvs ! kidx kvs k)) = 1" by (auto simp: cmp_eq)
      have "0 < ?c"
        using gt count_le_above [of "map fst kvs" k 0] sorted False
        by (cases "?c") (auto simp: idx keys_sorted_def)
      then have "put_kv k v kvs = take ?c kvs @ (k, v) # drop ?c kvs" "?c = Suc (kidx kvs k)"
        using cases(3) gt idx by simp_all
      then show ?thesis
        using insert [of ?c] cl acc(2) key n0 False cmp1
        by (simp add: treeInsert_leaf_def len add.commute)
    next
      case lt
      then have cmp1: "cmp k (fst (kvs ! kidx kvs k)) = -1" by (simp add: cmp_eq)
      have "?c = 0"
        using lt count_le_below [of "?c - 1" "map fst kvs" k] idx cl by (cases "?c") auto
      then show ?thesis
        using insert [of 0] cases(1) idx acc(2) key n0 False cmp1
        by (simp add: treeInsert_leaf_def len)
    qed
  qed
qed

section \<open>Inner nodes\<close>

lemma wf_contents: "wf_tree h t \<Longrightarrow> contents t \<noteq> []"
proof (induction h t rule: wf_tree.induct)
  case (2 h xs)
  then obtain x where "x \<in> set xs" by (cases xs) auto
  with 2 have "contents (snd (snd x)) \<noteq> []" by auto
  with \<open>x \<in> set xs\<close> show ?case by auto
qed auto

lemma wf_cases:
  assumes "wf_tree h t"
  obtains (leaf) kvs where "h = 0" "t = ALeaf kvs" "kvs \<noteq> []"
  | (node) h' xs where "h = Suc h'" "t = ANode xs" "xs \<noteq> []"
      "\<forall>x \<in> set xs. wf_tree h' (snd (snd x)) \<and> fst (snd x) = fst (hd (contents (snd (snd x))))"
  using assms by (cases "(h, t)" rule: wf_tree.cases) auto

lemma rep_bnode: "rep m t b \<Longrightarrow> bnode b (atype t) (entries t)"
  by (cases t) auto

lemma rep_kid:
  assumes "rep m (ANode xs) b" "x \<in> set xs"
  obtains b' where "m (fst x) = Some b'" "rep m (snd (snd x)) b'"
  using assms by (auto split: option.splits)

text \<open>A representation depends on the pages of the tree only.\<close>

lemma rep_cong:
  "(\<And>p. p \<in> set (ptrs t) \<Longrightarrow> m p = m' p) \<Longrightarrow> rep m t b \<longleftrightarrow> rep m' t b"
proof (induction t arbitrary: b)
  case (ALeaf kvs)
  then show ?case by simp
next
  case (ANode xs)
  have "(case m (fst x) of None \<Rightarrow> False | Some b' \<Rightarrow> rep m (snd (snd x)) b') =
        (case m' (fst x) of None \<Rightarrow> False | Some b' \<Rightarrow> rep m' (snd (snd x)) b')"
    if "x \<in> set xs" for x
  proof -
    obtain p k t where x: "x = (p, k, t)" by (cases x)
    have "m p = m' p" using ANode.prems that x by force
    moreover have "rep m t b' = rep m' t b'" for b'
      by (rule ANode.IH [OF that]) (use ANode.prems that x in force)+
    ultimately show ?thesis using x by (simp split: option.splits)
  qed
  then show ?case by (simp cong: ball_cong)
qed

lemma rep_ptrs_dom: "rep m t b \<Longrightarrow> set (ptrs t) \<subseteq> dom m"
proof (induction t arbitrary: b)
  case (ALeaf kvs)
  then show ?case by simp
next
  case (ANode xs)
  show ?case
  proof
    fix p assume "p \<in> set (ptrs (ANode xs))"
    then obtain x where x: "x \<in> set xs" "p = fst x \<or> p \<in> set (ptrs (snd (snd x)))" by auto
    obtain q k t where q: "x = (q, k, t)" by (cases x)
    obtain b' where b': "m q = Some b'" "rep m t b'"
      using rep_kid [OF ANode.prems x(1)] q by auto
    have "set (ptrs t) \<subseteq> dom m" using ANode.IH [OF x(1), of "(k, t)" t b'] b'(2) q by auto
    then show "p \<in> dom m" using x(2) b'(1) q by auto
  qed
qed

text \<open>The separators of a node with sorted content are sorted, and each child's keys
  lie between its separator and the next one.\<close>

abbreviation kid_contents :: "(u64 \<times> bytes \<times> atree) list \<Rightarrow> (bytes \<times> bytes) list" where
  "kid_contents xs \<equiv> concat (map (\<lambda>x. contents (snd (snd x))) xs)"

abbreviation kid_ptrs :: "(u64 \<times> bytes \<times> atree) list \<Rightarrow> u64 list" where
  "kid_ptrs xs \<equiv> concat (map (\<lambda>x. fst x # ptrs (snd (snd x))) xs)"

lemma sep_least:
  assumes "wf_tree h t" "k = fst (hd (contents t))" "keys_sorted (contents t)" "y \<in> set (contents t)"
  shows "k \<le> fst y"
  using wf_contents [OF assms(1)] assms(2-4) by (cases "contents t") auto

lemma node_seps_sorted:
  assumes "\<forall>x \<in> set xs. wf_tree h (snd (snd x)) \<and> fst (snd x) = fst (hd (contents (snd (snd x))))"
    and "keys_sorted (kid_contents xs)"
  shows "sorted_wrt (<) (ekeys (entries (ANode xs)))"
  using assms
proof (induction xs)
  case Nil
  then show ?case by simp
next
  case (Cons x xs)
  have "fst (snd x) < fst (snd y)" if "y \<in> set xs" for y
  proof -
    have "hd (contents (snd (snd x))) \<in> set (contents (snd (snd x)))"
      "hd (contents (snd (snd y))) \<in> set (contents (snd (snd y)))"
      using Cons.prems(1) that wf_contents by force+
    then have "fst (hd (contents (snd (snd x)))) < fst (hd (contents (snd (snd y))))"
      using Cons.prems(2) that by simp
    then show ?thesis using Cons.prems(1) that by simp
  qed
  then show ?case using Cons by (simp add: comp_def)
qed

text \<open>The child \<open>nodeLookupLE\<close> selects is the one whose range holds the key.\<close>

lemma choose_kid:
  assumes kids: "\<forall>x \<in> set xs. wf_tree h (snd (snd x)) \<and> fst (snd x) = fst (hd (contents (snd (snd x))))"
    and sorted: "keys_sorted (kid_contents xs)" and ne: "xs \<noteq> []"
    and i: "i = le_index (ekeys (entries (ANode xs))) k"
  shows "i < length xs"
    and "\<forall>y \<in> set (kid_contents (take i xs)). fst y < k"
    and "\<forall>y \<in> set (kid_contents (drop (Suc i) xs)). k < fst y"
proof -
  let ?ks = "ekeys (entries (ANode xs))"
  let ?c = "count_le ?ks k"
  note ss = node_seps_sorted [OF kids sorted]
  show lt: "i < length xs" using le_index_less [of ?ks k] ne i by simp
  have ic: "i = ?c - 1" using i by (simp add: le_index_def)
  have dec: "xs = take i xs @ xs ! i # drop (Suc i) xs" using lt by (rule id_take_nth_drop)
  have sd: "keys_sorted (kid_contents (take i xs) @ contents (snd (snd (xs ! i))) @
      kid_contents (drop (Suc i) xs))"
    using sorted by (subst (asm) dec) simp
  have kid: "wf_tree h (snd (snd (xs ! j)))" "fst (snd (xs ! j)) = fst (hd (contents (snd (snd (xs ! j)))))"
    if "j < length xs" for j
    using kids nth_mem [OF that] by auto
  show "\<forall>y \<in> set (kid_contents (take i xs)). fst y < k"
  proof (cases "i = 0")
    case False
    have "?ks ! i \<le> k" using False ic by (intro count_le_below) simp
    then have sep: "fst (hd (contents (snd (snd (xs ! i))))) \<le> k" using lt kid(2) [OF lt] by simp
    have "hd (contents (snd (snd (xs ! i)))) \<in> set (contents (snd (snd (xs ! i))))"
      using wf_contents [OF kid(1) [OF lt]] by simp
    then have "\<forall>y \<in> set (kid_contents (take i xs)). fst y < fst (hd (contents (snd (snd (xs ! i)))))"
      using sd by (simp del: set_concat)
    then show ?thesis using sep by (meson less_le_trans)
  qed simp
  show "\<forall>y \<in> set (kid_contents (drop (Suc i) xs)). k < fst y"
  proof
    fix y assume "y \<in> set (kid_contents (drop (Suc i) xs))"
    then obtain x where x: "x \<in> set (drop (Suc i) xs)" "y \<in> set (contents (snd (snd x)))" by auto
    then obtain j where j: "j < length xs - Suc i" "x = xs ! (Suc i + j)"
      by (auto simp: in_set_conv_nth)
    then have jl: "Suc i + j < length xs" by simp
    have xin: "x \<in> set xs" using x(1) by (rule in_set_dropD)
    have "keys_sorted (contents (snd (snd x)))"
      using sorted split_list [OF xin] by auto
    then have "fst (snd x) \<le> fst y"
      using sep_least [OF kid(1) [OF jl] kid(2) [OF jl]] x(2) j(2) by simp
    moreover have "k < ?ks ! (Suc i + j)"
      using count_le_above [OF ss, of k "Suc i + j"] jl ic by simp
    ultimately show "k < fst y" using jl j(2) by simp
  qed
qed

text \<open>Sizes of the entries of a node with usual content.\<close>

lemma entries_mid:
  assumes "wf_tree h t" "\<forall>x \<in> set (contents t). usual x"
  shows "\<forall>e \<in> set (entries t). mid_entry e"
  using assms(1)
proof (cases rule: wf_cases)
  case (leaf kvs)
  then show ?thesis using assms(2) by (auto simp: mid_entry_def usual_def)
next
  case (node h' xs)
  have "mid_entry (fst x, fst (snd x), [])" if "x \<in> set xs" for x
  proof -
    have "hd (contents (snd (snd x))) \<in> set (contents t)"
      using node that wf_contents by force
    then have "usual (hd (contents (snd (snd x))))" using assms(2) by blast
    then show ?thesis using node(4) that by (auto simp: mid_entry_def usual_def)
  qed
  then show ?thesis using node by auto
qed

lemma first_key:
  assumes "wf_tree h t"
  shows "entries t \<noteq> [] \<and> fst (snd (hd (entries t))) = fst (hd (contents t))"
  using assms
proof (cases rule: wf_cases)
  case (leaf kvs)
  then show ?thesis by (simp add: hd_map)
next
  case (node h' xs)
  then obtain x ys where "xs = x # ys" by (cases xs) auto
  then show ?thesis using node wf_contents [of h' "snd (snd x)"] by simp
qed

text \<open>A node that outgrew its page becomes two trees; together they have its content.\<close>

fun tcut :: "nat \<Rightarrow> atree \<Rightarrow> atree \<times> atree" where
  "tcut s (ALeaf kvs) = (ALeaf (take s kvs), ALeaf (drop s kvs))"
| "tcut s (ANode xs) = (ANode (take s xs), ANode (drop s xs))"

lemma concat_take_drop: "concat (map f (take s xs)) @ concat (map f (drop s xs)) = concat (map f xs)"
  by (metis append_take_drop_id concat_append map_append)

lemma tcut_entries:
  assumes "tcut s t = (l, r)"
  shows "entries l = take s (entries t) \<and> entries r = drop s (entries t)"
  by (cases t) (use assms in \<open>auto simp: take_map drop_map\<close>)

lemma tcut_contents:
  assumes "tcut s t = (l, r)"
  shows "contents l @ contents r = contents t \<and> ptrs l @ ptrs r = ptrs t"
proof (cases t)
  case (ALeaf kvs)
  then show ?thesis using assms by auto
next
  case (ANode xs)
  then have "l = ANode (take s xs)" "r = ANode (drop s xs)" using assms by simp_all
  then show ?thesis using ANode by (simp only: contents.simps ptrs.simps concat_take_drop)
qed

lemma tcut_fits:
  assumes "tcut s t = (l, r)" "fits t"
  shows "fits l \<and> fits r"
proof (cases t)
  case (ALeaf kvs)
  then show ?thesis using assms by auto
next
  case (ANode xs)
  then have "l = ANode (take s xs)" "r = ANode (drop s xs)" using assms by simp_all
  then show ?thesis using ANode assms(2) by (auto dest: in_set_takeD in_set_dropD)
qed

lemma tcut_wf:
  assumes "tcut s t = (l, r)" "wf_tree h t" "0 < s" "s < length (entries t)"
  shows "wf_tree h l \<and> wf_tree h r"
  using assms(2)
proof (cases rule: wf_cases)
  case (leaf kvs)
  then show ?thesis using assms by auto
next
  case (node h' xs)
  then have "l = ANode (take s xs)" "r = ANode (drop s xs)" using assms by simp_all
  then show ?thesis using node assms(3,4) by (auto dest: in_set_takeD in_set_dropD)
qed

lemma tcut_rep:
  assumes "tcut s t = (l, r)" "rep m t b"
    "bnode lb (atype t) (take s (entries t))" "bnode rb (atype t) (drop s (entries t))"
  shows "rep m l lb \<and> rep m r rb"
proof (cases t)
  case (ALeaf kvs)
  then show ?thesis using assms by (auto simp: take_map drop_map)
next
  case (ANode xs)
  then have "l = ANode (take s xs)" "r = ANode (drop s xs)" using assms by simp_all
  then show ?thesis
    using ANode assms(2-4) by (simp add: take_map drop_map) (meson in_set_takeD in_set_dropD)
qed

definition part :: "(u64 \<Rightarrow> bytes option) \<Rightarrow> nat \<Rightarrow> bytes \<Rightarrow> atree \<Rightarrow> bool" where
  "part m h b t \<longleftrightarrow> rep m t b \<and> wf_tree h t \<and> fits t \<and> tsize t \<le> BTREE_PAGE_SIZE"

lemma nodeSplit3_parts:
  assumes rep: "rep m t b" and wf: "wf_tree h t" and fits: "fits t"
    and usual: "\<forall>x \<in> set (contents t). usual x" and size: "tsize t \<le> 5036"
  shows "\<exists>bs ts. nodeSplit3 b = Some bs \<and> list_all2 (part m h) bs ts \<and>
    0 < length ts \<and> length ts \<le> 2 \<and>
    concat (map contents ts) = contents t \<and> concat (map ptrs ts) = ptrs t"
proof (cases "tsize t \<le> BTREE_PAGE_SIZE")
  case True
  then have "nodeSplit3 b = Some [b]"
    using nodeSplit3_one [OF rep_bnode [OF rep]] by (simp add: tsize_def)
  then show ?thesis
    using rep wf fits True by (intro exI [of _ "[b]"] exI [of _ "[t]"]) (simp add: part_def)
next
  case False
  let ?s = "split_idx (entries t)"
  have big: "BTREE_PAGE_SIZE < node_size (entries t)" "node_size (entries t) \<le> 5036"
    using False size by (simp_all add: tsize_def)
  note mid = entries_mid [OF wf usual]
  note sp = split_idx_fits [OF mid big(1) [unfolded BTREE_PAGE_SIZE_def] big(2)]
  obtain lb rb where lr: "nodeSplit3 b = Some [lb, rb]" "bnode lb (atype t) (take ?s (entries t))"
    "bnode rb (atype t) (drop ?s (entries t))"
    using nodeSplit3_two [OF rep_bnode [OF rep] mid big] by blast
  obtain l r where cut: "tcut ?s t = (l, r)" by (cases "tcut ?s t")
  have "part m h lb l" "part m h rb r"
    using tcut_rep [OF cut rep lr(2,3)] tcut_wf [OF cut wf sp(1,2)] tcut_fits [OF cut fits]
      tcut_entries [OF cut] sp(3,4)
    by (simp_all add: part_def tsize_def BTREE_PAGE_SIZE_def)
  then show ?thesis
    using lr(1) tcut_contents [OF cut] by (intro exI [of _ "[lb, rb]"] exI [of _ "[l, r]"]) simp
qed

end
