(* ===== verification/Tree_Ops.thy ===== *)
theory Tree_Ops
  imports Tree_Spec
begin

text \<open>
  Correctness of \<open>Get\<close> and \<open>Insert\<close> over any page store. The interface the tree
  relies on is the locale \<open>page_store\<close>: reading a live page, allocating a fresh
  pointer for a page, releasing a live page. \<open>view\<close> is the abstraction of the store
  (its live pages), \<open>cap\<close> a number of allocations that are sure to succeed.
\<close>

locale page_store =
  fixes P :: "'s pager"
    and view :: "'s \<Rightarrow> u64 \<Rightarrow> bytes option"
    and ok :: "'s \<Rightarrow> bool"
    and cap :: "'s \<Rightarrow> nat"
  assumes get_page: "ok s \<Longrightarrow> view s p = Some b \<Longrightarrow> GetPage P s p = Some b"
    and new_page: "ok s \<Longrightarrow> 0 < cap s \<Longrightarrow> bnode b t es \<Longrightarrow> node_size es \<le> BTREE_PAGE_SIZE \<Longrightarrow>
      \<exists>p s'. NewPage P s b = Some (p, s') \<and> ok s' \<and> p \<noteq> 0 \<and> view s p = None \<and>
        view s' = (view s)(p \<mapsto> b) \<and> cap s \<le> Suc (cap s')"
    and del_page: "ok s \<Longrightarrow> view s p = Some b \<Longrightarrow>
      \<exists>s'. DelPage P s p = Some s' \<and> ok s' \<and> view s' = (view s)(p := None) \<and> cap s \<le> cap s'"

section \<open>Changes to the set of pages\<close>

text \<open>
  \<open>replaces m m' D D'\<close>: pages \<open>D\<close> are given up for pages \<open>D'\<close>; nothing else of the
  store changes and nothing of \<open>D\<close> is leaked.
\<close>

definition replaces :: "(u64 \<Rightarrow> bytes option) \<Rightarrow> (u64 \<Rightarrow> bytes option) \<Rightarrow> u64 set \<Rightarrow> u64 set \<Rightarrow> bool" where
  "replaces m m' D D' \<longleftrightarrow>
     (\<forall>q. q \<notin> D \<longrightarrow> q \<notin> D' \<longrightarrow> m' q = m q) \<and> (\<forall>q. q \<in> D' \<longrightarrow> q \<in> D \<or> m q = None) \<and>
     (\<forall>q. q \<in> D \<longrightarrow> q \<in> D' \<or> m' q = None)"

lemma replacesD:
  assumes "replaces m m' D D'"
  shows "q \<notin> D \<Longrightarrow> q \<notin> D' \<Longrightarrow> m' q = m q"
    and "q \<in> D' \<Longrightarrow> q \<in> D \<or> m q = None"
    and "q \<in> D \<Longrightarrow> q \<in> D' \<or> m' q = None"
  using assms by (auto simp: replaces_def)

text \<open>\<open>fresh m m' ps bs\<close>: the pages \<open>bs\<close> were added at the new pointers \<open>ps\<close>.\<close>

definition fresh :: "(u64 \<Rightarrow> bytes option) \<Rightarrow> (u64 \<Rightarrow> bytes option) \<Rightarrow> u64 list \<Rightarrow> bytes list \<Rightarrow> bool" where
  "fresh m m' ps bs \<longleftrightarrow>
     list_all2 (\<lambda>p b. m' p = Some b) ps bs \<and> (\<forall>q. q \<notin> set ps \<longrightarrow> m' q = m q) \<and>
     distinct ps \<and> (\<forall>p \<in> set ps. p \<noteq> 0 \<and> m p = None)"

lemma replaces_del:
  assumes "replaces (m(p := None)) m' A A'" "p \<notin> A"
  shows "replaces m m' (insert p A) A'"
  unfolding replaces_def
proof (intro conjI allI impI)
  fix q
  show "q \<notin> insert p A \<Longrightarrow> q \<notin> A' \<Longrightarrow> m' q = m q"
    using replacesD(1) [OF assms(1), of q] by simp
  show "q \<in> A' \<Longrightarrow> q \<in> insert p A \<or> m q = None"
    using replacesD(2) [OF assms(1), of q] by auto
  show "q \<in> insert p A \<Longrightarrow> q \<in> A' \<or> m' q = None"
    using replacesD(3) [OF assms(1), of q] replacesD(1) [OF assms(1), of p] assms(2)
    by (cases "p \<in> A'") auto
qed

lemma replaces_fresh:
  assumes "replaces m m' D A'" "fresh m' m'' ps bs"
  shows "replaces m m'' D (A' \<union> set ps)"
  unfolding replaces_def
proof (intro conjI allI impI)
  fix q
  have f: "q \<notin> set ps \<Longrightarrow> m'' q = m' q" "q \<in> set ps \<Longrightarrow> m' q = None"
    using assms(2) by (simp_all add: fresh_def)
  show "q \<notin> D \<Longrightarrow> q \<notin> A' \<union> set ps \<Longrightarrow> m'' q = m q"
    using replacesD(1) [OF assms(1), of q] f by simp
  show "q \<in> A' \<union> set ps \<Longrightarrow> q \<in> D \<or> m q = None"
    using replacesD(1,2) [OF assms(1), of q] f by (cases "q \<in> A'"; cases "q \<in> D") auto
  show "q \<in> D \<Longrightarrow> q \<in> A' \<union> set ps \<or> m'' q = None"
    using replacesD(3) [OF assms(1), of q] f by (cases "q \<in> set ps") auto
qed

lemma replaces_frame:
  assumes "replaces m m' D D'"
  shows "replaces m m' (X \<union> D) (X \<union> D')"
  using replacesD [OF assms] unfolding replaces_def by auto

lemma replaces_disjoint:
  assumes "replaces m m' D D'" "X \<subseteq> dom m" "X \<inter> D = {}"
  shows "X \<inter> D' = {}" "\<And>q. q \<in> X \<Longrightarrow> m' q = m q"
proof -
  show dis: "X \<inter> D' = {}" using replacesD(2) [OF assms(1)] assms(2,3) by blast
  fix q assume "q \<in> X"
  then show "m' q = m q" using replacesD(1) [OF assms(1), of q] dis assms(3) by blast
qed

lemma fresh_Nil [simp]: "fresh m m [] []"
  by (simp add: fresh_def)

lemma fresh_Cons:
  assumes "fresh (m(p \<mapsto> b)) m' ps bs" "m p = None" "p \<noteq> 0"
  shows "fresh m m' (p # ps) (b # bs)"
proof -
  have "p \<notin> set ps" using assms(1) by (auto simp: fresh_def)
  moreover from this have "m' p = Some b" using assms(1) by (auto simp: fresh_def)
  ultimately show ?thesis using assms by (auto simp: fresh_def split: if_splits)
qed

section \<open>Trees whose root node has new children\<close>

definition kid_list :: "u64 list \<Rightarrow> atree list \<Rightarrow> (u64 \<times> bytes \<times> atree) list" where
  "kid_list ps ts = map2 (\<lambda>p t. (p, fst (hd (contents t)), t)) ps ts"

definition sepsize :: "atree list \<Rightarrow> nat" where
  "sepsize ts = sum_list (map (\<lambda>t. 4 + length (fst (hd (contents t)))) ts)"

lemma kid_list_simps [simp]:
  "kid_list [] [] = []"
  "kid_list (p # ps) (t # ts) = (p, fst (hd (contents t)), t) # kid_list ps ts"
  by (simp_all add: kid_list_def)

lemma kid_list_props:
  assumes "length ps = length ts"
  shows "length (kid_list ps ts) = length ts"
    "kvoff (entries (ANode (kid_list ps ts))) = sepsize ts"
    "kid_contents (kid_list ps ts) = concat (map contents ts)"
    "set (kid_ptrs (kid_list ps ts)) = set ps \<union> set (concat (map ptrs ts))"
  using assms by (induction ps ts rule: list_induct2) (auto simp: sepsize_def)

lemma kid_list_distinct:
  assumes "length ps = length ts" "distinct ps" "distinct (concat (map ptrs ts))"
    "set ps \<inter> set (concat (map ptrs ts)) = {}"
  shows "distinct (kid_ptrs (kid_list ps ts))"
  using assms
proof (induction ps ts rule: list_induct2)
  case Nil
  then show ?case by simp
next
  case (Cons p ps t ts)
  then have "set (kid_ptrs (kid_list ps ts)) = set ps \<union> set (concat (map ptrs ts))"
    by (intro kid_list_props)
  moreover have "distinct (kid_ptrs (kid_list ps ts))" using Cons by auto
  ultimately show ?case using Cons.prems by auto
qed

lemma kid_list_wf:
  assumes "list_all2 (part m h) bs ts" "length ps = length ts"
  shows "\<forall>x \<in> set (kid_list ps ts). wf_tree h (snd (snd x)) \<and> fst (snd x) = fst (hd (contents (snd (snd x)))) \<and>
    tsize (snd (snd x)) \<le> BTREE_PAGE_SIZE \<and> fits (snd (snd x))"
  using assms(2,1)
  by (induction ps ts arbitrary: bs rule: list_induct2) (auto simp: list_all2_Cons2 part_def)

lemma kid_list_rep:
  assumes "list_all2 (part m h) bs ts" "length ps = length ts" "list_all2 (\<lambda>p b. m' p = Some b) ps bs"
    and "\<And>q. q \<in> set (concat (map ptrs ts)) \<Longrightarrow> m' q = m q"
  shows "\<forall>x \<in> set (kid_list ps ts). case m' (fst x) of None \<Rightarrow> False | Some b' \<Rightarrow> rep m' (snd (snd x)) b'"
  using assms(2,1,3,4)
proof (induction ps ts arbitrary: bs rule: list_induct2)
  case Nil
  then show ?case by simp
next
  case (Cons p ps t ts)
  then obtain b bs' where bs: "bs = b # bs'" "part m h b t" "list_all2 (part m h) bs' ts"
    "m' p = Some b" "list_all2 (\<lambda>p b. m' p = Some b) ps bs'"
    by (auto simp: list_all2_Cons2)
  have "rep m' t b" using bs(2) rep_cong [of t m' m b] Cons.prems(3) by (simp add: part_def)
  then show ?case using Cons.IH [OF bs(3,5)] Cons.prems(3) bs(4) by simp
qed

section \<open>Lookup\<close>

lemma leaf_lookup:
  assumes sorted: "keys_sorted kvs" and ne: "kvs \<noteq> []"
  shows "map_of kvs k = (if k = fst (kvs ! kidx kvs k) then Some (snd (kvs ! kidx kvs k)) else None)"
proof -
  let ?ks = "map fst kvs"
  have i: "kidx kvs k < length kvs" using le_index_less [of ?ks k] ne by simp
  have sk: "sorted_wrt (<) ?ks" using sorted by (simp add: keys_sorted_def)
  have dist: "distinct ?ks" using sk by (simp add: strict_sorted_iff)
  show ?thesis
  proof (cases "k = fst (kvs ! kidx kvs k)")
    case True
    then have "(k, snd (kvs ! kidx kvs k)) \<in> set kvs" using i by (metis nth_mem prod.collapse)
    then show ?thesis using True dist by (simp add: map_of_is_SomeI)
  next
    case False
    have "k \<noteq> ?ks ! j" if j: "j < length ?ks" for j
    proof
      assume kj: "k = ?ks ! j"
      then have jc: "j < count_le ?ks k"
        using count_le_above [OF sk, of k j] j by (metis less_irrefl not_le)
      then have "kidx kvs k < count_le ?ks k" "j \<le> kidx kvs k" by (auto simp: le_index_def)
      moreover have "j \<noteq> kidx kvs k" using False kj j by auto
      ultimately have "?ks ! j < ?ks ! kidx kvs k" "?ks ! kidx kvs k \<le> k"
        using sorted_wrt_nth_less [OF sk, of j "kidx kvs k"] i
          count_le_below [of "kidx kvs k" ?ks k] by simp_all
      then show False using kj by simp
    qed
    then have "k \<notin> set ?ks" by (metis in_set_conv_nth)
    then show ?thesis using False by (simp add: map_of_eq_None_iff)
  qed
qed

lemma map_of_segment:
  fixes k :: bytes
  assumes "\<forall>x \<in> set xs. fst x < k" "\<forall>x \<in> set zs. k < fst x"
  shows "map_of (xs @ ys @ zs) k = map_of ys k"
proof -
  have "map_of xs k = None"
  proof (rule ccontr)
    assume "map_of xs k \<noteq> None"
    then obtain v where "(k, v) \<in> set xs" by (auto dest: map_of_SomeD)
    from bspec [OF assms(1) this] show False by simp
  qed
  moreover have "map_of zs k = None"
  proof (rule ccontr)
    assume "map_of zs k \<noteq> None"
    then obtain v where "(k, v) \<in> set zs" by (auto dest: map_of_SomeD)
    from bspec [OF assms(2) this] show False by simp
  qed
  ultimately show ?thesis by (simp add: map_add_def split: option.splits)
qed

lemma kid_contents_split:
  assumes "i < length xs"
  shows "kid_contents xs = kid_contents (take i xs) @ contents (snd (snd (xs ! i))) @
    kid_contents (drop (Suc i) xs)"
  by (subst id_take_nth_drop [OF assms]) simp

lemma bnode_lookup:
  assumes "rep m t b" "sorted_wrt (<) (ekeys (entries t))"
  shows "nodeLookupLE b k = Some (of_nat (le_index (ekeys (entries t)) k))" "btype b = Some (atype t)"
  using nodeLookupLE_filled [OF rep_bnode [OF assms(1)] assms(2)] bnode_access(1) [OF rep_bnode [OF assms(1)]]
  by simp_all

lemma BNODE_types [simp]: "BNODE_LEAF \<noteq> BNODE_INTERNAL" "BNODE_INTERNAL \<noteq> BNODE_LEAF"
  by (simp_all add: BNODE_LEAF_def BNODE_INTERNAL_def)

text \<open>One step down: the kid in whose range a key lies, and how the code reaches it.\<close>

lemma rep_descend:
  assumes "rep m t b" "wf_tree (Suc h) t" "keys_sorted (contents t)"
  obtains xs i p sep kt kb where "t = ANode xs" "i < length xs" "xs ! i = (p, sep, kt)"
    "nodeLookupLE b k = Some (of_nat i)" "btype b = Some BNODE_INTERNAL" "getPtr b (of_nat i) = Some p"
    "m p = Some kb" "rep m kt kb" "wf_tree h kt"
    "\<forall>y \<in> set (kid_contents (take i xs)). fst y < k" "\<forall>y \<in> set (kid_contents (drop (Suc i) xs)). k < fst y"
    "kid_contents xs = kid_contents (take i xs) @ contents kt @ kid_contents (drop (Suc i) xs)"
proof -
  obtain xs where t: "t = ANode xs" "xs \<noteq> []"
    "\<forall>x \<in> set xs. wf_tree h (snd (snd x)) \<and> fst (snd x) = fst (hd (contents (snd (snd x))))"
    using assms(2) by (auto elim: wf_cases)
  define i where "i = le_index (ekeys (entries (ANode xs))) k"
  have sorted: "keys_sorted (kid_contents xs)" using assms(3) t by simp
  note ck = choose_kid [OF t(3) sorted t(2) i_def]
  have "sorted_wrt (<) (ekeys (entries t))" using node_seps_sorted [OF t(3) sorted] t(1) by simp
  note look = bnode_lookup(1) [OF assms(1) this, of k, unfolded t(1), folded i_def] bnode_lookup(2) [OF assms(1) this, unfolded t(1)]
  obtain p sep kt where x: "xs ! i = (p, sep, kt)" by (cases "xs ! i")
  have xi: "(p, sep, kt) \<in> set xs" using nth_mem [OF ck(1)] x by simp
  obtain kb where kb: "m p = Some kb" "rep m kt kb" using rep_kid [OF assms(1) [unfolded t(1)] xi] by auto
  have ptr: "getPtr b (of_nat i) = Some p"
    using bnode_access(4) [OF rep_bnode [OF assms(1)], of i] ck(1) t(1) x by simp
  have ty: "btype b = Some BNODE_INTERNAL" using look(2) by simp
  have wf: "wf_tree h kt" using t(3) xi by auto
  have "kid_contents xs = kid_contents (take i xs) @ contents kt @ kid_contents (drop (Suc i) xs)"
    using kid_contents_split [OF ck(1)] x by simp
  then show thesis by (rule that [OF t(1) ck(1) x look(1) ty ptr kb wf ck(2,3)])
qed

section \<open>Rebuilding a node around new children\<close>

definition good :: "(u64 \<Rightarrow> bytes option) \<Rightarrow> nat \<Rightarrow> atree \<Rightarrow> bytes \<Rightarrow> bool" where
  "good m h t b \<longleftrightarrow> rep m t b \<and> wf_tree h t \<and> fits t \<and> keys_sorted (contents t) \<and>
     (\<forall>x \<in> set (contents t). usual x) \<and> distinct (ptrs t)"

lemma goodD:
  assumes "good m h t b"
  shows "rep m t b" "wf_tree h t" "fits t" "keys_sorted (contents t)"
    "\<forall>x \<in> set (contents t). usual x" "distinct (ptrs t)"
  using assms by (simp_all add: good_def)

lemma good_cong:
  assumes "good m h t b" "\<And>q. q \<in> set (ptrs t) \<Longrightarrow> m' q = m q"
  shows "good m' h t b"
  using assms rep_cong [of t m m' b] by (simp add: good_def)

lemma good_kid:
  assumes "good m (Suc h) (ANode xs) b" "i < length xs"
  obtains kb where "m (fst (xs ! i)) = Some kb" "good m h (snd (snd (xs ! i))) kb"
    "tsize (snd (snd (xs ! i))) \<le> BTREE_PAGE_SIZE"
proof -
  note g = goodD [OF assms(1)]
  have x: "xs ! i \<in> set xs" using assms(2) by simp
  obtain kb where kb: "m (fst (xs ! i)) = Some kb" "rep m (snd (snd (xs ! i))) kb"
    using rep_kid [OF g(1) x] by blast
  have "keys_sorted (contents (snd (snd (xs ! i))))"
    using g(4) kid_contents_split [OF assms(2)] by simp
  moreover have "distinct (ptrs (snd (snd (xs ! i))))"
    using g(6) by (subst (asm) id_take_nth_drop [OF assms(2)]) simp
  ultimately have "good m h (snd (snd (xs ! i))) kb"
    using g(2,3,5) x kb(2) by (auto simp: good_def)
  then show ?thesis using that kb(1) g(3) x by auto
qed

lemma good_descend:
  assumes "good m (Suc h) t b"
  obtains xs i p sep kt kb where "t = ANode xs" "i < length xs" "xs ! i = (p, sep, kt)"
    "nodeLookupLE b k = Some (of_nat i)" "btype b = Some BNODE_INTERNAL" "getPtr b (of_nat i) = Some p"
    "m p = Some kb" "good m h kt kb" "tsize kt \<le> BTREE_PAGE_SIZE" "p \<notin> set (ptrs kt)"
    "\<forall>y \<in> set (kid_contents (take i xs)). fst y < k" "\<forall>y \<in> set (kid_contents (drop (Suc i) xs)). k < fst y"
proof -
  note g = goodD [OF assms]
  obtain xs i p sep kt kb where x: "t = ANode xs" "i < length xs" "xs ! i = (p, sep, kt)"
    "nodeLookupLE b k = Some (of_nat i)" "btype b = Some BNODE_INTERNAL" "getPtr b (of_nat i) = Some p"
    "m p = Some kb" "rep m kt kb" "wf_tree h kt"
    "\<forall>y \<in> set (kid_contents (take i xs)). fst y < k" "\<forall>y \<in> set (kid_contents (drop (Suc i) xs)). k < fst y"
    "kid_contents xs = kid_contents (take i xs) @ contents kt @ kid_contents (drop (Suc i) xs)"
    by (rule rep_descend [OF g(1,2,4)])
  have "p \<notin> set (ptrs kt)"
    using g(6) unfolding x(1) by (subst (asm) id_take_nth_drop [OF x(2)]) (simp add: x(3))
  moreover have "good m h kt kb" "tsize kt \<le> BTREE_PAGE_SIZE"
    using good_kid [OF assms [unfolded x(1)] x(2)] x(3,7) by auto
  ultimately show thesis by (intro that [OF x(1-7)] x(10,11))
qed

text \<open>
  The children \<open>mid\<close> of a node give way to the trees \<open>ts\<close>, which are stored at the
  fresh pointers \<open>ps\<close>; the pages below \<open>mid\<close> have been replaced by those below \<open>ts\<close>.
\<close>

lemma rebuild_node:
  assumes good: "good m (Suc h) (ANode (ls @ mid @ rs)) b"
    and parts: "list_all2 (part m2 h) bs ts" and len: "length ps = length ts" and ne: "ts \<noteq> []"
    and qs: "concat (map ptrs ts) = qs" "distinct qs" "set qs \<subseteq> dom m2"
    and rpl: "replaces m m2 (set (kid_ptrs mid)) (set qs)"
    and fresh: "fresh m2 m3 ps bs"
    and t': "t' = ANode (ls @ kid_list ps ts @ rs)"
    and new: "bnode new BNODE_INTERNAL (entries t')"
    and cont: "keys_sorted (contents t')" "\<forall>y \<in> set (contents t'). usual y"
  shows "good m3 (Suc h) t' new \<and> replaces m m3 (set (ptrs (ANode (ls @ mid @ rs)))) (set (ptrs t'))"
proof -
  note g = goodD [OF good]
  let ?X = "set (kid_ptrs ls) \<union> set (kid_ptrs rs)"
  have dis: "distinct (kid_ptrs ls)" "distinct (kid_ptrs rs)"
    "set (kid_ptrs ls) \<inter> set (kid_ptrs rs) = {}" "?X \<inter> set (kid_ptrs mid) = {}"
    using g(6) by (simp_all del: set_concat add: Int_Un_distrib Int_Un_distrib2 Int_commute)
  have dom: "?X \<subseteq> dom m" using rep_ptrs_dom [OF g(1)] by auto
  have R: "replaces m m3 (set (kid_ptrs mid)) (set qs \<union> set ps)"
    using replaces_fresh [OF rpl fresh] .
  note disj = replaces_disjoint [OF R dom dis(4)]
  have psn: "set ps \<inter> set qs = {}" using fresh qs(3) by (auto simp: fresh_def)
  have kp: "set (kid_ptrs (kid_list ps ts)) = set qs \<union> set ps"
    using kid_list_props(4) [OF len] qs(1) by auto
  have pt': "set (ptrs t') = ?X \<union> (set qs \<union> set ps)"
    using kp unfolding t' by (auto simp del: set_concat)
  have "distinct (kid_ptrs (kid_list ps ts))"
    using fresh len qs(1,2) psn by (intro kid_list_distinct) (auto simp: fresh_def)
  then have dist: "distinct (ptrs t')"
    using dis(1-3) disj(1) kp unfolding t' by (auto simp del: set_concat)
  have kids: "case m3 (fst y) of None \<Rightarrow> False | Some b' \<Rightarrow> rep m3 (snd (snd y)) b'"
    if y: "y \<in> set (ls @ kid_list ps ts @ rs)" for y
  proof (cases "y \<in> set (kid_list ps ts)")
    case True
    have "m3 q = m2 q" if "q \<in> set (concat (map ptrs ts))" for q
      using that qs(1) psn fresh by (auto simp: fresh_def)
    then show ?thesis
      using kid_list_rep [OF parts len] fresh True by (auto simp: fresh_def)
  next
    case False
    then have yx: "y \<in> set (ls @ mid @ rs)" "insert (fst y) (set (ptrs (snd (snd y)))) \<subseteq> ?X"
      using y by auto
    obtain b' where b': "m (fst y) = Some b'" "rep m (snd (snd y)) b'"
      using rep_kid [OF g(1) yx(1)] by blast
    have eq: "m3 q = m q" if "q \<in> insert (fst y) (set (ptrs (snd (snd y))))" for q
      using disj(2) yx(2) that by blast
    have "rep m3 (snd (snd y)) b'" using b'(2) rep_cong [of "snd (snd y)" m3 m b'] eq by simp
    then show ?thesis using eq b'(1) by simp
  qed
  have "kid_list ps ts \<noteq> []" using ne kid_list_props(1) [OF len] by auto
  then have "wf_tree (Suc h) t'" "fits t'"
    using g(2,3) kid_list_wf [OF parts len] unfolding t' by auto
  then have "good m3 (Suc h) t' new"
    using kids new dist cont unfolding t' by (simp add: good_def)
  moreover have "replaces m m3 (?X \<union> set (kid_ptrs mid)) (?X \<union> (set qs \<union> set ps))"
    by (rule replaces_frame [OF R])
  then have "replaces m m3 (set (ptrs (ANode (ls @ mid @ rs)))) (set (ptrs t'))"
    unfolding pt' by (simp add: Un_ac)
  ultimately show ?thesis ..
qed

section \<open>Sizes\<close>

lemma put_kv_size: "tsize (ALeaf (put_kv k v kvs)) \<le> tsize (ALeaf kvs) + 14 + length k + length v"
proof -
  let ?lo = "filter (\<lambda>x. fst x < k) kvs" and ?hi = "filter (\<lambda>x. k < fst x) kvs"
  have "10 * length ?lo + kvoff (entries (ALeaf ?lo)) + (10 * length ?hi + kvoff (entries (ALeaf ?hi)))
      \<le> 10 * length kvs + kvoff (entries (ALeaf kvs))"
    by (induction kvs) auto
  then show ?thesis by (simp add: tsize_def node_size_def put_kv_def)
qed

lemma sepsize_le:
  assumes "list_all2 (part m h) bs ts" "\<forall>x \<in> set (concat (map contents ts)). usual x"
  shows "sepsize ts \<le> 464 * length ts"
  using assms
proof (induction bs ts rule: list_all2_induct)
  case Nil
  then show ?case by (simp add: sepsize_def)
next
  case (Cons b bs t ts)
  have "contents t \<noteq> []" using Cons.hyps(1) wf_contents by (auto simp: part_def)
  then have "usual (hd (contents t))" using Cons.prems by simp
  moreover have "\<forall>x \<in> set (concat (map contents ts)). usual x" using Cons.prems by auto
  then have "sepsize ts \<le> 464 * length ts" by (rule Cons.IH)
  ultimately show ?case by (simp add: sepsize_def usual_def)
qed

lemma removed_size:
  assumes "i < length es"
  shows "node_size (take i es @ drop (Suc i) es) + 10 + kvsize (es ! i) = node_size es"
  using assms arg_cong [OF id_take_nth_drop [OF assms], of node_size] by (simp add: node_size_def)

lemma rebuilt_size:
  assumes "i < length xs" "length ps = length ts"
  shows "tsize (ANode (take i xs @ kid_list ps ts @ drop (Suc i) xs)) =
    node_size (take i (entries (ANode xs)) @ drop (Suc i) (entries (ANode xs))) + 10 * length ts + sepsize ts"
  using kid_list_props(1,2) [OF assms(2)] assms(1)
  by (simp add: tsize_def node_size_def take_map drop_map)

context page_store
begin

lemma Get_loop_correct:
  assumes "ok s"
  shows "wf_tree h t \<Longrightarrow> rep (view s) t b \<Longrightarrow> keys_sorted (contents t) \<Longrightarrow>
    Get_loop P s b k = Some (map_of (contents t) k)"
proof (induction h arbitrary: t b)
  case 0
  then obtain kvs where t: "t = ALeaf kvs" "kvs \<noteq> []" by (auto elim: wf_cases)
  have "sorted_wrt (<) (ekeys (entries t))" using 0 t by (simp add: keys_sorted_def comp_def)
  note look = bnode_lookup(1) [OF 0(2) this, of k] bnode_lookup(2) [OF 0(2) this]
  have i: "kidx kvs k < length (entries t)" using le_index_less [of "map fst kvs" k] t by simp
  note acc = bnode_access(5,6) [OF rep_bnode [OF 0(2)] i]
  have "getKey b (of_nat (kidx kvs k)) = Some (fst (kvs ! kidx kvs k))"
    "getVal b (of_nat (kidx kvs k)) = Some (snd (kvs ! kidx kvs k))"
    using acc i t by simp_all
  then show ?case
    using look 0 t leaf_lookup [of kvs k]
    by (subst Get_loop.simps) (simp add: comp_def)
next
  case (Suc h)
  obtain xs i p sep kt kb where x: "t = ANode xs" "i < length xs" "xs ! i = (p, sep, kt)"
    "nodeLookupLE b k = Some (of_nat i)" "btype b = Some BNODE_INTERNAL" "getPtr b (of_nat i) = Some p"
    "view s p = Some kb" "rep (view s) kt kb" "wf_tree h kt"
    "\<forall>y \<in> set (kid_contents (take i xs)). fst y < k" "\<forall>y \<in> set (kid_contents (drop (Suc i) xs)). k < fst y"
    "kid_contents xs = kid_contents (take i xs) @ contents kt @ kid_contents (drop (Suc i) xs)"
    by (rule rep_descend [OF Suc.prems(2,1,3)])
  have "Get_loop P s kb k = Some (map_of (contents kt) k)"
    using Suc.prems(3) x(1,12) by (intro Suc.IH x(8,9)) simp
  moreover have "map_of (contents t) k = map_of (contents kt) k"
    using map_of_segment [OF x(10,11)] x(1,12) by simp
  ultimately show ?case
    using x(4-6) get_page [OF assms x(7)] by (subst Get_loop.simps) simp
qed

lemma Get_correct:
  assumes "ok s" "Root \<noteq> 0" "view s Root = Some b" "rep (view s) t b" "wf_tree h t"
    "keys_sorted (contents t)"
  shows "Get P s Root k = Some (map_of (contents t) k)"
  using Get_loop_correct [OF assms(1,5,4,6)] get_page [OF assms(1,3)] assms(2) by (simp add: Get_def)

text \<open>Allocating the new children of a node.\<close>

lemma kid_getKey:
  assumes "part m h b t"
  shows "getKey b 0 = Some (fst (hd (contents t)))"
  using assms bnode_access(5) [OF rep_bnode, of m t b 0] first_key [of h t]
  by (auto simp: part_def hd_conv_nth)

lemma nodeReplaceKidN_loop_correct:
  assumes "list_all2 (part m h) bs ts" "filled new BNODE_INTERNAL n pre" "ok s" "length ts \<le> cap s"
    and "length pre + length ts \<le> n" "4 + 10 * n + kvoff pre + sepsize ts \<le> length new"
  shows "\<exists>new' s' ps. nodeReplaceKidN_loop P s new (of_nat (length pre)) bs = Some (new', s') \<and>
    length ps = length ts \<and> filled new' BNODE_INTERNAL n (pre @ entries (ANode (kid_list ps ts))) \<and>
    length new' = length new \<and> ok s' \<and> fresh (view s) (view s') ps bs \<and> cap s \<le> cap s' + length ts"
  using assms
proof (induction bs ts arbitrary: new pre s rule: list_all2_induct)
  case Nil
  then show ?case by auto
next
  case (Cons b bs t ts)
  let ?k = "fst (hd (contents t))"
  have b: "bnode b (atype t) (entries t)" "node_size (entries t) \<le> BTREE_PAGE_SIZE"
    using Cons.hyps(1) rep_bnode by (auto simp: part_def tsize_def)
  obtain p s1 where s1: "NewPage P s b = Some (p, s1)" "ok s1" "p \<noteq> 0" "view s p = None"
    "view s1 = (view s)(p \<mapsto> b)" "cap s \<le> Suc (cap s1)"
    using new_page [OF Cons.prems(2) _ b] Cons.prems(3) by auto
  obtain new1 where n1: "nodeAppendKV new (of_nat (length pre)) p ?k [] = Some new1"
    "filled new1 BNODE_INTERNAL n (pre @ [(p, ?k, [])])" "length new1 = length new"
    using nodeAppendKV_filled [OF Cons.prems(1), of p ?k "[]"] Cons.prems(4,5)
    by (auto simp: sepsize_def)
  obtain new' s' ps where IH:
    "nodeReplaceKidN_loop P s1 new1 (of_nat (length (pre @ [(p, ?k, [])]))) bs = Some (new', s')"
    "length ps = length ts"
    "filled new' BNODE_INTERNAL n ((pre @ [(p, ?k, [])]) @ entries (ANode (kid_list ps ts)))"
    "length new' = length new1" "ok s'" "fresh (view s1) (view s') ps bs" "cap s1 \<le> cap s' + length ts"
    using Cons.IH [OF n1(2) s1(2)] Cons.prems s1(6) n1(3) by (auto simp: sepsize_def)
  have "nodeReplaceKidN_loop P s new (of_nat (length pre)) (b # bs) = Some (new', s')"
    using s1(1) kid_getKey [OF Cons.hyps(1)] n1(1) IH(1) by (simp add: add.commute)
  moreover have "fresh (view s) (view s') (p # ps) (b # bs)"
    using fresh_Cons [of "view s" p b] IH(6) s1(3-5) by simp
  ultimately show ?case
    using IH s1(6) n1(3) by (intro exI [of _ new'] exI [of _ s'] exI [of _ "p # ps"]) simp
qed

lemma nodeReplaceKidN_correct:
  assumes old: "bnode old BNODE_INTERNAL (entries (ANode xs))" and i: "i < length xs"
    and parts: "list_all2 (part m h) bs ts" and s: "ok s" "length ts \<le> cap s" and ne: "ts \<noteq> []"
    and fit: "node_size (take i (entries (ANode xs)) @ drop (Suc i) (entries (ANode xs))) +
      10 * length ts + sepsize ts \<le> length new" "length new < 65536"
  shows "\<exists>new' s' ps. nodeReplaceKidN P s new old (of_nat i) bs = Some (new', s') \<and>
    length ps = length ts \<and>
    bnode new' BNODE_INTERNAL (entries (ANode (take i xs @ kid_list ps ts @ drop (Suc i) xs))) \<and>
    length new' = length new \<and> ok s' \<and> fresh (view s) (view s') ps bs \<and> cap s \<le> cap s' + length ts"
proof -
  let ?es = "entries (ANode xs)"
  let ?n = "length xs + length ts - 1"
  have len: "length bs = length ts" using parts by (rule list_all2_lengthD)
  have les: "length ?es = length xs" by simp
  have total: "4 + 10 * ?n + kvoff (take i ?es) + sepsize ts + kvoff (drop (Suc i) ?es) \<le> length new"
    using fit(1) i ne by (cases ts) (simp_all add: node_size_def)
  have w: "of_nat (length xs) + of_nat (length bs) - 1 = (of_nat ?n :: u16)"
    "of_nat (length xs) - of_nat (Suc i) = (of_nat (length xs - Suc i) :: u16)"
    "of_nat i + of_nat (length bs) = (of_nat (i + length ts) :: u16)"
    "of_nat i + 1 = (of_nat (Suc i) :: u16)"
    using len i ne by (simp_all add: of_nat_diff Suc_leI)
  have ni: "i \<le> ?n" "i + length ts \<le> ?n + 1" "i + length ts + (length xs - Suc i) \<le> ?n"
    using i ne by (cases ts; simp)+
  obtain b0 where b0: "setHeader new BNODE_INTERNAL (of_nat ?n) = Some b0"
    "filled b0 BNODE_INTERNAL ?n []" "length b0 = length new"
    using setHeader_filled [of ?n new BNODE_INTERNAL] total fit(2) by auto
  obtain b1 where b1: "nodeAppendRange b0 old 0 0 (of_nat i) = Some b1"
    "filled b1 BNODE_INTERNAL ?n (take i ?es)" "length b1 = length new"
    using nodeAppendRange_filled [OF b0(2) old [unfolded bnode_def], of 0 i] b0(3) total i les ni by auto
  have ltake: "length (take i ?es) = i" using i by simp
  obtain b2 s' ps where b2: "nodeReplaceKidN_loop P s b1 (of_nat i) bs = Some (b2, s')"
    "length ps = length ts" "filled b2 BNODE_INTERNAL ?n (take i ?es @ entries (ANode (kid_list ps ts)))"
    "length b2 = length new" "ok s'" "fresh (view s) (view s') ps bs" "cap s \<le> cap s' + length ts"
    using nodeReplaceKidN_loop_correct [OF parts b1(2) s] total b1(3) ni ltake by auto
  let ?pre = "take i ?es @ entries (ANode (kid_list ps ts))"
  have lpre: "length ?pre = i + length ts" using kid_list_props(1) [OF b2(2)] ltake by simp
  have off: "kvoff ?pre = kvoff (take i ?es) + sepsize ts"
    using kid_list_props(2) [OF b2(2)] by simp
  have td: "take (length xs - Suc i) (drop (Suc i) ?es) = drop (Suc i) ?es" by simp
  have "\<exists>b'. nodeAppendRange b2 old (of_nat (length ?pre)) (of_nat (Suc i)) (of_nat (length xs - Suc i)) = Some b' \<and>
      filled b' BNODE_INTERNAL ?n (?pre @ take (length xs - Suc i) (drop (Suc i) ?es)) \<and> length b' = length b2"
    by (rule nodeAppendRange_filled [OF b2(3) old [unfolded bnode_def]])
      (use total off b2(4) i lpre les ni in simp_all)
  then obtain b3 where b3: "nodeAppendRange b2 old (of_nat (i + length ts)) (of_nat (Suc i)) (of_nat (length xs - Suc i)) = Some b3"
    "filled b3 BNODE_INTERNAL ?n (?pre @ drop (Suc i) ?es)" "length b3 = length new"
    unfolding lpre b2(4) td by auto
  have "?pre @ drop (Suc i) ?es = entries (ANode (take i xs @ kid_list ps ts @ drop (Suc i) xs))"
    by (simp add: take_map drop_map)
  moreover have "length (entries (ANode (take i xs @ kid_list ps ts @ drop (Suc i) xs))) = ?n"
    using kid_list_props(1) [OF b2(2)] i by simp
  ultimately have "bnode b3 BNODE_INTERNAL (entries (ANode (take i xs @ kid_list ps ts @ drop (Suc i) xs)))"
    using b3(2) by (simp only: bnode_def)
  moreover have "nodeReplaceKidN P s new old (of_nat i) bs = Some (b3, s')"
    by (simp only: nodeReplaceKidN_def Let_def bnode_access(2) [OF old] les bind.bind_lunit
        prod.case w b0(1) b1(1) b2(1) b3(1))
  ultimately show ?thesis
    using b2(2,5-7) b3(3) by (intro exI [of _ b3] exI [of _ s'] exI [of _ ps] conjI)
qed

lemma treeInsert_leaf_case:
  assumes good: "good (view s) 0 t b" and size: "tsize t \<le> BTREE_PAGE_SIZE" and kv: "usual (k, v)"
  shows "\<exists>b' t'. treeInsert P s b k v = Some (b', s) \<and> good (view s) 0 t' b' \<and> tsize t' \<le> 5036 \<and>
    contents t' = put_kv k v (contents t) \<and> ptrs t' = [] \<and> ptrs t = []"
proof -
  note g = goodD [OF good]
  obtain kvs where t: "t = ALeaf kvs" "kvs \<noteq> []" using g(2) by (auto elim: wf_cases)
  let ?t' = "ALeaf (put_kv k v kvs)"
  have sz: "tsize ?t' \<le> 5036"
    using put_kv_size [of k v kvs] size kv t(1) by (simp add: usual_def BTREE_PAGE_SIZE_def)
  have srt: "sorted_wrt (<) (ekeys (entries t))" using g(4) t by (simp add: keys_sorted_def comp_def)
  note look = bnode_lookup(1) [OF g(1) srt, of k] bnode_lookup(2) [OF g(1) srt]
  obtain b' where b': "treeInsert_leaf (make_bytes (2 * BTREE_PAGE_SIZE)) b (of_nat (kidx kvs k)) k v = Some b'"
    "bnode b' BNODE_LEAF (entries ?t')"
    using treeInsert_leaf_bnode [of b kvs k v "make_bytes (2 * BTREE_PAGE_SIZE)"] g(1,4) t sz
    by (auto simp: tsize_def BTREE_PAGE_SIZE_def)
  have "treeInsert P s b k v = Some (b', s)"
    using look b'(1) t by (subst treeInsert.simps) (simp add: Let_def comp_def)
  moreover have "\<forall>x \<in> set (put_kv k v kvs). usual x"
    using set_put_kv [of k v kvs] g(5) kv t by auto
  then have "good (view s) 0 ?t' b'"
    using b'(2) keys_sorted_put_kv [of kvs k v] g(4) t by (simp add: good_def)
  ultimately show ?thesis using sz t by (intro exI [of _ b'] exI [of _ ?t']) simp
qed

text \<open>
  What follows the insertion into a kid: the page is split where it must be, and the new kids
  take the place of the old one.
\<close>

lemma insert_step:
  assumes good: "good m (Suc h) (ANode xs) b" and i: "i < length xs" "xs ! i = (p, sep, kt)"
    and size: "tsize (ANode xs) \<le> BTREE_PAGE_SIZE" and kv: "usual (k, v)" and s: "ok s" "2 \<le> cap s"
    and t1: "good (view s) h t1 b1" "tsize t1 \<le> 5036" "contents t1 = put_kv k v (contents kt)"
    and R: "replaces m (view s) (insert p (set (ptrs kt))) (set (ptrs t1))"
    and lo: "\<forall>y \<in> set (kid_contents (take i xs)). fst y < k"
    and hi: "\<forall>y \<in> set (kid_contents (drop (Suc i) xs)). k < fst y"
  shows "\<exists>bs new s' t'. nodeSplit3 b1 = Some bs \<and>
    nodeReplaceKidN P s (make_bytes (2 * BTREE_PAGE_SIZE)) b (of_nat i) bs = Some (new, s') \<and> ok s' \<and>
    good (view s') (Suc h) t' new \<and> tsize t' \<le> 5036 \<and> contents t' = put_kv k v (contents (ANode xs)) \<and>
    replaces m (view s') (set (ptrs (ANode xs))) (set (ptrs t')) \<and> cap s \<le> cap s' + 2"
proof -
  note g = goodD [OF good] and g1 = goodD [OF t1(1)]
  obtain bs ts where sp: "nodeSplit3 b1 = Some bs" "list_all2 (part (view s) h) bs ts" "ts \<noteq> []"
    "length ts \<le> 2" "concat (map contents ts) = contents t1" "concat (map ptrs ts) = ptrs t1"
    using nodeSplit3_parts [OF g1(1,2,3,5) t1(2)] by auto
  have "sepsize ts \<le> 464 * length ts" using sepsize_le [OF sp(2)] sp(5) g1(5) by simp
  then have fit: "node_size (take i (entries (ANode xs)) @ drop (Suc i) (entries (ANode xs))) +
      10 * length ts + sepsize ts \<le> 5036"
    using removed_size [of i "entries (ANode xs)"] i(1) size sp(4)
    by (simp add: BTREE_PAGE_SIZE_def tsize_def del: entries.simps) (simp del: kvsize.simps)
  have old: "bnode b BNODE_INTERNAL (entries (ANode xs))" using rep_bnode [OF g(1)] by simp
  obtain new s' ps where r: "nodeReplaceKidN P s (make_bytes (2 * BTREE_PAGE_SIZE)) b (of_nat i) bs = Some (new, s')"
    "length ps = length ts"
    "bnode new BNODE_INTERNAL (entries (ANode (take i xs @ kid_list ps ts @ drop (Suc i) xs)))"
    "ok s'" "fresh (view s) (view s') ps bs" "cap s \<le> cap s' + length ts"
    using nodeReplaceKidN_correct [OF old i(1) sp(2) s(1) _ sp(3), of "make_bytes (2 * BTREE_PAGE_SIZE)"]
      fit sp(4) s(2) by (auto simp: BTREE_PAGE_SIZE_def)
  let ?t' = "ANode (take i xs @ kid_list ps ts @ drop (Suc i) xs)"
  have cont: "contents ?t' = put_kv k v (contents (ANode xs))"
    using put_kv_append [OF lo hi] kid_contents_split [OF i(1)] kid_list_props(3) [OF r(2)]
      sp(5) t1(3) i(2) by simp
  have us: "\<forall>y \<in> set (contents ?t'). usual y"
    unfolding cont using set_put_kv [of k v "contents (ANode xs)"] g(5) kv by auto
  have xs: "take i xs @ [(p, sep, kt)] @ drop (Suc i) xs = xs" using id_take_nth_drop [OF i(1)] i(2) by simp
  have gx: "good m (Suc h) (ANode (take i xs @ [(p, sep, kt)] @ drop (Suc i) xs)) b" using good by (simp only: xs)
  have R': "replaces m (view s) (set (kid_ptrs [(p, sep, kt)])) (set (ptrs t1))" using R by simp
  have "keys_sorted (contents ?t')" unfolding cont by (rule keys_sorted_put_kv [OF g(4)])
  from rebuild_node [OF gx sp(2) r(2) sp(3) sp(6) g1(6) rep_ptrs_dom [OF g1(1)] R' r(5) refl r(3) this us]
  have "good (view s') (Suc h) ?t' new \<and> replaces m (view s') (set (ptrs (ANode xs))) (set (ptrs ?t'))"
    by (simp only: xs)
  moreover have "tsize ?t' \<le> 5036" using rebuilt_size [OF i(1) r(2)] fit by simp
  ultimately show ?thesis using sp(1,4) r(1,4,6) cont
    by (intro exI [of _ bs] exI [of _ new] exI [of _ s'] exI [of _ ?t']) simp
qed

lemma treeInsert_correct:
  assumes kv: "usual (k, v)"
  shows "ok s \<Longrightarrow> good (view s) h t b \<Longrightarrow> tsize t \<le> BTREE_PAGE_SIZE \<Longrightarrow> 2 * h \<le> cap s \<Longrightarrow>
    \<exists>b' s' t'. treeInsert P s b k v = Some (b', s') \<and> ok s' \<and> good (view s') h t' b' \<and>
      tsize t' \<le> 5036 \<and> contents t' = put_kv k v (contents t) \<and>
      replaces (view s) (view s') (set (ptrs t)) (set (ptrs t')) \<and> cap s \<le> cap s' + 2 * h"
proof (induction h arbitrary: s t b)
  case 0
  obtain b' t' where "treeInsert P s b k v = Some (b', s)" "good (view s) 0 t' b'" "tsize t' \<le> 5036"
    "contents t' = put_kv k v (contents t)" "ptrs t' = []" "ptrs t = []"
    using treeInsert_leaf_case [OF 0(2,3) kv] by auto
  then show ?case
    using 0(1) by (intro exI [of _ b'] exI [of _ s] exI [of _ t']) (simp add: replaces_def)
next
  case (Suc h)
  obtain xs i p sep kt kb where x: "t = ANode xs" "i < length xs" "xs ! i = (p, sep, kt)"
    "nodeLookupLE b k = Some (of_nat i)" "btype b = Some BNODE_INTERNAL" "getPtr b (of_nat i) = Some p"
    "view s p = Some kb" "good (view s) h kt kb" "tsize kt \<le> BTREE_PAGE_SIZE" "p \<notin> set (ptrs kt)"
    "\<forall>y \<in> set (kid_contents (take i xs)). fst y < k" "\<forall>y \<in> set (kid_contents (drop (Suc i) xs)). k < fst y"
    by (rule good_descend [OF Suc.prems(2)])
  obtain s1 where s1: "DelPage P s p = Some s1" "ok s1" "view s1 = (view s)(p := None)" "cap s \<le> cap s1"
    using del_page [OF Suc.prems(1) x(7)] by blast
  have gk: "good (view s1) h kt kb" using s1(3) x(10) by (intro good_cong [OF x(8)]) auto
  have cap1: "2 * h \<le> cap s1" using Suc.prems(4) s1(4) by simp
  obtain b1 s2 t1 where IH: "treeInsert P s1 kb k v = Some (b1, s2)" "ok s2" "good (view s2) h t1 b1"
    "tsize t1 \<le> 5036" "contents t1 = put_kv k v (contents kt)"
    "replaces (view s1) (view s2) (set (ptrs kt)) (set (ptrs t1))" "cap s1 \<le> cap s2 + 2 * h"
    using Suc.IH [OF s1(2) gk x(9) cap1] by blast
  have cap2: "2 \<le> cap s2" using Suc.prems(4) s1(4) IH(7) by simp
  note R = replaces_del [OF IH(6) [unfolded s1(3)] x(10)]
  obtain bs new s3 t' where N: "nodeSplit3 b1 = Some bs"
    "nodeReplaceKidN P s2 (make_bytes (2 * BTREE_PAGE_SIZE)) b (of_nat i) bs = Some (new, s3)" "ok s3"
    "good (view s3) (Suc h) t' new" "tsize t' \<le> 5036" "contents t' = put_kv k v (contents t)"
    "replaces (view s) (view s3) (set (ptrs t)) (set (ptrs t'))" "cap s2 \<le> cap s3 + 2"
    using insert_step [OF Suc.prems(2) [unfolded x(1)] x(2,3) Suc.prems(3) [unfolded x(1)] kv IH(2) cap2 IH(3-5) R x(11,12)]
    unfolding x(1) by blast
  have "treeInsert P s b k v = Some (new, s3)"
    using x(4-6) get_page [OF Suc.prems(1) x(7)] s1(1) IH(1) N(1,2) by (subst treeInsert.simps) (simp add: Let_def)
  then show ?case
    using N(3-8) s1(4) IH(7) by (intro exI [of _ new] exI [of _ s3] exI [of _ t']) simp
qed

end

end
