(* ===== verification/Tree_Insert.thy ===== *)
theory Tree_Insert
  imports Tree_Ops
begin

text \<open>
  \<open>Insert\<close> at the root of the tree. \<open>holds m root h xs D\<close> is the invariant of a whole
  tree: in the pages \<open>m\<close>, the root pointer stands for the sorted content \<open>xs\<close>, at height
  \<open>h\<close>, in exactly the pages \<open>D\<close>.
\<close>

definition holds :: "(u64 \<Rightarrow> bytes option) \<Rightarrow> u64 \<Rightarrow> nat \<Rightarrow> (bytes \<times> bytes) list \<Rightarrow> u64 set \<Rightarrow> bool" where
  "holds m root h xs D \<longleftrightarrow>
     (if root = 0 then xs = [] \<and> D = {}
      else \<exists>t b. m root = Some b \<and> good m h t b \<and> tsize t \<le> BTREE_PAGE_SIZE \<and>
        root \<notin> set (ptrs t) \<and> contents t = xs \<and> D = insert root (set (ptrs t)))"

lemma holds_nonempty:
  assumes "holds m root h xs D" "root \<noteq> 0"
  obtains t b where "m root = Some b" "good m h t b" "tsize t \<le> BTREE_PAGE_SIZE"
    "root \<notin> set (ptrs t)" "contents t = xs" "D = insert root (set (ptrs t))"
  using assms by (auto simp: holds_def)

lemma holds_sorted:
  assumes "holds m root h xs D"
  shows "keys_sorted xs" "\<forall>x \<in> set xs. usual x" "D \<subseteq> dom m"
  using assms rep_ptrs_dom by (fastforce simp: holds_def good_def split: if_splits)+

text \<open>A part of a split tree, given a page of its own, is a tree.\<close>

lemma holds_new_root:
  assumes "good m h t b" "tsize t \<le> BTREE_PAGE_SIZE" "m p = None" "p \<noteq> 0"
  shows "holds (m(p \<mapsto> b)) p h (contents t) (insert p (set (ptrs t)))"
proof -
  have "p \<notin> set (ptrs t)" using rep_ptrs_dom [OF goodD(1) [OF assms(1)]] assms(3) by auto
  moreover from this have "good (m(p \<mapsto> b)) h t b" by (intro good_cong [OF assms(1)]) auto
  ultimately show ?thesis using assms by (auto simp: holds_def)
qed

lemma replaces_new_page:
  assumes "replaces m m' D D'" "m' p = None"
  shows "replaces m (m'(p \<mapsto> b)) D (insert p D')"
  using replacesD [OF assms(1)] assms(2) unfolding replaces_def by (metis fun_upd_apply insertCI insertE)

lemma replaces_trans:
  assumes "replaces m m' A B" "replaces m' m'' B C"
  shows "replaces m m'' A C"
  unfolding replaces_def
proof (intro conjI allI impI)
  fix q
  note r = replacesD [OF assms(1), of q] replacesD [OF assms(2), of q]
  show "q \<notin> A \<Longrightarrow> q \<notin> C \<Longrightarrow> m'' q = m q" using r by (cases "q \<in> B") auto
  show "q \<in> C \<Longrightarrow> q \<in> A \<or> m q = None" using r by (cases "q \<in> B"; cases "q \<in> A") auto
  show "q \<in> A \<Longrightarrow> q \<in> C \<or> m'' q = None" using r by (cases "q \<in> B"; cases "q \<in> C") auto
qed

lemma filled_zero_offset:
  assumes "filled b t n es" "length es < n"
  shows "\<exists>b'. offsetPos b (of_nat (length es) + 1) = Some (of_nat (4 + 8 * n + 2 * length es)) \<and>
    copy_at b (unat (of_nat (4 + 8 * n + 2 * length es) :: u16)) (make_bytes 2) = Some b' \<and>
    filled b' t n es \<and> length b' = length b"
proof -
  note bd = filled_bounds [OF assms(1)]
  let ?q = "4 + 8 * n + 2 * length es"
  have q: "?q + 2 \<le> length b" using bd assms(2) by linarith
  have z: "make_bytes 2 = le_bytes 2 (0 :: u16)" by (simp add: make_bytes_def numeral_2_eq_2)
  have "offsetPos b (of_nat (length es) + 1) = Some (of_nat ?q)"
    by (simp add: offsetPos_def filled_nkeys [OF assms(1)] HEADER_def algebra_simps)
  moreover have "copy_at b (unat (of_nat ?q :: u16)) (make_bytes 2) = Some (overwrite b ?q (le_bytes 2 (0 :: u16)))"
    using copy_at_Some [of ?q "le_bytes 2 (0 :: u16)" b] unat_of_nat_u16 [of ?q] q bd(1) z by simp
  ultimately show ?thesis
    using filled_overwrite_off [OF assms, of 0] length_overwrite [of ?q "le_bytes 2 (0 :: u16)" b] q by auto
qed

lemma good_join:
  assumes parts: "list_all2 (part m h) bs ts" and len: "length ps = length ts" and ne: "ts \<noteq> []"
    and t1: "concat (map ptrs ts) = ptrs t1" "concat (map contents ts) = contents t1" "good m h t1 b1"
    and fresh: "fresh m m' ps bs" and root: "bnode root BNODE_INTERNAL (entries (ANode (kid_list ps ts)))"
  shows "good m' (Suc h) (ANode (kid_list ps ts)) root"
    "contents (ANode (kid_list ps ts)) = contents t1"
    "set (ptrs (ANode (kid_list ps ts))) = set (ptrs t1) \<union> set ps"
proof -
  note g = goodD [OF t1(3)]
  have psn: "set ps \<inter> set (ptrs t1) = {}"
    using fresh rep_ptrs_dom [OF g(1)] by (auto simp: fresh_def)
  have eq: "m' q = m q" if "q \<in> set (concat (map ptrs ts))" for q
    using that t1(1) psn fresh by (auto simp: fresh_def)
  show pt: "set (ptrs (ANode (kid_list ps ts))) = set (ptrs t1) \<union> set ps"
    using kid_list_props(4) [OF len] t1(1) by auto
  show co: "contents (ANode (kid_list ps ts)) = contents t1"
    using kid_list_props(3) [OF len] t1(2) by simp
  have "distinct (ptrs (ANode (kid_list ps ts)))"
    using kid_list_distinct [OF len] fresh g(6) t1(1) psn by (simp add: fresh_def)
  moreover have "rep m' (ANode (kid_list ps ts)) root"
    using kid_list_rep [OF parts len _ eq] fresh root by (simp add: fresh_def)
  moreover have "wf_tree (Suc h) (ANode (kid_list ps ts))" "fits (ANode (kid_list ps ts))"
    using kid_list_wf [OF parts len] ne len kid_list_props(1) [OF len] by auto
  ultimately show "good m' (Suc h) (ANode (kid_list ps ts)) root"
    using co g(4,5) by (simp add: good_def)
qed

context page_store
begin

lemma Insert_root_loop_correct:
  assumes "list_all2 (part m h) bs ts" "filled new BNODE_INTERNAL n pre" "ok s" "length ts \<le> cap s"
    and "length pre + length ts \<le> n" "4 + 10 * n + kvoff pre + sepsize ts \<le> length new"
  shows "\<exists>new' s' ps. Insert_root_loop P s new (of_nat (length pre)) bs = Some (new', s') \<and>
    length ps = length ts \<and> filled new' BNODE_INTERNAL n (pre @ entries (ANode (kid_list ps ts))) \<and>
    length new' = length new \<and> ok s' \<and> fresh (view s) (view s') ps bs \<and> cap s \<le> cap s' + length ts"
  using assms
proof (induction bs ts arbitrary: new pre s rule: list_all2_induct)
  case Nil
  then show ?case by auto
next
  case (Cons b bs t ts)
  let ?k = "fst (hd (contents t))"
  have b: "bnode b (atype t) (entries t)" "node_size (entries t) \<le> BTREE_PAGE_SIZE"
    using Cons.hyps(1) rep_bnode by (auto simp: part_def tsize_def)
  obtain p s1 where s1: "NewPage P s b = Some (p, s1)" "ok s1" "p \<noteq> 0" "view s p = None"
    "view s1 = (view s)(p \<mapsto> b)" "cap s \<le> Suc (cap s1)"
    using new_page [OF Cons.prems(2) _ b] Cons.prems(3) by auto
  obtain new0 where n0: "offsetPos new (of_nat (length pre) + 1) = Some (of_nat (4 + 8 * n + 2 * length pre))"
    "copy_at new (unat (of_nat (4 + 8 * n + 2 * length pre) :: u16)) (make_bytes 2) = Some new0"
    "filled new0 BNODE_INTERNAL n pre" "length new0 = length new"
    using filled_zero_offset [OF Cons.prems(1)] Cons.prems(4) by auto
  obtain new1 where n1: "nodeAppendKV new0 (of_nat (length pre)) p ?k [] = Some new1"
    "filled new1 BNODE_INTERNAL n (pre @ [(p, ?k, [])])" "length new1 = length new"
    using nodeAppendKV_filled [OF n0(3), of p ?k "[]"] Cons.prems(4,5) n0(4)
    by (auto simp: sepsize_def)
  obtain new' s' ps where IH:
    "Insert_root_loop P s1 new1 (of_nat (length (pre @ [(p, ?k, [])]))) bs = Some (new', s')"
    "length ps = length ts"
    "filled new' BNODE_INTERNAL n ((pre @ [(p, ?k, [])]) @ entries (ANode (kid_list ps ts)))"
    "length new' = length new1" "ok s'" "fresh (view s1) (view s') ps bs" "cap s1 \<le> cap s' + length ts"
    using Cons.IH [OF n1(2) s1(2)] Cons.prems s1(6) n1(3) by (auto simp: sepsize_def)
  have ix: "of_nat (length pre) + 1 = (of_nat (length (pre @ [(p, ?k, [])])) :: u16)"
    by (simp add: add.commute)
  have "Insert_root_loop P s new (of_nat (length pre)) (b # bs) = Some (new', s')"
    by (simp only: Insert_root_loop.simps s1(1) n0(1,2) kid_getKey [OF Cons.hyps(1)] n1(1)
        bind.bind_lunit prod.case IH(1) [folded ix])
  moreover have "fresh (view s) (view s') (p # ps) (b # bs)"
    using fresh_Cons [of "view s" p b] IH(6) s1(3-5) by simp
  ultimately show ?case
    using IH s1(6) n1(3) by (intro exI [of _ new'] exI [of _ s'] exI [of _ "p # ps"]) simp
qed

lemma Get_holds:
  assumes "ok s" "holds (view s) root h xs D"
  shows "Get P s root k = Some (map_of xs k)"
proof (cases "root = 0")
  case True
  then show ?thesis using assms by (simp add: Get_def holds_def)
next
  case False
  obtain t b where t: "view s root = Some b" "good (view s) h t b" "contents t = xs"
    using holds_nonempty [OF assms(2) False] by metis
  note g = goodD [OF t(2)]
  show ?thesis using Get_correct [OF assms(1) False t(1) g(1,2,4)] t(3) by simp
qed

text \<open>Giving the root node of a tree a page of its own.\<close>

lemma new_root:
  assumes "ok s" "0 < cap s" "good (view s) h t b" "tsize t \<le> BTREE_PAGE_SIZE"
  shows "\<exists>p s'. NewPage P s b = Some (p, s') \<and> ok s' \<and> p \<noteq> 0 \<and>
    holds (view s') p h (contents t) (insert p (set (ptrs t))) \<and>
    replaces (view s) (view s') (set (ptrs t)) (insert p (set (ptrs t))) \<and> cap s \<le> Suc (cap s')"
proof -
  obtain p s' where n: "NewPage P s b = Some (p, s')" "ok s'" "p \<noteq> 0" "view s p = None"
    "view s' = (view s)(p \<mapsto> b)" "cap s \<le> Suc (cap s')"
    using new_page [OF assms(1,2) rep_bnode [OF goodD(1) [OF assms(3)]]] assms(4) by (auto simp: tsize_def)
  have "replaces (view s) (view s') (set (ptrs t)) (insert p (set (ptrs t)))"
    unfolding n(5) by (rule replaces_new_page) (simp_all add: replaces_def n(4))
  then show ?thesis
    using n holds_new_root [OF assms(3,4) n(4,3)] by (intro exI [of _ p] exI [of _ s']) simp
qed

lemma Insert_first:
  assumes "ok s" "0 < cap s" "usual (k, v)"
  shows "\<exists>root' s'. Insert P s 0 k v = Some (root', s') \<and> ok s' \<and> root' \<noteq> 0 \<and>
    holds (view s') root' 0 [(k, v)] {root'} \<and> replaces (view s) (view s') {} {root'} \<and>
    cap s \<le> Suc (cap s')"
proof -
  let ?t = "ALeaf [(k, v)]"
  have kv: "12 \<le> length k" "length k \<le> 460" "length k + length v \<le> 920"
    using assms(3) by (simp_all add: usual_def)
  obtain b0 where b0: "setHeader (make_bytes BTREE_PAGE_SIZE) BNODE_LEAF 1 = Some b0"
    "filled b0 BNODE_LEAF 1 []" "length b0 = BTREE_PAGE_SIZE"
    using setHeader_filled [of 1 "make_bytes BTREE_PAGE_SIZE" BNODE_LEAF] by (auto simp: BTREE_PAGE_SIZE_def)
  obtain b1 where b1: "nodeAppendKV b0 0 0 k v = Some b1" "filled b1 BNODE_LEAF 1 [(0, k, v)]"
    using nodeAppendKV_filled [OF b0(2), of 0 k v] b0(3) kv by (auto simp: BTREE_PAGE_SIZE_def)
  have bn: "bnode b1 BNODE_LEAF (entries ?t)" using b1(2) by (simp add: bnode_def)
  have sz: "tsize ?t \<le> BTREE_PAGE_SIZE"
    using kv by (simp add: tsize_def node_size_def BTREE_PAGE_SIZE_def)
  have g: "good (view s) 0 ?t b1" using bn assms(3) by (simp add: good_def)
  obtain p s' where "NewPage P s b1 = Some (p, s')" "ok s'" "p \<noteq> 0" "holds (view s') p 0 [(k, v)] {p}"
    "replaces (view s) (view s') {} {p}" "cap s \<le> Suc (cap s')"
    using new_root [OF assms(1,2) g sz] by auto
  then show ?thesis
    using b0(1) b1(1) by (intro exI [of _ p] exI [of _ s']) (simp add: Insert_def)
qed

text \<open>The new root above the two halves of a split node.\<close>

lemma Insert_split_root:
  assumes good: "good (view s) h t1 b1" and s: "ok s" "3 \<le> cap s"
    and parts: "list_all2 (part (view s) h) bs ts" "length ts = 2"
      "concat (map contents ts) = contents t1" "concat (map ptrs ts) = ptrs t1"
  shows "\<exists>root p s2 s'. (setHeader (make_bytes BTREE_PAGE_SIZE) BNODE_INTERNAL (of_nat (length bs)) \<bind>
      (\<lambda>root. Insert_root_loop P s root 0 bs)) = Some (root, s2) \<and> NewPage P s2 root = Some (p, s') \<and>
    ok s' \<and> p \<noteq> 0 \<and> (\<exists>D'. holds (view s') p (Suc h) (contents t1) D' \<and>
      replaces (view s) (view s') (set (ptrs t1)) D') \<and> cap s \<le> cap s' + 3"
proof -
  have len: "length bs = 2" using list_all2_lengthD [OF parts(1)] parts(2) by simp
  have seps: "sepsize ts \<le> 928" using sepsize_le [OF parts(1)] parts(2,3) goodD(5) [OF good] by simp
  obtain b0 where b0: "setHeader (make_bytes BTREE_PAGE_SIZE) BNODE_INTERNAL (of_nat 2) = Some b0"
    "filled b0 BNODE_INTERNAL 2 []" "length b0 = BTREE_PAGE_SIZE"
    using setHeader_filled [of 2 "make_bytes BTREE_PAGE_SIZE" BNODE_INTERNAL]
    by (auto simp: BTREE_PAGE_SIZE_def)
  obtain root s2 ps where r: "Insert_root_loop P s b0 0 bs = Some (root, s2)" "length ps = length ts"
    "filled root BNODE_INTERNAL 2 (entries (ANode (kid_list ps ts)))" "ok s2"
    "fresh (view s) (view s2) ps bs" "cap s \<le> cap s2 + 2"
    using Insert_root_loop_correct [OF parts(1) b0(2) s(1)] parts(2) s(2) b0(3) seps
    by (auto simp: BTREE_PAGE_SIZE_def)
  let ?t = "ANode (kid_list ps ts)"
  have l2: "length (entries ?t) = 2" using kid_list_props(1) [OF r(2)] parts(2) by simp
  have bn: "bnode root BNODE_INTERNAL (entries ?t)" unfolding bnode_def l2 by (rule r(3))
  have sz: "tsize ?t \<le> BTREE_PAGE_SIZE"
    using kid_list_props(2) [OF r(2)] l2 seps by (simp add: tsize_def node_size_def BTREE_PAGE_SIZE_def)
  have ne: "ts \<noteq> []" using parts(2) by auto
  note j = good_join [OF parts(1) r(2) ne parts(4,3) good r(5) bn]
  have c: "0 < cap s2" using r(6) s(2) by simp
  obtain p s' where n: "NewPage P s2 root = Some (p, s')" "ok s'" "p \<noteq> 0"
    "holds (view s') p (Suc h) (contents t1) (insert p (set (ptrs ?t)))"
    "replaces (view s2) (view s') (set (ptrs ?t)) (insert p (set (ptrs ?t)))" "cap s2 \<le> Suc (cap s')"
    using new_root [OF r(4) c j(1) sz] unfolding j(2) by blast
  have "replaces (view s) (view s) (set (ptrs t1)) (set (ptrs t1))"
    by (simp add: replaces_def)
  then have "replaces (view s) (view s') (set (ptrs t1)) (insert p (set (ptrs ?t)))"
    using replaces_trans [OF replaces_fresh [OF _ r(5)] n(5) [unfolded j(3)]] j(3) by simp
  then show ?thesis
    using b0(1) r(1,6) n(1-4,6) len
    by (intro exI [of _ root] exI [of _ p] exI [of _ s2] exI [of _ s']) auto
qed

text \<open>What follows \<open>treeInsert\<close>: the root is split where it must be, and gets a page of its own.\<close>

lemma Insert_grown:
  assumes t1: "good (view s) h t1 b1" "tsize t1 \<le> 5036" and s: "ok s" "3 \<le> cap s"
  shows "\<exists>bs p s' h' D'. nodeSplit3 b1 = Some bs \<and>
    (if length bs > 1 then
      (setHeader (make_bytes BTREE_PAGE_SIZE) BNODE_INTERNAL (of_nat (length bs)) \<bind>
        (\<lambda>root. Insert_root_loop P s root 0 bs)) \<bind> (\<lambda>(root, s). NewPage P s root)
      else index bs 0 \<bind> NewPage P s) = Some (p, s') \<and>
    ok s' \<and> p \<noteq> 0 \<and> holds (view s') p h' (contents t1) D' \<and>
    replaces (view s) (view s') (set (ptrs t1)) D' \<and> h' \<le> Suc h \<and> cap s \<le> cap s' + 3"
proof -
  note g = goodD [OF t1(1)]
  obtain bs ts where sp: "nodeSplit3 b1 = Some bs" "list_all2 (part (view s) h) bs ts" "0 < length ts"
    "length ts \<le> 2" "concat (map contents ts) = contents t1" "concat (map ptrs ts) = ptrs t1"
    using nodeSplit3_parts [OF g(1,2,3,5) t1(2)] by auto
  have len: "length bs = length ts" using list_all2_lengthD [OF sp(2)] .
  show ?thesis
  proof (cases "length ts = 2")
    case True
    then show ?thesis
      using Insert_split_root [OF t1(1) s sp(2) True sp(5,6)] sp(1) len by (elim exE conjE) auto
  next
    case False
    then obtain b2 t2 where one: "bs = [b2]" "ts = [t2]" using sp(3,4) len
      by (cases ts; cases bs; cases "tl ts"; cases "tl bs") auto
    then have p2: "part (view s) h b2 t2" "contents t2 = contents t1" "ptrs t2 = ptrs t1"
      using sp(2,5,6) by auto
    have g2: "good (view s) h t2 b2" "tsize t2 \<le> BTREE_PAGE_SIZE"
      using p2 g(4-6) by (simp_all add: part_def good_def)
    have c: "0 < cap s" using s(2) by simp
    show ?thesis
      using new_root [OF s(1) c g2] p2(2,3) one sp(1) by (fastforce simp: index_def intro: le_SucI)
  qed
qed

lemma Insert_holds:
  assumes s: "ok s" and tree: "holds (view s) root h xs D" and kv: "usual (k, v)"
    and cap: "2 * h + 3 \<le> cap s"
  shows "\<exists>root' s' h' D'. Insert P s root k v = Some (root', s') \<and> ok s' \<and> root' \<noteq> 0 \<and>
    holds (view s') root' h' (put_kv k v xs) D' \<and> replaces (view s) (view s') D D' \<and>
    h' \<le> Suc h \<and> cap s \<le> cap s' + (2 * h + 3)"
proof (cases "root = 0")
  case True
  then have "xs = []" "D = {}" using tree by (simp_all add: holds_def)
  moreover obtain r s' where "Insert P s 0 k v = Some (r, s')" "ok s'" "r \<noteq> 0"
    "holds (view s') r 0 [(k, v)] {r}" "replaces (view s) (view s') {} {r}" "cap s \<le> Suc (cap s')"
    using Insert_first [OF s _ kv] cap by auto
  ultimately show ?thesis
    using True by (intro exI [of _ r] exI [of _ s'] exI [of _ 0] exI [of _ "{r}"]) (simp add: put_kv_def)
next
  case False
  obtain t b where t: "view s root = Some b" "good (view s) h t b" "tsize t \<le> BTREE_PAGE_SIZE"
    "root \<notin> set (ptrs t)" "contents t = xs" "D = insert root (set (ptrs t))"
    using holds_nonempty [OF tree False] by metis
  obtain s1 where s1: "DelPage P s root = Some s1" "ok s1" "view s1 = (view s)(root := None)" "cap s \<le> cap s1"
    using del_page [OF s t(1)] by blast
  have g1: "good (view s1) h t b" using t(4) s1(3) by (intro good_cong [OF t(2)]) auto
  obtain b1 s2 t1 where i: "treeInsert P s1 b k v = Some (b1, s2)" "ok s2" "good (view s2) h t1 b1"
    "tsize t1 \<le> 5036" "contents t1 = put_kv k v (contents t)"
    "replaces (view s1) (view s2) (set (ptrs t)) (set (ptrs t1))" "cap s1 \<le> cap s2 + 2 * h"
    using treeInsert_correct [OF kv s1(2) g1 t(3)] cap s1(4) by auto
  have R: "replaces (view s) (view s2) D (set (ptrs t1))"
    unfolding t(6) by (rule replaces_del [OF i(6) [unfolded s1(3)] t(4)])
  have cap2: "3 \<le> cap s2" using cap s1(4) i(7) by simp
  obtain bs p s' h' D' where n: "nodeSplit3 b1 = Some bs"
    "(if length bs > 1 then
      (setHeader (make_bytes BTREE_PAGE_SIZE) BNODE_INTERNAL (of_nat (length bs)) \<bind>
        (\<lambda>root. Insert_root_loop P s2 root 0 bs)) \<bind> (\<lambda>(root, s). NewPage P s root)
      else index bs 0 \<bind> NewPage P s2) = Some (p, s')" "ok s'" "p \<noteq> 0"
    "holds (view s') p h' (contents t1) D'" "replaces (view s2) (view s') (set (ptrs t1)) D'"
    "h' \<le> Suc h" "cap s2 \<le> cap s' + 3"
    using Insert_grown [OF i(3,4,2) cap2] by blast
  have "Insert P s root k v = Some (p, s')"
    using False get_page [OF s t(1)] s1(1) i(1) n(1,2) by (simp add: Insert_def split: if_splits)
  then show ?thesis
    using n(3-8) replaces_trans [OF R n(6)] i(5,7) t(5) s1(4)
    by (intro exI [of _ p] exI [of _ s'] exI [of _ h'] exI [of _ D']) simp
qed

end

end
