(* ===== verification/Tree_Delete.thy ===== *)
theory Tree_Delete
  imports Tree_Insert
begin

text \<open>
  Correctness of \<open>Delete\<close> for trees whose keys all have the same length. Replacing a
  separator then does not change the size of its node; with keys of different lengths
  \<open>treeDelete\<close> can write a separator that no longer fits the page.
\<close>

definition key_len :: "nat \<Rightarrow> (bytes \<times> bytes) list \<Rightarrow> bool" where
  "key_len L xs \<longleftrightarrow> (\<forall>x \<in> set xs. length (fst x) = L)"

lemma key_len_simps [simp]:
  "key_len L []" "key_len L (x # xs) \<longleftrightarrow> length (fst x) = L \<and> key_len L xs"
  "key_len L (xs @ ys) \<longleftrightarrow> key_len L xs \<and> key_len L ys"
  by (auto simp: key_len_def)

lemma key_len_del_kv [simp]: "key_len L xs \<Longrightarrow> key_len L (del_kv k xs)"
  by (auto simp: key_len_def del_kv_def)

lemma keys_sorted_del_kv: "keys_sorted xs \<Longrightarrow> keys_sorted (del_kv k xs)"
  by (simp add: del_kv_def keys_sorted_filter)

lemma set_del_kv: "set (del_kv k xs) \<subseteq> set xs"
  by (auto simp: del_kv_def)

lemma del_kv_absent: "k \<notin> fst ` set xs \<Longrightarrow> del_kv k xs = xs"
  by (auto simp: del_kv_def filter_id_conv)

lemma wf_key_len:
  assumes "wf_tree h t" "key_len L (contents t)"
  shows "length (fst (hd (contents t))) = L"
  using wf_contents [OF assms(1)] assms(2) by (cases "contents t") auto

section \<open>A node after a deletion\<close>

text \<open>
  The node \<open>treeDelete\<close> returns may have no entry; it is then not a tree of the
  invariant, and its parent drops it.
\<close>

definition pruned :: "(u64 \<Rightarrow> bytes option) \<Rightarrow> nat \<Rightarrow> atree \<Rightarrow> bytes \<Rightarrow> bool" where
  "pruned m h t b \<longleftrightarrow> (if entries t = [] then rep m t b else good m h t b)"

lemma pruned_rep: "pruned m h t b \<Longrightarrow> rep m t b"
  by (auto simp: pruned_def good_def split: if_splits)

lemma entries_Nil:
  assumes "entries t = []"
  shows "contents t = []" "ptrs t = []" "fits t" "tsize t = 4"
  using assms by (cases t; simp add: tsize_def node_size_def)+

lemma pruned_props:
  assumes "pruned m h t b"
  shows "fits t" "keys_sorted (contents t)" "\<forall>x \<in> set (contents t). usual x" "distinct (ptrs t)"
    "set (ptrs t) \<subseteq> dom m"
  using assms entries_Nil [of t] rep_ptrs_dom [OF pruned_rep [OF assms]]
  by (auto simp: pruned_def good_def split: if_splits)

lemma pruned_cong:
  assumes "pruned m h t b" "\<And>q. q \<in> set (ptrs t) \<Longrightarrow> m' q = m q"
  shows "pruned m' h t b"
  using assms rep_cong [of t m m' b] by (cases "entries t = []") (simp_all add: pruned_def good_def)

lemma pruned_nkeys:
  assumes "pruned m h t b"
  shows "nkeys b = Some (of_nat (length (entries t)))"
    "(of_nat (length (entries t)) :: u16) = 0 \<longleftrightarrow> entries t = []"
  using bnode_access(2,7) [OF rep_bnode [OF pruned_rep [OF assms]]]
  by (auto simp: word_of_nat_eq_0_iff dest: nat_dvd_not_less)

section \<open>Joining two siblings\<close>

fun tjoin :: "atree \<Rightarrow> atree \<Rightarrow> atree" where
  "tjoin (ALeaf xs) (ALeaf ys) = ALeaf (xs @ ys)"
| "tjoin (ANode xs) (ANode ys) = ANode (xs @ ys)"
| "tjoin t u = t"

lemma tjoin_simps:
  assumes "atype t = atype u"
  shows "entries (tjoin t u) = entries t @ entries u" "contents (tjoin t u) = contents t @ contents u"
    "ptrs (tjoin t u) = ptrs t @ ptrs u" "atype (tjoin t u) = atype t"
    "fits (tjoin t u) \<longleftrightarrow> fits t \<and> fits u"
  by (cases t; cases u; use assms in auto)+

lemma tjoin_wf:
  assumes "atype t = atype u" "entries t = [] \<or> wf_tree h t" "entries u = [] \<or> wf_tree h u"
    "entries t \<noteq> [] \<or> entries u \<noteq> []"
  shows "wf_tree h (tjoin t u)"
  using assms by (cases t; cases u; cases h) auto

lemma tjoin_rep:
  assumes "atype t = atype u" "rep m t tb" "rep m u ub" "bnode b (atype t) (entries t @ entries u)"
  shows "rep m (tjoin t u) b"
  using assms by (cases t; cases u) auto

lemma tjoin_part:
  assumes "atype t = atype u" "pruned m h t tb" "pruned m h u ub" "entries t \<noteq> [] \<or> entries u \<noteq> []"
    "bnode b (atype t) (entries t @ entries u)" "node_size (entries t @ entries u) \<le> BTREE_PAGE_SIZE"
  shows "part m h b (tjoin t u)"
  using tjoin_wf [OF assms(1), of h] tjoin_rep [OF assms(1), of m tb ub b] assms
    pruned_rep [OF assms(2)] pruned_rep [OF assms(3)] pruned_props(1) [OF assms(2)] pruned_props(1) [OF assms(3)]
  by (auto simp: part_def tjoin_simps tsize_def pruned_def good_def split: if_splits)

lemma good_pruned: "good m h t b \<Longrightarrow> pruned m h t b"
  by (auto simp: pruned_def good_def)

section \<open>Removing an entry from a leaf\<close>

lemma leaf_del_kv:
  assumes sorted: "keys_sorted kvs" and i: "i < length kvs" and k: "fst (kvs ! i) = k"
  shows "del_kv k kvs = take i kvs @ drop (Suc i) kvs"
proof -
  have dec: "kvs = take i kvs @ [kvs ! i] @ drop (Suc i) kvs" using id_take_nth_drop [OF i] by simp
  have "keys_sorted (take i kvs @ [kvs ! i] @ drop (Suc i) kvs)" using sorted dec by simp
  then have "\<forall>x \<in> set (take i kvs). fst x < k" "\<forall>x \<in> set (drop (Suc i) kvs). k < fst x"
    using k by auto
  then have "del_kv k (take i kvs @ [kvs ! i] @ drop (Suc i) kvs) = take i kvs @ drop (Suc i) kvs"
    using k by (subst del_kv_append) (simp_all add: del_kv_def)
  then show ?thesis using dec by simp
qed

text \<open>What a deletion below a node has achieved.\<close>

definition deleted :: "(u64 \<Rightarrow> bytes option) \<Rightarrow> (u64 \<Rightarrow> bytes option) \<Rightarrow> nat \<Rightarrow> atree \<Rightarrow> bytes \<Rightarrow> bytes \<Rightarrow> atree \<Rightarrow> bool" where
  "deleted m m' h t k b' t' \<longleftrightarrow> b' \<noteq> [] \<and> pruned m' h t' b' \<and> atype t' = atype t \<and>
     contents t' = del_kv k (contents t) \<and> replaces m m' (set (ptrs t)) (set (ptrs t')) \<and>
     tsize t' \<le> BTREE_PAGE_SIZE"

lemma deletedD:
  assumes "deleted m m' h t k b' t'"
  shows "b' \<noteq> []" "pruned m' h t' b'" "atype t' = atype t" "contents t' = del_kv k (contents t)"
    "replaces m m' (set (ptrs t)) (set (ptrs t'))" "tsize t' \<le> BTREE_PAGE_SIZE"
  using assms by (simp_all add: deleted_def)

lemma bnode_not_Nil: "bnode b t es \<Longrightarrow> b \<noteq> []"
  using bnode_access(9) [of b t es] by (auto simp: node_size_def)

lemma replaces_del_after:
  assumes "replaces m m1 A B" "m p \<noteq> None" "p \<notin> A"
  shows "replaces m (m1(p := None)) (insert p A) B" "p \<notin> B" "m1 p = m p"
proof -
  show pB: "p \<notin> B" using replacesD(2) [OF assms(1), of p] assms(2,3) by auto
  show "m1 p = m p" using replacesD(1) [OF assms(1,3) pB] .
  show "replaces m (m1(p := None)) (insert p A) B"
    using replacesD [OF assms(1)] pB unfolding replaces_def by (metis fun_upd_apply insertCI insertE)
qed

lemma distinct_concat_nth:
  assumes "distinct (concat (map f xs))" "i \<noteq> j" "i < length xs" "j < length xs"
  shows "set (f (xs ! i)) \<inter> set (f (xs ! j)) = {}"
proof -
  have "set (f (xs ! a)) \<inter> set (f (xs ! b)) = {}" if "a < b" "b < length xs" for a b
  proof -
    have "xs ! a \<in> set (take b xs)" using that by (auto simp: in_set_conv_nth intro!: exI [of _ a])
    then show ?thesis
      using assms(1) by (subst (asm) id_take_nth_drop [OF that(2)]) auto
  qed
  from this [of i j] this [of j i] show ?thesis using assms(2-4) by (cases i j rule: linorder_cases) auto
qed

lemma wf_atype: "wf_tree h t \<Longrightarrow> wf_tree h u \<Longrightarrow> atype t = atype u"
  by (cases t; cases u; cases h) auto

text \<open>A child that is not on the path of a deletion keeps its pages.\<close>

lemma sibling:
  assumes good: "good m (Suc h) (ANode xs) b" and i: "i < length xs" "xs ! i = (p, sep, kt)"
    and j: "j < length xs" "j \<noteq> i" "xs ! j = (q, ks, ut)"
    and R: "replaces m m2 (insert p (set (ptrs kt))) (set (ptrs t1))"
  shows "\<exists>kb. m2 q = Some kb \<and> good m2 h ut kb \<and> tsize ut \<le> BTREE_PAGE_SIZE"
    "q \<notin> set (ptrs ut)" "q \<notin> set (ptrs t1)" "set (ptrs ut) \<inter> set (ptrs t1) = {}"
    "replaces m (m2(q := None)) (insert q (set (ptrs ut)) \<union> insert p (set (ptrs kt))) (set (ptrs ut) \<union> set (ptrs t1))"
    "atype ut = atype kt" "entries ut \<noteq> []"
proof -
  note g = goodD [OF good]
  let ?X = "insert q (set (ptrs ut))"
  obtain kb where kb: "m q = Some kb" "good m h ut kb" "tsize ut \<le> BTREE_PAGE_SIZE"
    using good_kid [OF good j(1)] j(3) by auto
  have dis: "?X \<inter> insert p (set (ptrs kt)) = {}"
    using distinct_concat_nth [OF g(6) [unfolded ptrs.simps] j(2,1) i(1)] i(2) j(3) by simp
  have dom: "?X \<subseteq> dom m" using kb rep_ptrs_dom [OF goodD(1) [OF kb(2)]] by auto
  note d = replaces_disjoint [OF R dom dis]
  show "q \<notin> set (ptrs ut)"
    using g(6) by (subst (asm) id_take_nth_drop [OF j(1)]) (simp add: j(3))
  show "q \<notin> set (ptrs t1)" "set (ptrs ut) \<inter> set (ptrs t1) = {}" using d(1) by auto
  have "good m2 h ut kb" using d(2) by (intro good_cong [OF kb(2)]) auto
  then show "\<exists>kb. m2 q = Some kb \<and> good m2 h ut kb \<and> tsize ut \<le> BTREE_PAGE_SIZE"
    using kb d(2) by auto
  have "replaces m (m2(q := None)) (insert q (insert p (set (ptrs kt)))) (set (ptrs t1))"
    using replaces_del_after(1) [OF R, of q] kb(1) dis by auto
  from replaces_frame [OF this, of "set (ptrs ut)"]
  show "replaces m (m2(q := None)) (?X \<union> insert p (set (ptrs kt))) (set (ptrs ut) \<union> set (ptrs t1))"
    by (simp add: Un_ac insert_commute)
  have w: "wf_tree h ut" "wf_tree h kt" using g(2) nth_mem [OF j(1)] nth_mem [OF i(1)] i(2) j(3) by auto
  show "atype ut = atype kt" by (rule wf_atype [OF w])
  show "entries ut \<noteq> []" using first_key [OF w(1)] by simp
qed

text \<open>The siblings a shrunken child can be merged with, and the merge itself.\<close>

definition mergeable :: "(u64 \<Rightarrow> bytes option) \<Rightarrow> nat \<Rightarrow> (u64 \<times> bytes \<times> atree) list \<Rightarrow> atree \<Rightarrow> nat \<Rightarrow> bytes \<Rightarrow> bool" where
  "mergeable m h xs t1 j sb \<longleftrightarrow> j < length xs \<and> m (fst (xs ! j)) = Some sb \<and> good m h (snd (snd (xs ! j))) sb \<and>
     tsize (snd (snd (xs ! j))) + tsize t1 \<le> BTREE_PAGE_SIZE + 4"

lemma mergeableE:
  assumes "mergeable m h xs t1 j sb"
  obtains q ks ut where "j < length xs" "xs ! j = (q, ks, ut)" "m q = Some sb" "good m h ut sb"
    "tsize ut + tsize t1 \<le> BTREE_PAGE_SIZE + 4"
  using assms by (cases "xs ! j") (auto simp: mergeable_def)

definition merge_kids :: "'s pager \<Rightarrow> 's \<Rightarrow> bytes \<Rightarrow> u16 \<Rightarrow> bytes \<Rightarrow> bytes \<Rightarrow> u64 \<Rightarrow> (bytes \<times> 's) option" where
  [simp]: "merge_kids P s b i lb rb q = do {
    merged \<leftarrow> nodeMerge (make_bytes BTREE_PAGE_SIZE) lb rb;
    s \<leftarrow> DelPage P s q;
    (ptr, s) \<leftarrow> NewPage P s merged;
    mk \<leftarrow> getKey merged 0;
    new \<leftarrow> nodeReplace2Kid (make_bytes BTREE_PAGE_SIZE) b i ptr mk;
    Some (new, s) }"

definition merge_or_replace :: "'s pager \<Rightarrow> 's \<Rightarrow> bytes \<Rightarrow> u16 \<Rightarrow> bytes \<Rightarrow> (bytes \<times> 's) option" where
  [simp]: "merge_or_replace P s b i ub = do {
    (mergeDir, sibling) \<leftarrow> shouldMerge P s b i ub;
    (if mergeDir < 0 then do {
       merged \<leftarrow> nodeMerge (make_bytes BTREE_PAGE_SIZE) sibling ub;
       p \<leftarrow> getPtr b (i - 1);
       s \<leftarrow> DelPage P s p;
       (ptr, s) \<leftarrow> NewPage P s merged;
       mk \<leftarrow> getKey merged 0;
       new \<leftarrow> nodeReplace2Kid (make_bytes BTREE_PAGE_SIZE) b (i - 1) ptr mk;
       Some (new, s)
     }
     else if mergeDir > 0 then do {
       merged \<leftarrow> nodeMerge (make_bytes BTREE_PAGE_SIZE) ub sibling;
       p \<leftarrow> getPtr b (i + 1);
       s \<leftarrow> DelPage P s p;
       (ptr, s) \<leftarrow> NewPage P s merged;
       mk \<leftarrow> getKey merged 0;
       new \<leftarrow> nodeReplace2Kid (make_bytes BTREE_PAGE_SIZE) b i ptr mk;
       Some (new, s)
     }
     else do {
       un \<leftarrow> nkeys ub;
       (if un = 0 then do {
          new \<leftarrow> setHeader (make_bytes BTREE_PAGE_SIZE) BNODE_INTERNAL 0;
          Some (new, s)
        }
        else nodeReplaceKidN P s (make_bytes BTREE_PAGE_SIZE) b i [ub])
     }) }"

context page_store
begin

lemma treeDelete_leaf:
  assumes good: "good (view s) 0 t b" and size: "tsize t \<le> BTREE_PAGE_SIZE"
  shows "if k \<in> fst ` set (contents t)
    then \<exists>b' t'. treeDelete P s b k = Some (b', s) \<and> deleted (view s) (view s) 0 t k b' t'
    else treeDelete P s b k = Some ([], s)"
proof -
  note g = goodD [OF good]
  obtain kvs where t: "t = ALeaf kvs" "kvs \<noteq> []" using g(2) by (auto elim: wf_cases)
  let ?i = "kidx kvs k"
  have sorted: "keys_sorted kvs" using g(4) t(1) by simp
  have srt: "sorted_wrt (<) (ekeys (entries t))" using sorted t by (simp add: keys_sorted_def comp_def)
  note look = bnode_lookup(1) [OF g(1) srt, of k] bnode_lookup(2) [OF g(1) srt]
  have i: "?i < length kvs" using le_index_less [of "map fst kvs" k] t by simp
  have bn: "bnode b BNODE_LEAF (entries t)" using rep_bnode [OF g(1)] t(1) by simp
  have key: "getKey b (of_nat ?i) = Some (fst (kvs ! ?i))"
    using bnode_access(5) [OF bn, of ?i] i t by simp
  have mem: "k \<in> fst ` set kvs \<longleftrightarrow> k = fst (kvs ! ?i)"
    using leaf_lookup [OF sorted t(2), of k] by (metis map_of_eq_None_iff option.distinct(1))
  show ?thesis
  proof (cases "k = fst (kvs ! ?i)")
    case False
    then show ?thesis
      using look key mem t by (subst treeDelete.simps) (simp add: comp_def cmp_eq_0)
  next
    case True
    let ?t' = "ALeaf (del_kv k kvs)"
    have es: "take ?i (entries t) @ drop (Suc ?i) (entries t) = entries ?t'"
      using leaf_del_kv [OF sorted i] True t(1) by (simp add: take_map drop_map)
    obtain b' where b': "leafDelete b (of_nat ?i) = Some b'" "bnode b' BNODE_LEAF (entries ?t')"
      using leafDelete_bnode [OF bn, of ?i] i size t(1) es by (auto simp: tsize_def)
    have "tsize ?t' \<le> tsize t" using removed_size [of ?i "entries t"] i es t(1) by (simp add: tsize_def)
    moreover have "pruned (view s) 0 ?t' b'"
      using b'(2) keys_sorted_del_kv [OF sorted] g(5) set_del_kv [of k kvs] t(1)
      by (auto simp: pruned_def good_def)
    ultimately have "deleted (view s) (view s) 0 t k b' ?t'"
      using t(1) size bnode_not_Nil [OF b'(2)] by (simp add: deleted_def replaces_def)
    moreover have "treeDelete P s b k = Some (b', s)"
      using look key True b'(1) t by (subst treeDelete.simps) (simp add: comp_def cmp_eq_0)
    ultimately show ?thesis using True mem t(1) by auto
  qed
qed

text \<open>Two siblings become one page, and their entries in the parent one entry.\<close>

lemma merge_step:
  assumes good: "good (view s0) (Suc h) (ANode xs) b" and xs: "xs = ls @ [x1, x2] @ rs"
    and size: "tsize (ANode xs) \<le> BTREE_PAGE_SIZE" and len: "key_len L (contents (ANode xs))"
    and s: "ok s" "0 < cap s" "view s q = Some qb" "q \<notin> set (ptrs l @ ptrs r)"
    and lr: "pruned (view s) h l lb" "pruned (view s) h r rb" "atype l = atype r"
      "entries l \<noteq> [] \<or> entries r \<noteq> []" "node_size (entries l @ entries r) \<le> BTREE_PAGE_SIZE"
      "distinct (ptrs l @ ptrs r)"
    and R: "replaces (view s0) ((view s)(q := None)) (set (kid_ptrs [x1, x2])) (set (ptrs l @ ptrs r))"
    and cont: "contents l @ contents r = del_kv k (kid_contents [x1, x2])"
    and lo: "\<forall>y \<in> set (kid_contents ls). fst y < k" and hi: "\<forall>y \<in> set (kid_contents rs). k < fst y"
  shows "\<exists>new s' t'. merge_kids P s b (of_nat (length ls)) lb rb q = Some (new, s') \<and>
    ok s' \<and> cap s \<le> Suc (cap s') \<and> deleted (view s0) (view s') (Suc h) (ANode xs) k new t'"
proof -
  note g = goodD [OF good]
  let ?u = "tjoin l r" and ?m1 = "(view s)(q := None)"
  note tj = tjoin_simps [OF lr(3)]
  obtain mb where mb: "nodeMerge (make_bytes BTREE_PAGE_SIZE) lb rb = Some mb"
    "bnode mb (atype l) (entries l @ entries r)"
    using nodeMerge_bnode [OF rep_bnode [OF pruned_rep [OF lr(1)]] rep_bnode [OF pruned_rep [OF lr(2)]],
        of "make_bytes BTREE_PAGE_SIZE"] lr(5) by (auto simp: BTREE_PAGE_SIZE_def)
  obtain s1 where s1: "DelPage P s q = Some s1" "ok s1" "view s1 = ?m1" "cap s \<le> cap s1"
    using del_page [OF s(1,3)] by blast
  have pr: "pruned (view s1) h l lb" "pruned (view s1) h r rb"
    using s(4) s1(3) by (auto intro: pruned_cong [OF lr(1)] pruned_cong [OF lr(2)])
  have pu: "part (view s1) h mb ?u" by (rule tjoin_part [OF lr(3) pr lr(4) mb(2) lr(5)])
  obtain p s2 where n: "NewPage P s1 mb = Some (p, s2)" "ok s2" "p \<noteq> 0" "view s1 p = None"
    "view s2 = (view s1)(p \<mapsto> mb)" "cap s1 \<le> Suc (cap s2)"
    using new_page [OF s1(2) _ mb(2) lr(5)] s(2) s1(4) by auto
  define t' where "t' = ANode (ls @ kid_list [p] [?u] @ rs)"
  let ?mk = "fst (hd (contents ?u))"
  have c': "contents t' = del_kv k (contents (ANode xs))"
    using del_kv_append [OF lo hi, of "kid_contents [x1, x2]"] cont xs tj(2) by (simp add: t'_def)
  have kl: "key_len L (contents t')" using key_len_del_kv [OF len] c' by simp
  have mkL: "length ?mk = L" using wf_key_len [of h ?u L] pu kl by (simp add: t'_def part_def)
  have sepL: "length (fst (snd x)) = L" if "x \<in> set xs" for x
    using g(2) len that wf_key_len [of h "snd (snd x)" L] by (auto simp: key_len_def)
  have es: "entries t' = take (length ls) (entries (ANode xs)) @ (p, ?mk, []) # drop (length ls + 2) (entries (ANode xs))"
    using xs by (simp add: t'_def)
  have sz: "tsize t' \<le> BTREE_PAGE_SIZE"
    using size mkL sepL xs by (simp add: tsize_def node_size_def t'_def)
  obtain new where new: "nodeReplace2Kid (make_bytes BTREE_PAGE_SIZE) b (of_nat (length ls)) p ?mk = Some new"
    "bnode new BNODE_INTERNAL (entries t')"
    using nodeReplace2Kid_bnode [OF rep_bnode [OF g(1)], of "length ls" p ?mk "make_bytes BTREE_PAGE_SIZE"]
      sz xs unfolding es [symmetric] tsize_def by (auto simp: BTREE_PAGE_SIZE_def)
  have "good (view s2) (Suc h) t' new \<and> replaces (view s0) (view s2) (set (ptrs (ANode (ls @ [x1, x2] @ rs)))) (set (ptrs t'))"
  proof (rule rebuild_node [OF good [unfolded xs], of "view s1" "[mb]" "[?u]" "[p]" "ptrs l @ ptrs r"])
    show "replaces (view s0) (view s1) (set (kid_ptrs [x1, x2])) (set (ptrs l @ ptrs r))"
      using R s1(3) by simp
    show "keys_sorted (contents t')" "\<forall>y \<in> set (contents t'). usual y"
      using g(4,5) keys_sorted_del_kv set_del_kv unfolding c' by (metis, blast)
    show "fresh (view s1) (view s2) [p] [mb]" using n(3-5) by (simp add: fresh_def)
    show "set (ptrs l @ ptrs r) \<subseteq> dom (view s1)" using pruned_props(5) [OF pr(1)] pruned_props(5) [OF pr(2)] by simp
  qed (use pu lr(6) tj(3) new(2) in \<open>simp_all add: t'_def\<close>)
  then have "deleted (view s0) (view s2) (Suc h) (ANode xs) k new t'"
    using bnode_not_Nil [OF new(2)] sz c' xs unfolding t'_def
    by (simp add: deleted_def good_pruned)
  moreover have "getKey mb 0 = Some ?mk" by (rule kid_getKey [OF pu])
  ultimately show ?thesis
    using mb(1) s1(1,4) n(1,2,6) new(1)
    by (intro exI [of _ new] exI [of _ s2] exI [of _ t']) simp
qed

text \<open>The updated child gets a page of its own.\<close>

lemma replace_step:
  assumes good: "good (view s0) (Suc h) (ANode xs) b" and i: "i < length xs" "xs ! i = (p, sep, kt)"
    and size: "tsize (ANode xs) \<le> BTREE_PAGE_SIZE" and len: "key_len L (contents (ANode xs))"
    and s: "ok s" "0 < cap s"
    and t1: "good (view s) h t1 ub" "tsize t1 \<le> BTREE_PAGE_SIZE" "contents t1 = del_kv k (contents kt)"
    and R: "replaces (view s0) (view s) (insert p (set (ptrs kt))) (set (ptrs t1))"
    and lo: "\<forall>y \<in> set (kid_contents (take i xs)). fst y < k"
    and hi: "\<forall>y \<in> set (kid_contents (drop (Suc i) xs)). k < fst y"
  shows "\<exists>new s' t'. nodeReplaceKidN P s (make_bytes BTREE_PAGE_SIZE) b (of_nat i) [ub] = Some (new, s') \<and>
    ok s' \<and> cap s \<le> Suc (cap s') \<and> deleted (view s0) (view s') (Suc h) (ANode xs) k new t'"
proof -
  note g = goodD [OF good] and g1 = goodD [OF t1(1)]
  have old: "bnode b BNODE_INTERNAL (entries (ANode xs))" using rep_bnode [OF g(1)] by simp
  have parts: "list_all2 (part (view s) h) [ub] [t1]" using g1 t1(2) by (simp add: part_def)
  have kin: "(p, sep, kt) \<in> set xs" using i nth_mem by metis
  have kt: "wf_tree h kt" "sep = fst (hd (contents kt))" using g(2) kin by auto
  have kl: "key_len L (contents kt)" using len kin by (auto simp: key_len_def)
  have L: "length sep = L" "length (fst (hd (contents t1))) = L"
    using wf_key_len [OF kt(1) kl] kt(2) wf_key_len [OF g1(2), of L] t1(3) kl by simp_all
  have fit: "node_size (take i (entries (ANode xs)) @ drop (Suc i) (entries (ANode xs))) + 10 + sepsize [t1] = tsize (ANode xs)"
    using removed_size [of i "entries (ANode xs)"] i L by (simp add: tsize_def sepsize_def)
  obtain new s' ps where r: "nodeReplaceKidN P s (make_bytes BTREE_PAGE_SIZE) b (of_nat i) [ub] = Some (new, s')"
    "length ps = length [t1]"
    "bnode new BNODE_INTERNAL (entries (ANode (take i xs @ kid_list ps [t1] @ drop (Suc i) xs)))"
    "ok s'" "fresh (view s) (view s') ps [ub]" "cap s \<le> Suc (cap s')"
    using nodeReplaceKidN_correct [OF old i(1) parts s(1), of "make_bytes BTREE_PAGE_SIZE"] s(2) size fit
    by (auto simp: BTREE_PAGE_SIZE_def)
  define t' where "t' = ANode (take i xs @ kid_list ps [t1] @ drop (Suc i) xs)"
  have xs: "take i xs @ [(p, sep, kt)] @ drop (Suc i) xs = xs" using id_take_nth_drop [OF i(1)] i(2) by simp
  have c': "contents t' = del_kv k (contents (ANode xs))"
    using del_kv_append [OF lo hi, of "contents kt"] kid_list_props(3) [OF r(2)] t1(3)
      arg_cong [OF xs, of kid_contents] by (simp add: t'_def)
  have "good (view s') (Suc h) t' new \<and> replaces (view s0) (view s')
      (set (ptrs (ANode (take i xs @ [(p, sep, kt)] @ drop (Suc i) xs)))) (set (ptrs t'))"
  proof (rule rebuild_node [OF _ parts r(2) _ _ g1(6) rep_ptrs_dom [OF g1(1)] _ r(5) t'_def r(3) [folded t'_def]])
    show "good (view s0) (Suc h) (ANode (take i xs @ [(p, sep, kt)] @ drop (Suc i) xs)) b" unfolding xs by (rule good)
    show "keys_sorted (contents t')" "\<forall>y \<in> set (contents t'). usual y"
      using g(4,5) keys_sorted_del_kv set_del_kv unfolding c' by (metis, blast)
  qed (use R in simp_all)
  moreover have "tsize t' \<le> BTREE_PAGE_SIZE"
    using rebuilt_size [OF i(1) r(2)] fit size by (simp add: t'_def)
  ultimately have "deleted (view s0) (view s') (Suc h) (ANode xs) k new t'"
    using bnode_not_Nil [OF r(3)] c' unfolding xs t'_def by (simp add: deleted_def good_pruned)
  then show ?thesis using r(1,4,6) by blast
qed

text \<open>The size test of \<open>shouldMerge\<close> on one sibling does not wrap, and always holds for an empty child.\<close>

lemma sibling_fits:
  assumes node: "bnode b BNODE_INTERNAL (entries (ANode xs))" and j: "j < length xs" and s: "ok s"
    and t1: "tsize t1 \<le> BTREE_PAGE_SIZE"
    and kb: "view s (fst (xs ! j)) = Some kb" "good (view s) h (snd (snd (xs ! j))) kb"
      "tsize (snd (snd (xs ! j))) \<le> BTREE_PAGE_SIZE"
  defines "n \<equiv> of_nat (tsize (snd (snd (xs ! j)))) :: u16"
  shows "getPtr b (of_nat j) = Some (fst (xs ! j))" "GetPage P s (fst (xs ! j)) = Some kb" "nbytes kb = Some n"
    "unat (n + of_nat (tsize t1) - HEADER) \<le> BTREE_PAGE_SIZE \<longleftrightarrow> mergeable (view s) h xs t1 j kb"
    "entries t1 = [] \<Longrightarrow> mergeable (view s) h xs t1 j kb"
proof -
  let ?n = "tsize (snd (snd (xs ! j))) + tsize t1 - 4"
  have U: "4 \<le> tsize t1" by (simp add: tsize_def node_size_def)
  have "n + of_nat (tsize t1) - HEADER = (of_nat ?n :: u16)" using U by (simp add: n_def HEADER_def of_nat_diff)
  moreover have "?n < 65536" using kb(3) t1 by (simp add: BTREE_PAGE_SIZE_def)
  ultimately have "unat (n + of_nat (tsize t1) - HEADER) = ?n" by (simp only: unat_of_nat_u16)
  then show "unat (n + of_nat (tsize t1) - HEADER) \<le> BTREE_PAGE_SIZE \<longleftrightarrow> mergeable (view s) h xs t1 j kb"
    using U j kb by (auto simp: mergeable_def)
  show "entries t1 = [] \<Longrightarrow> mergeable (view s) h xs t1 j kb"
    using j kb entries_Nil(4) [of t1] by (simp add: mergeable_def)
  show "getPtr b (of_nat j) = Some (fst (xs ! j))" using bnode_access(4) [OF node, of j] j by simp
  show "GetPage P s (fst (xs ! j)) = Some kb" by (rule get_page [OF s kb(1)])
  show "nbytes kb = Some n"
    using bnode_access(3) [OF rep_bnode [OF goodD(1) [OF kb(2)]]] by (simp add: n_def tsize_def)
qed

lemma shouldMerge_result:
  assumes node: "bnode b BNODE_INTERNAL (entries (ANode xs))" and i: "i < length xs" and s: "ok s"
    and upd: "bnode ub ty (entries t1)" "tsize t1 \<le> BTREE_PAGE_SIZE"
    and sib: "\<And>j. j < length xs \<Longrightarrow> j \<noteq> i \<Longrightarrow> \<exists>kb. view s (fst (xs ! j)) = Some kb \<and>
      good (view s) h (snd (snd (xs ! j))) kb \<and> tsize (snd (snd (xs ! j))) \<le> BTREE_PAGE_SIZE"
  shows "\<exists>d sb. shouldMerge P s b (of_nat i) ub = Some (d, sb) \<and>
    (d = 0 \<and> (entries t1 = [] \<longrightarrow> length xs = 1) \<or> d = -1 \<and> 0 < i \<and> mergeable (view s) h xs t1 (i - 1) sb \<or>
     d = 1 \<and> mergeable (view s) h xs t1 (Suc i) sb)"
proof -
  note acc = bnode_access [OF node] and uacc = bnode_access [OF upd(1)]
  let ?M = "mergeable (view s) h xs t1"
  have w: "(0 < (of_nat i :: u16)) = (0 < i)" "of_nat i + 1 = (of_nat (Suc i) :: u16)"
    "(of_nat (Suc i) < (of_nat (length xs) :: u16)) = (Suc i < length xs)"
    using i acc(7) by (simp_all add: word_less_nat_alt unat_of_nat_u16 add.commute del: of_nat_Suc) simp
  have w1: "of_nat (Suc 0) = (1 :: u16)" by simp
  have U: "unat (of_nat (tsize t1) :: u16) = tsize t1" using unat_of_nat_u16 [OF uacc(8)] by (simp only: tsize_def)
  have nb: "nbytes ub = Some (of_nat (tsize t1))" "nkeys b = Some (of_nat (length xs))"
    using uacc(3) acc(2) by (simp_all add: tsize_def)
  note sm = shouldMerge_def [of P s b "of_nat i" ub, unfolded nb bind.bind_lunit U w(1-3)]
  define Q where "Q j kb \<longleftrightarrow> getPtr b (of_nat j) = Some (fst (xs ! j)) \<and> GetPage P s (fst (xs ! j)) = Some kb \<and>
      nbytes kb = Some (of_nat (tsize (snd (snd (xs ! j))))) \<and>
      (unat (of_nat (tsize (snd (snd (xs ! j)))) + of_nat (tsize t1) - HEADER :: u16) \<le> BTREE_PAGE_SIZE \<longleftrightarrow> ?M j kb) \<and>
      (entries t1 = [] \<longrightarrow> ?M j kb)" for j kb
  have S: "\<exists>kb. Q j kb" if j: "j < length xs" "j \<noteq> i" for j
    using sib [OF j] sibling_fits [OF node j(1) s upd(2)] unfolding Q_def by blast
  show ?thesis
  proof (cases "BTREE_PAGE_SIZE div 4 < tsize t1")
    case True
    then show ?thesis using sm entries_Nil(4) [of t1] by (auto simp: BTREE_PAGE_SIZE_def)
  next
    case F: False
    obtain lb where l: "0 < i \<longrightarrow> Q (i - 1) lb" using S [of "i - 1"] i by (cases i) auto
    obtain rb where r: "Suc i < length xs \<longrightarrow> Q (Suc i) rb" using S [of "Suc i"] by auto
    consider (left) "0 < i \<and> ?M (i - 1) lb" | (right) "\<not> (0 < i \<and> ?M (i - 1) lb)" "Suc i < length xs"
      | (last) "\<not> (0 < i \<and> ?M (i - 1) lb)" "\<not> Suc i < length xs" by blast
    then show ?thesis
    proof cases
      case left
      then show ?thesis unfolding sm using F l by (simp add: Q_def)
    next
      case right
      then show ?thesis unfolding sm using F l r
        by (cases "0 < i"; cases "?M (Suc i) rb") (simp_all add: Q_def w1 del: of_nat_Suc)
    next
      case last
      have "i = 0 \<Longrightarrow> length xs = 1" using i last(2) by linarith
      then have "entries t1 = [] \<longrightarrow> length xs = 1" using l last(1) by (auto simp: Q_def)
      then show ?thesis unfolding sm using F l last by (cases "0 < i") (simp_all add: Q_def w1 del: of_nat_Suc)
    qed
  qed
qed

text \<open>Left, right and no merge, once the child is updated and its page freed.\<close>

lemma merge_left:
  assumes good: "good (view s0) (Suc h) (ANode xs) b" and i: "Suc j < length xs" "xs ! Suc j = (p, sep, kt)"
    and size: "tsize (ANode xs) \<le> BTREE_PAGE_SIZE" and len: "key_len L (contents (ANode xs))"
    and s: "ok s" "0 < cap s" and q: "xs ! j = (q, ks, ut)" "view s q = Some sb" "good (view s) h ut sb"
    and t1: "pruned (view s) h t1 ub" "atype t1 = atype kt" "contents t1 = del_kv k (contents kt)"
      "tsize ut + tsize t1 \<le> BTREE_PAGE_SIZE + 4"
    and R: "replaces (view s0) (view s) (insert p (set (ptrs kt))) (set (ptrs t1))"
    and lo: "\<forall>y \<in> set (kid_contents (take (Suc j) xs)). fst y < k"
    and hi: "\<forall>y \<in> set (kid_contents (drop (Suc (Suc j)) xs)). k < fst y"
  shows "\<exists>new s' t'. merge_kids P s b (of_nat j) sb ub q = Some (new, s') \<and>
    ok s' \<and> cap s \<le> Suc (cap s') \<and> deleted (view s0) (view s') (Suc h) (ANode xs) k new t'"
proof -
  have jl: "j < length xs" "j \<noteq> Suc j" using i by simp_all
  note sb = sibling [OF good i jl q(1) R]
  have xs: "xs = take j xs @ [(q, ks, ut), (p, sep, kt)] @ drop (Suc (Suc j)) xs"
    using id_take_nth_drop [OF jl(1)] Cons_nth_drop_Suc [OF i(1)] i(2) q(1) by simp
  have tk: "take (Suc j) xs = take j xs @ [(q, ks, ut)]"
    using jl(1) q(1) by (simp add: take_Suc_conv_app_nth)
  have lj: "length (take j xs) = j" using jl by simp
  have "contents ut @ contents t1 = del_kv k (contents ut @ contents kt)"
    using del_kv_append [of "contents ut" k "[]" "contents kt"] lo t1(3) unfolding tk by simp
  moreover have "node_size (entries ut @ entries t1) \<le> BTREE_PAGE_SIZE"
    using t1(4) by (simp add: tsize_def node_size_def)
  moreover have "\<forall>y \<in> set (kid_contents (take j xs)). fst y < k" using lo unfolding tk by simp
  ultimately show ?thesis
    using merge_step [OF good xs size len s q(2) _ good_pruned [OF q(3)] t1(1), of k] hi sb t1(2)
      goodD(6) [OF q(3)] pruned_props(4) [OF t1(1)]
    unfolding lj by (simp add: Un_ac insert_commute)
qed

lemma merge_right:
  assumes good: "good (view s0) (Suc h) (ANode xs) b" and i: "i < length xs" "xs ! i = (p, sep, kt)"
    and size: "tsize (ANode xs) \<le> BTREE_PAGE_SIZE" and len: "key_len L (contents (ANode xs))"
    and s: "ok s" "0 < cap s" and q: "Suc i < length xs" "xs ! Suc i = (q, ks, ut)" "view s q = Some sb" "good (view s) h ut sb"
    and t1: "pruned (view s) h t1 ub" "atype t1 = atype kt" "contents t1 = del_kv k (contents kt)"
      "tsize ut + tsize t1 \<le> BTREE_PAGE_SIZE + 4"
    and R: "replaces (view s0) (view s) (insert p (set (ptrs kt))) (set (ptrs t1))"
    and lo: "\<forall>y \<in> set (kid_contents (take i xs)). fst y < k"
    and hi: "\<forall>y \<in> set (kid_contents (drop (Suc i) xs)). k < fst y"
  shows "\<exists>new s' t'. merge_kids P s b (of_nat i) ub sb q = Some (new, s') \<and>
    ok s' \<and> cap s \<le> Suc (cap s') \<and> deleted (view s0) (view s') (Suc h) (ANode xs) k new t'"
proof -
  have ne: "Suc i \<noteq> i" by simp
  note sb = sibling [OF good i q(1) ne q(2) R]
  have dr: "drop (Suc i) xs = (q, ks, ut) # drop (Suc (Suc i)) xs"
    using Cons_nth_drop_Suc [OF q(1)] q(2) by simp
  have xs: "xs = take i xs @ [(p, sep, kt), (q, ks, ut)] @ drop (Suc (Suc i)) xs"
    using id_take_nth_drop [OF i(1)] dr i(2) by simp
  have li: "length (take i xs) = i" using i by simp
  have "contents t1 @ contents ut = del_kv k (contents kt @ contents ut)"
    using del_kv_append [of "[]" k "contents ut" "contents kt"] hi t1(3) unfolding dr by simp
  moreover have "node_size (entries t1 @ entries ut) \<le> BTREE_PAGE_SIZE"
    using t1(4) by (simp add: tsize_def node_size_def)
  moreover have "\<forall>y \<in> set (kid_contents (drop (Suc (Suc i)) xs)). k < fst y" using hi unfolding dr by simp
  ultimately show ?thesis
    using merge_step [OF good xs size len s q(3) _ t1(1) good_pruned [OF q(4)], of k] lo sb t1(2)
      goodD(6) [OF q(4)] pruned_props(4) [OF t1(1)]
    unfolding li by (simp add: Un_ac insert_commute Int_commute)
qed

text \<open>The only child lost its last entry: the node becomes empty, too.\<close>

lemma last_kid_gone:
  assumes "i < length xs" "xs ! i = (p, sep, kt)" "length xs = 1" "entries t1 = []" "ok s"
    "contents t1 = del_kv k (contents kt)" "replaces m (view s) (insert p (set (ptrs kt))) (set (ptrs t1))"
  shows "\<exists>b0. setHeader (make_bytes BTREE_PAGE_SIZE) BNODE_INTERNAL 0 = Some b0 \<and>
    deleted m (view s) (Suc h) (ANode xs) k b0 (ANode [])"
proof -
  obtain b0 where b0: "setHeader (make_bytes BTREE_PAGE_SIZE) BNODE_INTERNAL 0 = Some b0" "filled b0 BNODE_INTERNAL 0 []"
    using setHeader_filled [of 0 "make_bytes BTREE_PAGE_SIZE" BNODE_INTERNAL] by (auto simp: BTREE_PAGE_SIZE_def)
  have bn: "bnode b0 BNODE_INTERNAL []" using b0(2) by (simp add: bnode_def)
  have "xs = [(p, sep, kt)]" using assms(1-3) by (cases xs) auto
  then show ?thesis
    using b0(1) bn bnode_not_Nil [OF bn] assms(6,7) entries_Nil [OF assms(4)]
    by (simp add: deleted_def pruned_def tsize_def node_size_def BTREE_PAGE_SIZE_def)
qed

text \<open>What follows the deletion below a kid, once the old page of the kid is freed.\<close>

lemma treeDelete_node:
  assumes good: "good (view s0) (Suc h) (ANode xs) b" and i: "i < length xs" "xs ! i = (p, sep, kt)"
    and size: "tsize (ANode xs) \<le> BTREE_PAGE_SIZE" and len: "key_len L (contents (ANode xs))"
    and s: "ok s" "0 < cap s"
    and t1: "pruned (view s) h t1 ub" "atype t1 = atype kt" "contents t1 = del_kv k (contents kt)"
      "tsize t1 \<le> BTREE_PAGE_SIZE"
    and R: "replaces (view s0) (view s) (insert p (set (ptrs kt))) (set (ptrs t1))"
    and lo: "\<forall>y \<in> set (kid_contents (take i xs)). fst y < k"
    and hi: "\<forall>y \<in> set (kid_contents (drop (Suc i) xs)). k < fst y"
  shows "\<exists>new s' t'. merge_or_replace P s b (of_nat i) ub = Some (new, s') \<and>
    ok s' \<and> cap s \<le> Suc (cap s') \<and> deleted (view s0) (view s') (Suc h) (ANode xs) k new t'"
proof -
  note ub = rep_bnode [OF pruned_rep [OF t1(1)]] and un = pruned_nkeys [OF t1(1)]
  have node: "bnode b BNODE_INTERNAL (entries (ANode xs))" using rep_bnode [OF goodD(1) [OF good]] by simp
  have sib: "\<exists>kb. view s (fst (xs ! j)) = Some kb \<and> good (view s) h (snd (snd (xs ! j))) kb \<and>
      tsize (snd (snd (xs ! j))) \<le> BTREE_PAGE_SIZE" if "j < length xs" "j \<noteq> i" for j
    using sibling(1) [OF good i that _ R, of "fst (xs ! j)" "fst (snd (xs ! j))" "snd (snd (xs ! j))"] by simp
  obtain d sb where d: "shouldMerge P s b (of_nat i) ub = Some (d, sb)" and
    "d = 0 \<and> (entries t1 = [] \<longrightarrow> length xs = 1) \<or> d = -1 \<and> 0 < i \<and> mergeable (view s) h xs t1 (i - 1) sb \<or>
     d = 1 \<and> mergeable (view s) h xs t1 (Suc i) sb"
    using shouldMerge_result [OF node i(1) s(1) ub t1(4) sib] by blast
  then consider (empty) "d = 0" "entries t1 = []" "length xs = 1" | (replace) "d = 0" "entries t1 \<noteq> []"
    | (left) j where "d = -1" "i = Suc j" "mergeable (view s) h xs t1 j sb"
    | (right) "d = 1" "mergeable (view s) h xs t1 (Suc i) sb" by (cases i) auto
  then show ?thesis
  proof cases
    case empty
    then show ?thesis using d un s(1) last_kid_gone [OF i empty(3,2) s(1) t1(3) R, of h] by auto
  next
    case replace
    then have "good (view s) h t1 ub" using t1(1) by (simp add: pruned_def)
    from replace_step [OF good i size len s this t1(4,3) R lo hi] show ?thesis using d replace un by simp
  next
    case left
    then obtain q ks ut where q: "j < length xs" "xs ! j = (q, ks, ut)" "view s q = Some sb" "good (view s) h ut sb"
      "tsize ut + tsize t1 \<le> BTREE_PAGE_SIZE + 4" by (auto elim: mergeableE)
    have "getPtr b (of_nat j) = Some q" using bnode_access(4) [OF node, of j] q(1,2) by simp
    then show ?thesis
      using merge_left [OF good i [unfolded left(2)] size len s q(2-4) t1(1-3) q(5) R] lo hi d left(1)
      unfolding left(2) by simp
  next
    case right
    then obtain q ks ut where q: "Suc i < length xs" "xs ! Suc i = (q, ks, ut)" "view s q = Some sb"
      "good (view s) h ut sb" "tsize ut + tsize t1 \<le> BTREE_PAGE_SIZE + 4" by (auto elim: mergeableE)
    have "getPtr b (of_nat i + 1) = Some q"
      using bnode_access(4) [OF node, of "Suc i"] q(1,2) by (simp add: add.commute)
    then show ?thesis
      using merge_right [OF good i size len s q(1-4) t1(1-3) q(5) R lo hi] d right(1) by simp
  qed
qed

text \<open>The old page of a child, or of the root, is freed after the deletion below it.\<close>

lemma free_old:
  assumes "ok s1" "deleted (view s) (view s1) h t k ub t1" "view s p = Some b" "p \<notin> set (ptrs t)"
  shows "\<exists>s2. DelPage P s1 p = Some s2 \<and> ok s2 \<and> cap s1 \<le> cap s2 \<and> pruned (view s2) h t1 ub \<and>
    replaces (view s) (view s2) (insert p (set (ptrs t))) (set (ptrs t1))"
proof -
  note d = deletedD [OF assms(2)]
  have pd: "view s p \<noteq> None" using assms(3) by simp
  note del = replaces_del_after [OF d(5) pd assms(4)]
  obtain s2 where s2: "DelPage P s1 p = Some s2" "ok s2" "view s2 = (view s1)(p := None)" "cap s1 \<le> cap s2"
    using del_page [OF assms(1)] del(3) assms(3) by metis
  moreover have "pruned (view s2) h t1 ub" using del(2) s2(3) by (intro pruned_cong [OF d(2)]) auto
  ultimately show ?thesis using del(1) by auto
qed

lemma treeDelete_correct:
  "ok s \<Longrightarrow> good (view s) h t b \<Longrightarrow> tsize t \<le> BTREE_PAGE_SIZE \<Longrightarrow> key_len L (contents t) \<Longrightarrow> h \<le> cap s \<Longrightarrow>
   if k \<in> fst ` set (contents t)
   then \<exists>b' s' t'. treeDelete P s b k = Some (b', s') \<and> ok s' \<and> deleted (view s) (view s') h t k b' t' \<and>
     cap s \<le> cap s' + h
   else treeDelete P s b k = Some ([], s)"
proof (induction h arbitrary: s t b)
  case 0
  show ?case using treeDelete_leaf [OF 0(2,3), of k] 0(1) by (auto split: if_splits)
next
  case (Suc h)
  obtain xs i p sep kt kb where x: "t = ANode xs" "i < length xs" "xs ! i = (p, sep, kt)"
    "nodeLookupLE b k = Some (of_nat i)" "btype b = Some BNODE_INTERNAL" "getPtr b (of_nat i) = Some p"
    "view s p = Some kb" "good (view s) h kt kb" "tsize kt \<le> BTREE_PAGE_SIZE" "p \<notin> set (ptrs kt)"
    "\<forall>y \<in> set (kid_contents (take i xs)). fst y < k" "\<forall>y \<in> set (kid_contents (drop (Suc i) xs)). k < fst y"
    by (rule good_descend [OF Suc.prems(2)])
  have split: "kid_contents xs = kid_contents (take i xs) @ contents kt @ kid_contents (drop (Suc i) xs)"
    using kid_contents_split [OF x(2)] x(3) by simp
  have kl: "key_len L (contents kt)" using Suc.prems(4) x(1) split by simp
  have mem: "k \<in> fst ` set (contents t) \<longleftrightarrow> k \<in> fst ` set (contents kt)"
    using x(11,12) unfolding x(1) contents.simps split by (force simp del: set_concat)
  have h: "h \<le> cap s" using Suc.prems(5) by simp
  note IH = Suc.IH [OF Suc.prems(1) x(8,9) kl h] and page = get_page [OF Suc.prems(1) x(7)]
  show ?case
  proof (cases "k \<in> fst ` set (contents kt)")
    case False
    then show ?thesis using IH mem x(4-6) page by (subst treeDelete.simps) simp
  next
    case True
    then obtain ub s1 t1 where I: "treeDelete P s kb k = Some (ub, s1)" "ok s1"
      "deleted (view s) (view s1) h kt k ub t1" "cap s \<le> cap s1 + h"
      using IH by auto
    note d = deletedD [OF I(3)]
    obtain s2 where s2: "DelPage P s1 p = Some s2" "ok s2" "cap s1 \<le> cap s2" "pruned (view s2) h t1 ub"
      "replaces (view s) (view s2) (insert p (set (ptrs kt))) (set (ptrs t1))"
      using free_old [OF I(2,3) x(7,10)] by blast
    have c: "0 < cap s2" using I(4) s2(3) Suc.prems(5) by simp
    obtain new s' t' where N: "treeDelete P s b k = Some (new, s')" "ok s'" "cap s2 \<le> Suc (cap s')"
        "deleted (view s) (view s') (Suc h) (ANode xs) k new t'"
      using treeDelete_node [OF Suc.prems(2) [unfolded x(1)] x(2,3) Suc.prems(3) [unfolded x(1)]
          Suc.prems(4) [unfolded x(1)] s2(2) c s2(4) d(3,4,6) s2(5) x(11,12)] x(4-6) page I(1) s2(1) d(1)
      by (subst (asm) treeDelete.simps) (auto simp: Let_def)
    show ?thesis using True mem I(4) s2(3) x(1) N
      by (simp, intro exI [of _ new] exI [of _ s'] exI [of _ t']) simp
  qed
qed

text \<open>What follows \<open>treeDelete\<close>: an empty root is dropped, any other gets a page of its own.\<close>

lemma Delete_shrunk:
  assumes t1: "pruned (view s) h t1 ub" "tsize t1 \<le> BTREE_PAGE_SIZE" and s: "ok s" "0 < cap s"
  shows "\<exists>n root' s' D'. nkeys ub = Some n \<and>
    (if n = 0 then Some (0, s) else NewPage P s ub) = Some (root', s') \<and> ok s' \<and>
    holds (view s') root' h (contents t1) D' \<and> replaces (view s) (view s') (set (ptrs t1)) D' \<and> cap s \<le> Suc (cap s')"
proof (cases "entries t1 = []")
  case True
  then have "holds (view s) 0 h (contents t1) {}" "replaces (view s) (view s) (set (ptrs t1)) {}"
    using entries_Nil(1,2) [OF True] by (simp_all add: holds_def replaces_def)
  then show ?thesis using pruned_nkeys [OF t1(1)] True s(1) by auto
next
  case False
  then have "good (view s) h t1 ub" using t1(1) by (simp add: pruned_def)
  from new_root [OF s this t1(2)] show ?thesis using pruned_nkeys [OF t1(1)] False by auto
qed

lemma Delete_holds:
  assumes s: "ok s" and tree: "holds (view s) root h xs D" and len: "key_len L xs" and cap: "Suc h \<le> cap s"
  shows "if k \<in> fst ` set xs
    then \<exists>root' s' D'. Delete P s root k = Some (True, root', s') \<and> ok s' \<and>
      holds (view s') root' h (del_kv k xs) D' \<and> replaces (view s) (view s') D D' \<and> cap s \<le> cap s' + Suc h
    else Delete P s root k = Some (False, root, s)"
proof (cases "root = 0")
  case True
  then show ?thesis using tree by (simp add: Delete_def holds_def)
next
  case False
  obtain t b where t: "view s root = Some b" "good (view s) h t b" "tsize t \<le> BTREE_PAGE_SIZE"
    "root \<notin> set (ptrs t)" "contents t = xs" "D = insert root (set (ptrs t))"
    using holds_nonempty [OF tree False] by metis
  have td: "if k \<in> fst ` set xs
     then \<exists>b' s' t'. treeDelete P s b k = Some (b', s') \<and> ok s' \<and> deleted (view s) (view s') h t k b' t' \<and>
       cap s \<le> cap s' + h
     else treeDelete P s b k = Some ([], s)"
    using treeDelete_correct [OF s t(2,3), of L k] len cap t(5) by simp
  note pre = get_page [OF s t(1)] False
  show ?thesis
  proof (cases "k \<in> fst ` set xs")
    case F: False
    then show ?thesis using td pre by (simp add: Delete_def)
  next
    case True
    then obtain ub s1 t1 where I: "treeDelete P s b k = Some (ub, s1)" "ok s1"
      "deleted (view s) (view s1) h t k ub t1" "cap s \<le> cap s1 + h"
      using td by auto
    note d = deletedD [OF I(3)]
    obtain s2 where s2: "DelPage P s1 root = Some s2" "ok s2" "cap s1 \<le> cap s2" "pruned (view s2) h t1 ub"
      "replaces (view s) (view s2) D (set (ptrs t1))"
      using free_old [OF I(2,3) t(1,4)] unfolding t(6) by blast
    have c: "0 < cap s2" using I(4) s2(3) cap by simp
    obtain n root' s' D' where n: "nkeys ub = Some n" "(if n = 0 then Some (0, s2) else NewPage P s2 ub) = Some (root', s')"
      "ok s'" "holds (view s') root' h (contents t1) D'" "replaces (view s2) (view s') (set (ptrs t1)) D'"
      "cap s2 \<le> Suc (cap s')"
      using Delete_shrunk [OF s2(4) d(6) s2(2) c] by blast
    have "Delete P s root k = Some (True, root', s')"
      using pre I(1) d(1) s2(1) n(1,2) by (simp add: Delete_def split: if_splits)
    then show ?thesis using True n(3-6) d(4) t(5) replaces_trans [OF s2(5) n(5)] I(4) s2(3)
      by (simp, intro exI [of _ root'] exI [of _ s'] exI [of _ D']) simp
  qed
qed

end

end
