(* ===== verification/Mem_Tree.thy ===== *)
theory Mem_Tree
  imports Tree_Delete
begin

text \<open>
  The page store of \<^verbatim>\<open>internal/btree/btree_test.go\<close> (\<open>newMemTest\<close>): pages in a map,
  \<open>NewPage\<close> refusing an oversized node and \<open>DelPage\<close> a page that is not there. A
  pointer is the address of the node's first byte; the model hands out allocation
  numbers, which are distinct and not null as addresses of live slices are. The store satisfies
  the contract of the locale \<open>page_store\<close>, and with it the tree behaves as a map for any
  sequence of the operations \<open>add\<close>, \<open>del\<close> and \<open>get\<close>.
\<close>

record mem =
  pages :: "u64 \<Rightarrow> bytes option"
  fresh_ptr :: u64

definition mem_GetPage :: "mem \<Rightarrow> u64 \<Rightarrow> bytes option" where
  "mem_GetPage s ptr = pages s ptr"

definition mem_NewPage :: "mem \<Rightarrow> bytes \<Rightarrow> (u64 \<times> mem) option" where
  "mem_NewPage s node = do {
     n \<leftarrow> nbytes node;
     (if unat n > BTREE_PAGE_SIZE then None
      else Some (fresh_ptr s, s\<lparr>pages := (pages s)(fresh_ptr s \<mapsto> node), fresh_ptr := fresh_ptr s + 1\<rparr>))
   }"

definition mem_DelPage :: "mem \<Rightarrow> u64 \<Rightarrow> mem option" where
  "mem_DelPage s ptr =
     (case pages s ptr of None \<Rightarrow> None | Some _ \<Rightarrow> Some (s\<lparr>pages := (pages s)(ptr := None)\<rparr>))"

definition mem_pager :: "mem pager" where
  "mem_pager = \<lparr>GetPage = mem_GetPage, NewPage = mem_NewPage, DelPage = mem_DelPage\<rparr>"

text \<open>The test's \<open>memTest\<close>: the tree's root, the page map and the reference map.\<close>

record memTest =
  tree_Root :: u64
  store :: mem
  ref :: "bytes \<Rightarrow> bytes option"

definition newMemTest :: memTest where
  "newMemTest = \<lparr>tree_Root = 0, store = \<lparr>pages = (\<lambda>_. None), fresh_ptr = 1\<rparr>, ref = (\<lambda>_. None)\<rparr>"

definition mem_add :: "memTest \<Rightarrow> bytes \<Rightarrow> bytes \<Rightarrow> memTest option" where
  "mem_add c key val = do {
     (r, s) \<leftarrow> Insert mem_pager (store c) (tree_Root c) key val;
     Some (c\<lparr>tree_Root := r, store := s, ref := (ref c)(key \<mapsto> val)\<rparr>)
   }"

definition mem_del :: "memTest \<Rightarrow> bytes \<Rightarrow> (bool \<times> memTest) option" where
  "mem_del c key = do {
     (deleted, r, s) \<leftarrow> Delete mem_pager (store c) (tree_Root c) key;
     Some (deleted, c\<lparr>tree_Root := r, store := s,
       ref := (if deleted then (ref c)(key := None) else ref c)\<rparr>)
   }"

definition mem_get :: "memTest \<Rightarrow> bytes \<Rightarrow> bytes option option" where
  "mem_get c key = Get mem_pager (store c) (tree_Root c) key"

section \<open>The contract of the page store\<close>

definition mem_ok :: "mem \<Rightarrow> bool" where
  "mem_ok s \<longleftrightarrow> fresh_ptr s \<noteq> 0 \<and> (\<forall>p. pages s p \<noteq> None \<longrightarrow> p < fresh_ptr s)"

definition mem_cap :: "mem \<Rightarrow> nat" where
  "mem_cap s = 2 ^ 64 - 1 - unat (fresh_ptr s)"

lemma mem_new_page:
  assumes "mem_ok s" "0 < mem_cap s" "bnode b t es" "node_size es \<le> BTREE_PAGE_SIZE"
  shows "\<exists>p s'. NewPage mem_pager s b = Some (p, s') \<and> mem_ok s' \<and> p \<noteq> 0 \<and> pages s p = None \<and>
    pages s' = (pages s)(p \<mapsto> b) \<and> mem_cap s \<le> Suc (mem_cap s')"
proof -
  let ?p = "fresh_ptr s"
  have nb: "nbytes b = Some (of_nat (node_size es))" "unat (of_nat (node_size es) :: u16) = node_size es"
    using bnode_access(3,8) [OF assms(3)] unat_of_nat_u16 by simp_all
  have lt: "unat ?p + 1 < 2 ^ 64" using assms(2) by (simp add: mem_cap_def)
  then have up: "unat (?p + 1) = unat ?p + 1" by (simp add: unat_add_lem [THEN iffD1])
  have "?p < ?p + 1" using up by (simp add: word_less_nat_alt)
  moreover have "?p + 1 \<noteq> 0" using up by (metis add_is_0 one_neq_zero unat_0)
  moreover have "pages s ?p = None" using assms(1) by (auto simp: mem_ok_def)
  ultimately show ?thesis
    using assms(1,4) nb up less_trans [of _ ?p "?p + 1"]
    by (simp add: mem_pager_def mem_NewPage_def mem_ok_def mem_cap_def)
qed

interpretation mem: page_store mem_pager pages mem_ok mem_cap
proof
  show "GetPage mem_pager s p = Some b" if "mem_ok s" "pages s p = Some b" for s p b
    using that by (simp add: mem_pager_def mem_GetPage_def)
  show "\<exists>s'. DelPage mem_pager s p = Some s' \<and> mem_ok s' \<and> pages s' = (pages s)(p := None) \<and> mem_cap s \<le> mem_cap s'"
    if "mem_ok s" "pages s p = Some b" for s p b
    using that by (auto simp: mem_pager_def mem_DelPage_def mem_ok_def mem_cap_def)
qed (rule mem_new_page)

section \<open>Sequences of operations\<close>

datatype cmd = Add bytes bytes | Del bytes

fun cmd_key :: "cmd \<Rightarrow> bytes" where
  "cmd_key (Add k v) = k"
| "cmd_key (Del k) = k"

fun cmd_usual :: "cmd \<Rightarrow> bool" where
  "cmd_usual (Add k v) = usual (k, v)"
| "cmd_usual (Del k) = True"

fun mem_run :: "memTest \<Rightarrow> cmd list \<Rightarrow> memTest option" where
  "mem_run c [] = Some c"
| "mem_run c (Add k v # cs) = do { c \<leftarrow> mem_add c k v; mem_run c cs }"
| "mem_run c (Del k # cs) = do { (_, c) \<leftarrow> mem_del c k; mem_run c cs }"

text \<open>What a map does under the same operations.\<close>

fun map_run :: "(bytes \<Rightarrow> bytes option) \<Rightarrow> cmd list \<Rightarrow> bytes \<Rightarrow> bytes option" where
  "map_run m [] = m"
| "map_run m (Add k v # cs) = map_run (m(k \<mapsto> v)) cs"
| "map_run m (Del k # cs) = map_run (m(k := None)) cs"

text \<open>The invariant between operations, with \<open>n\<close> a bound of the height.\<close>

definition mem_inv :: "nat \<Rightarrow> nat \<Rightarrow> memTest \<Rightarrow> bool" where
  "mem_inv n L c \<longleftrightarrow> mem_ok (store c) \<and>
     (\<exists>h xs. holds (pages (store c)) (tree_Root c) h xs (dom (pages (store c))) \<and> h \<le> n \<and>
        map_of xs = ref c \<and> (L > 0 \<longrightarrow> key_len L xs))"

lemma replaces_dom:
  assumes "replaces m m' (dom m) D" "D \<subseteq> dom m'"
  shows "dom m' = D"
proof
  show "dom m' \<subseteq> D"
  proof
    fix q assume "q \<in> dom m'"
    then show "q \<in> D" using replacesD(1,3) [OF assms(1), of q] 
      by (cases "q \<in> D"; cases "m q") (simp_all add: domIff)
  qed
qed (rule assms(2))

lemma key_len_put_kv: "key_len L xs \<Longrightarrow> length k = L \<Longrightarrow> key_len L (put_kv k v xs)"
  by (auto simp: key_len_def put_kv_def)

lemma mem_add_inv:
  assumes "mem_inv n L c" "usual (k, v)" "2 * n + 3 \<le> mem_cap (store c)" "0 < L \<longrightarrow> length k = L"
  shows "\<exists>c'. mem_add c k v = Some c' \<and> mem_inv (Suc n) L c' \<and> ref c' = (ref c)(k \<mapsto> v) \<and>
    mem_cap (store c) \<le> mem_cap (store c') + (2 * n + 3)"
proof -
  obtain h xs where h: "mem_ok (store c)" "holds (pages (store c)) (tree_Root c) h xs (dom (pages (store c)))"
    "h \<le> n" "map_of xs = ref c" "L > 0 \<longrightarrow> key_len L xs"
    using assms(1) by (auto simp: mem_inv_def)
  have "2 * h + 3 \<le> mem_cap (store c)" using assms(3) h(3) by simp
  from mem.Insert_holds [OF h(1,2) assms(2) this]
  obtain r s h' D where i: "Insert mem_pager (store c) (tree_Root c) k v = Some (r, s)" "mem_ok s"
    "holds (pages s) r h' (put_kv k v xs) D" "replaces (pages (store c)) (pages s) (dom (pages (store c))) D"
    "h' \<le> Suc h" "mem_cap (store c) \<le> mem_cap s + (2 * h + 3)" by blast
  have "dom (pages s) = D" by (rule replaces_dom [OF i(4) holds_sorted(3) [OF i(3)]])
  then have "mem_inv (Suc n) L (c\<lparr>tree_Root := r, store := s, ref := (ref c)(k \<mapsto> v)\<rparr>)"
    using i h assms(4) by (auto simp: mem_inv_def map_of_put_kv key_len_put_kv
        intro!: exI [of _ h'] exI [of _ "put_kv k v xs"])
  then show ?thesis using i(1,6) h(3) by (simp add: mem_add_def)
qed

lemma mem_del_inv:
  assumes "mem_inv n L c" "Suc n \<le> mem_cap (store c)" "0 < L"
  shows "\<exists>c'. mem_del c k = Some (ref c k \<noteq> None, c') \<and> mem_inv n L c' \<and> ref c' = (ref c)(k := None) \<and>
    mem_cap (store c) \<le> mem_cap (store c') + Suc n"
proof -
  obtain h xs where h: "mem_ok (store c)" "holds (pages (store c)) (tree_Root c) h xs (dom (pages (store c)))"
    "h \<le> n" "map_of xs = ref c" "key_len L xs"
    using assms(1,3) by (auto simp: mem_inv_def)
  have mem: "k \<in> fst ` set xs \<longleftrightarrow> ref c k \<noteq> None"
    using h(4) by (metis map_of_eq_None_iff)
  have "Suc h \<le> mem_cap (store c)" using assms(2) h(3) by simp
  note d = mem.Delete_holds [OF h(1,2,5) this, of k]
  show ?thesis
  proof (cases "k \<in> fst ` set xs")
    case False
    then have "(ref c)(k := None) = ref c" using mem by (auto simp: fun_upd_idem)
    then show ?thesis using False d mem assms(1) by (simp add: mem_del_def)
  next
    case True
    then obtain r s D where i: "Delete mem_pager (store c) (tree_Root c) k = Some (True, r, s)" "mem_ok s"
      "holds (pages s) r h (del_kv k xs) D" "replaces (pages (store c)) (pages s) (dom (pages (store c))) D"
      "mem_cap (store c) \<le> mem_cap s + Suc h" using d by auto
    have "dom (pages s) = D" by (rule replaces_dom [OF i(4) holds_sorted(3) [OF i(3)]])
    then have "mem_inv n L (c\<lparr>tree_Root := r, store := s, ref := (ref c)(k := None)\<rparr>)"
      using i h by (auto simp: mem_inv_def map_of_del_kv intro!: exI [of _ h] exI [of _ "del_kv k xs"])
    then show ?thesis using i(1,5) h(3) True mem by (simp add: mem_del_def)
  qed
qed

lemma mem_inv_get:
  assumes "mem_inv n L c"
  shows "mem_get c k = Some (ref c k)"
  using assms mem.Get_holds [of "store c"] by (auto simp: mem_inv_def mem_get_def)

lemma mem_inv_new: "mem_inv 0 L newMemTest"
  by (auto simp: mem_inv_def newMemTest_def mem_ok_def holds_def intro!: exI [of _ "[]"])

lemma mem_run_inv:
  assumes "mem_inv n L c" "\<forall>x \<in> set cs. cmd_usual x"
    "(\<forall>x \<in> set cs. \<exists>k v. x = Add k v) \<and> L = 0 \<or> 0 < L \<and> (\<forall>x \<in> set cs. length (cmd_key x) = L)"
    "length cs * (2 * (n + length cs) + 3) \<le> mem_cap (store c)"
  shows "\<exists>c' m. mem_run c cs = Some c' \<and> mem_inv m L c' \<and> ref c' = map_run (ref c) cs"
  using assms
proof (induction cs arbitrary: n c)
  case Nil
  then show ?case by auto
next
  case (Cons x cs)
  have cap: "2 * n + 3 + length cs * (2 * (Suc n + length cs) + 3) \<le> mem_cap (store c)"
    using Cons.prems(4) by (simp add: algebra_simps)
  have step: "\<exists>c1. mem_run c (x # cs) = mem_run c1 cs \<and> mem_inv (Suc n) L c1 \<and>
      map_run (ref c) (x # cs) = map_run (ref c1) cs \<and> mem_cap (store c) \<le> mem_cap (store c1) + (2 * n + 3)"
  proof (cases x)
    case (Add k v)
    have "2 * n + 3 \<le> mem_cap (store c)" using cap by linarith
    then obtain c1 where "mem_add c k v = Some c1" "mem_inv (Suc n) L c1" "ref c1 = (ref c)(k \<mapsto> v)"
      "mem_cap (store c) \<le> mem_cap (store c1) + (2 * n + 3)"
      using mem_add_inv [OF Cons.prems(1), of k v] Cons.prems(2,3) Add by auto
    then show ?thesis using Add by (intro exI [of _ c1]) simp
  next
    case (Del k)
    then have L: "0 < L" using Cons.prems(3) by auto
    obtain c1 where "mem_del c k = Some (ref c k \<noteq> None, c1)" "mem_inv n L c1" "ref c1 = (ref c)(k := None)"
      "mem_cap (store c) \<le> mem_cap (store c1) + Suc n"
      using mem_del_inv [OF Cons.prems(1) _ L, of k] cap by auto
    then show ?thesis using Del by (intro exI [of _ c1]) (auto simp: mem_inv_def intro: le_SucI)
  qed
  then obtain c1 where c1: "mem_run c (x # cs) = mem_run c1 cs" "mem_inv (Suc n) L c1"
    "map_run (ref c) (x # cs) = map_run (ref c1) cs" "mem_cap (store c) \<le> mem_cap (store c1) + (2 * n + 3)" by blast
  show ?case unfolding c1(1,3) using Cons.prems(2,3) cap c1(4) by (intro Cons.IH [OF c1(2)]) auto
qed

lemma ref_new: "ref newMemTest = (\<lambda>_. None)"
  by (simp add: newMemTest_def)

lemma mem_run_new:
  assumes "\<forall>x \<in> set cs. cmd_usual x" "length cs \<le> 2 ^ 30"
    "(\<forall>x \<in> set cs. \<exists>k v. x = Add k v) \<and> L = 0 \<or> 0 < L \<and> (\<forall>x \<in> set cs. length (cmd_key x) = L)"
  shows "\<exists>c m. mem_run newMemTest cs = Some c \<and> mem_inv m L c \<and> ref c = map_run (\<lambda>_. None) cs"
proof -
  have "length cs * (2 * (0 + length cs) + 3) \<le> 2 ^ 30 * (2 * 2 ^ 30 + 3)"
    using assms(2) by (intro mult_le_mono add_le_mono) simp_all
  moreover have "(2 ^ 30 * (2 * 2 ^ 30 + 3) :: nat) \<le> mem_cap (store newMemTest)"
    by (simp add: mem_cap_def newMemTest_def)
  ultimately have "length cs * (2 * (0 + length cs) + 3) \<le> mem_cap (store newMemTest)" by (rule le_trans)
  from mem_run_inv [OF mem_inv_new assms(1,3) this] show ?thesis by (simp only: ref_new)
qed

end
