(* ===== verification/Tree_Props.thy ===== *)
theory Tree_Props
  imports Mem_Tree
begin

text \<open>
  What the B+tree promises: over any page store that keeps the contract of the
  locale \<open>page_store\<close>, \<open>Insert\<close>, \<open>Get\<close> and \<open>Delete\<close> are the update, the lookup and
  the removal of a finite map, and they give up exactly the pages they replace. Over the in-memory
  store this holds for every sequence of operations.
\<close>

lemma mem_inv_empty:
  assumes "mem_inv n L c" "ref c = (\<lambda>_. None)"
  shows "tree_Root c = 0 \<and> pages (store c) = (\<lambda>_. None)"
proof -
  obtain h xs where h: "holds (pages (store c)) (tree_Root c) h xs (dom (pages (store c)))" "map_of xs = ref c"
    using assms(1) by (auto simp: mem_inv_def)
  have xs: "xs = []" using h(2) assms(2) by (cases xs) (auto simp: fun_eq_iff split: if_splits)
  have "tree_Root c = 0"
  proof (rule ccontr)
    assume "tree_Root c \<noteq> 0"
    then obtain t b where "good (pages (store c)) h t b" "contents t = xs" using holds_nonempty [OF h(1)] by metis
    then show False using wf_contents [OF goodD(2)] xs by blast
  qed
  moreover from this have "dom (pages (store c)) = {}" using h(1) by (simp add: holds_def)
  ultimately show ?thesis by auto
qed

section \<open>Properties\<close>

text \<open>C2. Any sequence of insertions and deletions of keys of one length, with entry sizes in the range in which nodes
  split safely, runs without panic on the in-memory store, and afterwards a lookup of any key gives what a finite map
  gives after the same operations.\<close>

theorem tree_refines_map:
  assumes "0 < L" "\<forall>x \<in> set cs. cmd_usual x \<and> length (cmd_key x) = L" "length cs \<le> 2 ^ 30"
  shows "\<exists>c. mem_run newMemTest cs = Some c \<and> ref c = map_run (\<lambda>_. None) cs \<and>
    (\<forall>k. mem_get c k = Some (map_run (\<lambda>_. None) cs k))"
proof -
  obtain c m where c: "mem_run newMemTest cs = Some c" "mem_inv m L c" "ref c = map_run (\<lambda>_. None) cs"
    using mem_run_new [of cs L] assms by auto
  then show ?thesis using mem_inv_get [OF c(2)] by simp
qed

definition key_a :: bytes where "key_a = replicate 12 97"
definition key_b :: bytes where "key_b = replicate 12 98"

theorem tree_refines_map_witness:
  "\<exists>c. mem_run newMemTest [Add key_a [1], Add key_b [2], Del key_a] = Some c \<and>
     mem_get c key_b = Some (Some [2]) \<and> mem_get c key_a = Some None"
proof -
  let ?cs = "[Add key_a [1], Add key_b [2], Del key_a]"
  have "\<exists>c. mem_run newMemTest ?cs = Some c \<and> ref c = map_run (\<lambda>_. None) ?cs \<and>
      (\<forall>k. mem_get c k = Some (map_run (\<lambda>_. None) ?cs k))"
    by (rule tree_refines_map [of 12]) (auto simp: key_a_def key_b_def usual_def)
  moreover have "key_a \<noteq> key_b" by (simp add: key_a_def key_b_def)
  ultimately show ?thesis by (auto simp del: mem_run.simps)
qed

text \<open>Any sequence of insertions, with keys of any lengths from 12 to 460 bytes and entries of at most 920 bytes,
  runs without panic, and every key is found with the value inserted last.\<close>

theorem tree_inserts_refine_map:
  assumes "\<forall>x \<in> set kvs. usual x" "length kvs \<le> 2 ^ 30"
  shows "\<exists>c. mem_run newMemTest (map (\<lambda>x. Add (fst x) (snd x)) kvs) = Some c \<and>
    (\<forall>k. mem_get c k = Some (map_of (rev kvs) k))"
proof -
  let ?cs = "map (\<lambda>x. Add (fst x) (snd x)) kvs"
  have run: "map_run m (map (\<lambda>x. Add (fst x) (snd x)) kvs) = m ++ map_of (rev kvs)" for m kvs
    by (induction kvs arbitrary: m) auto
  obtain c n where c: "mem_run newMemTest ?cs = Some c" "mem_inv n 0 c" "ref c = map_run (\<lambda>_. None) ?cs"
    using mem_run_new [of ?cs 0] assms by auto
  then have "ref c = map_of (rev kvs)" using run [of "\<lambda>_. None" kvs] by simp
  then show ?thesis using mem_inv_get [OF c(2)] c(1) by simp
qed

theorem tree_inserts_refine_map_witness:
  "\<exists>c. mem_run newMemTest (map (\<lambda>x. Add (fst x) (snd x)) [(key_a, [1]), (key_b @ [7], []), (key_a, [5])]) = Some c \<and>
     mem_get c key_a = Some (Some [5])"
proof -
  let ?kvs = "[(key_a, [1]), (key_b @ [7], []), (key_a, [5])]"
  have "\<exists>c. mem_run newMemTest (map (\<lambda>x. Add (fst x) (snd x)) ?kvs) = Some c \<and>
      (\<forall>k. mem_get c k = Some (map_of (rev ?kvs) k))"
    by (rule tree_inserts_refine_map) (auto simp: key_a_def key_b_def usual_def)
  then show ?thesis by (auto simp del: mem_run.simps)
qed

text \<open>C13. No page is leaked: when the operations leave the map empty, the root pointer is null and the store has no page.\<close>

theorem tree_empties:
  assumes "0 < L" "\<forall>x \<in> set cs. cmd_usual x \<and> length (cmd_key x) = L" "length cs \<le> 2 ^ 30"
    "map_run (\<lambda>_. None) cs = (\<lambda>_. None)"
  shows "\<exists>c. mem_run newMemTest cs = Some c \<and> tree_Root c = 0 \<and> pages (store c) = (\<lambda>_. None)"
proof -
  obtain c m where c: "mem_run newMemTest cs = Some c" "mem_inv m L c" "ref c = map_run (\<lambda>_. None) cs"
    using mem_run_new [of cs L] assms by auto
  then show ?thesis using mem_inv_empty [OF c(2)] assms(4) by simp
qed

theorem tree_empties_witness:
  "\<exists>c. mem_run newMemTest [Add key_a [1], Add key_b [2], Del key_a, Del key_b] = Some c \<and>
     tree_Root c = 0 \<and> pages (store c) = (\<lambda>_. None)"
  by (rule tree_empties [of 12]) (auto simp: key_a_def key_b_def usual_def fun_eq_iff)

text \<open>C3. On every page store that keeps the contract, an insertion into a tree with content \<open>xs\<close> returns a root whose
  tree has the content with the pair put in its place. The old pages are replaced by the new ones and nothing else
  of the store changes; at most \<open>2 * h + 3\<close> pages are allocated for a tree of height \<open>h\<close>.\<close>

theorem Insert_contract:
  assumes "page_store P view ok cap" "ok s" "holds (view s) root h xs D" "usual (k, v)" "2 * h + 3 \<le> cap s"
  shows "\<exists>root' s' h' D'. Insert P s root k v = Some (root', s') \<and> ok s' \<and>
    holds (view s') root' h' (put_kv k v xs) D' \<and> replaces (view s) (view s') D D' \<and>
    h' \<le> Suc h \<and> cap s \<le> cap s' + (2 * h + 3)"
  using page_store.Insert_holds [OF assms] by blast

theorem Insert_contract_witness:
  "\<exists>root s h D. Insert mem_pager (store newMemTest) 0 key_a [1] = Some (root, s) \<and>
     holds (pages s) root h [(key_a, [1])] D"
proof -
  have "\<exists>root' s' h' D'. Insert mem_pager (store newMemTest) 0 key_a [1] = Some (root', s') \<and> mem_ok s' \<and>
      holds (pages s') root' h' (put_kv key_a [1] []) D' \<and> replaces (pages (store newMemTest)) (pages s') {} D' \<and>
      h' \<le> Suc 0 \<and> mem_cap (store newMemTest) \<le> mem_cap s' + (2 * 0 + 3)"
    by (rule Insert_contract [OF mem.page_store_axioms])
      (simp_all add: newMemTest_def mem_ok_def holds_def usual_def key_a_def mem_cap_def)
  then show ?thesis by (auto simp: put_kv_def)
qed

text \<open>C5. On every page store that keeps the contract, a lookup in a tree with content \<open>xs\<close> is the lookup in that list.\<close>

theorem Get_contract:
  assumes "page_store P view ok cap" "ok s" "holds (view s) root h xs D"
  shows "Get P s root k = Some (map_of xs k)"
  by (rule page_store.Get_holds [OF assms])

theorem Get_contract_witness: "Get mem_pager (store newMemTest) 0 key_a = Some (map_of [] key_a)"
  by (rule Get_contract [OF mem.page_store_axioms, where h = 0 and D = "{}"])
    (simp_all add: newMemTest_def mem_ok_def holds_def)

text \<open>C4. On every page store that keeps the contract, and for keys of one length, a deletion reports whether the key was
  there. If it was, the tree at the new root has the content without the key and the pages are exchanged as for an
  insertion; otherwise root and store are unchanged.\<close>

theorem Delete_contract:
  assumes "page_store P view ok cap" "ok s" "holds (view s) root h xs D" "key_len L xs" "Suc h \<le> cap s"
  shows "if k \<in> fst ` set xs
    then \<exists>root' s' D'. Delete P s root k = Some (True, root', s') \<and> ok s' \<and>
      holds (view s') root' h (del_kv k xs) D' \<and> replaces (view s) (view s') D D' \<and> cap s \<le> cap s' + Suc h
    else Delete P s root k = Some (False, root, s)"
  by (rule page_store.Delete_holds [OF assms])

theorem Delete_contract_witness:
  "\<exists>root s root' s' D. Insert mem_pager (store newMemTest) 0 key_a [1] = Some (root, s) \<and>
     Delete mem_pager s root key_a = Some (True, root', s') \<and> holds (pages s') root' 0 [] D"
proof -
  obtain root s where i: "Insert mem_pager (store newMemTest) 0 key_a [1] = Some (root, s)" "mem_ok s"
    "holds (pages s) root 0 [(key_a, [1])] {root}" "mem_cap (store newMemTest) \<le> Suc (mem_cap s)"
    using mem.Insert_first [of "store newMemTest" key_a "[1]"]
    by (auto simp: newMemTest_def mem_ok_def usual_def key_a_def mem_cap_def)
  have "Suc 0 \<le> mem_cap s" using i(4) by (simp add: newMemTest_def mem_cap_def)
  moreover have "key_len 12 [(key_a, [1])]" by (simp add: key_a_def)
  ultimately show ?thesis
    using Delete_contract [OF mem.page_store_axioms i(2,3), of 12 key_a] i(1) by (auto simp: del_kv_def)
qed

end
