(* ===== verification/Node_Props.thy ===== *)
theory Node_Props
  imports NodeOps
begin

text \<open>
  What the node layer promises, for nodes as byte slices: the key order, the binary search, the
  layout of an appended entry, the entries after an edit, and the two ways a split can go.
\<close>

section \<open>Properties\<close>

text \<open>\<open>CompareKeys\<close> is the three-way comparison of the lexicographic order of byte strings.\<close>

theorem CompareKeys_lexicographic:
  "CompareKeys a b = (if a < b then -1 else if a = b then 0 else 1)"
  by (simp add: CompareKeys_def cmp_eq)

text \<open>The binary search \<open>nodeLookupLE\<close> ends on every stored node with sorted keys, whatever its size, and returns a
  position of the node: every later key is greater than the key sought, and the key there is not, unless the key sought
  is less than all of them and the position is 0.\<close>

theorem nodeLookupLE_finds:
  assumes "bnode b t es" "sorted_wrt (<) (ekeys es)" "es \<noteq> []"
  shows "\<exists>i < length es. nodeLookupLE b key = Some (of_nat i) \<and>
    (\<forall>j. i < j \<longrightarrow> j < length es \<longrightarrow> key < ekeys es ! j) \<and>
    (ekeys es ! i \<le> key \<or> i = 0 \<and> key < ekeys es ! 0)"
proof -
  let ?c = "count_le (ekeys es) key" and ?i = "le_index (ekeys es) key"
  have i: "?i < length es" using le_index_less [of "ekeys es" key] assms(3) by simp
  have "key < ekeys es ! j" if "?i < j" "j < length es" for j
    using that count_le_above [OF assms(2), of key j] by (simp add: le_index_def)
  moreover have "ekeys es ! ?i \<le> key \<or> ?i = 0 \<and> key < ekeys es ! 0"
  proof (cases "?c = 0")
    case True
    then show ?thesis using count_le_above [OF assms(2), of key 0] assms(3) by (simp add: le_index_def)
  next
    case False
    then show ?thesis using count_le_below [of ?i "ekeys es" key] by (simp add: le_index_def)
  qed
  ultimately show ?thesis
    using nodeLookupLE_filled [OF assms(1,2)] i by (intro exI [of _ ?i]) simp
qed

definition two_entries :: "entry list" where
  "two_entries = [(0, [1, 2], [3]), (0, [1, 5], [])]"

theorem nodeLookupLE_finds_witness:
  "\<exists>b. bnode b BNODE_LEAF two_entries \<and> (\<exists>i < length two_entries. nodeLookupLE b [1, 7] = Some (of_nat i) \<and>
    (\<forall>j. i < j \<longrightarrow> j < length two_entries \<longrightarrow> [1, 7] < ekeys two_entries ! j) \<and>
    (ekeys two_entries ! i \<le> [1, 7] \<or> i = 0 \<and> [1, 7] < ekeys two_entries ! 0))"
proof -
  obtain b where b: "bnode b BNODE_LEAF two_entries"
    using bnode_build [of two_entries 4096 BNODE_LEAF] by (auto simp: two_entries_def)
  moreover have "sorted_wrt (<) (ekeys two_entries)" "two_entries \<noteq> []" by (simp_all add: two_entries_def)
  ultimately show ?thesis using nodeLookupLE_finds [OF b, of "[1, 7]"] by blast
qed

text \<open>Appending an entry that fits to a node under construction stores it: pointer, key and value read back as
  given, the entries before it are unchanged, and the length of the slice stays.\<close>

theorem nodeAppendKV_stores:
  assumes "filled b t n es" "length es < n" "4 + 10 * n + kvoff (es @ [(p, k, v)]) \<le> length b"
  shows "\<exists>b'. nodeAppendKV b (of_nat (length es)) p k v = Some b' \<and> length b' = length b \<and>
    getPtr b' (of_nat (length es)) = Some p \<and> getKey b' (of_nat (length es)) = Some k \<and>
    getVal b' (of_nat (length es)) = Some v \<and>
    (\<forall>j < length es. getKey b' (of_nat j) = getKey b (of_nat j) \<and> getVal b' (of_nat j) = getVal b (of_nat j) \<and>
       getPtr b' (of_nat j) = getPtr b (of_nat j))"
proof -
  obtain b' where b': "nodeAppendKV b (of_nat (length es)) p k v = Some b'"
    "filled b' t n (es @ [(p, k, v)])" "length b' = length b"
    using nodeAppendKV_filled [OF assms] by blast
  note rd = filled_getPtr filled_getKey filled_getVal
  show ?thesis
    using b'(1,3) rd [OF b'(2)] rd [OF assms(1)] by (intro exI [of _ b']) (simp add: nth_append)
qed

theorem nodeAppendKV_stores_witness:
  "\<exists>b b'. filled b BNODE_LEAF 2 [(0, [1, 2], [3])] \<and> nodeAppendKV b 1 9 [7] [8, 9] = Some b' \<and>
     getKey b' 1 = Some [7] \<and> getKey b' 0 = Some [1, 2]"
proof -
  obtain b where b: "filled b BNODE_LEAF 2 [(0, [1, 2], [3])]" "length b = 4096"
    using filled_build [of 2 "[(0, [1, 2], [3])]" 4096 BNODE_LEAF] by auto
  then have "getKey b 0 = Some [1, 2]" using filled_getKey [OF b(1), of 0] by simp
  then show ?thesis using nodeAppendKV_stores [OF b(1), of 9 "[7]" "[8, 9]"] b by auto
qed

text \<open>Inserting a pair into a leaf and deleting it again are inverse: the inserted key and value are at their
  position, and the node left by the deletion stores the entries of the original.\<close>

theorem leafInsert_leafDelete:
  assumes "bnode old t es" "i \<le> length es" "node_size es + 14 + length k + length v \<le> BTREE_PAGE_SIZE"
  shows "\<exists>b b'. leafInsert (make_bytes (2 * BTREE_PAGE_SIZE)) old (of_nat i) k v = Some b \<and>
    getKey b (of_nat i) = Some k \<and> getVal b (of_nat i) = Some v \<and>
    leafDelete b (of_nat i) = Some b' \<and> bnode b' BNODE_LEAF es"
proof -
  let ?fs = "take i es @ (0, k, v) # drop i es"
  have sz: "node_size ?fs = node_size es + 14 + length k + length v"
  proof -
    have "kvoff (take i es) + kvoff (drop i es) = kvoff es"
      by (simp only: kvoff_simps(3) [symmetric] append_take_drop_id)
    then show ?thesis using assms(2) by (simp add: node_size_def)
  qed
  obtain b where b: "leafInsert (make_bytes (2 * BTREE_PAGE_SIZE)) old (of_nat i) k v = Some b" "bnode b BNODE_LEAF ?fs"
    using leafInsert_bnode [OF assms(1,2), of k v "make_bytes (2 * BTREE_PAGE_SIZE)"] sz assms(3)
    by (auto simp: BTREE_PAGE_SIZE_def)
  have i: "i < length ?fs" "?fs ! i = (0, k, v)" "take i ?fs @ drop (Suc i) ?fs = es"
    using assms(2) by (simp_all add: nth_append)
  obtain b' where "leafDelete b (of_nat i) = Some b'" "bnode b' BNODE_LEAF es"
    using leafDelete_bnode [OF b(2) i(1)] sz assms(3) i(3) by auto
  then show ?thesis using b bnode_access(5,6) [OF b(2) i(1)] i(2) by auto
qed

theorem leafInsert_leafDelete_witness:
  "\<exists>old b b'. bnode old BNODE_LEAF two_entries \<and> leafInsert (make_bytes (2 * BTREE_PAGE_SIZE)) old 1 [1, 3] [] = Some b \<and>
    getKey b 1 = Some [1, 3] \<and> leafDelete b 1 = Some b' \<and> bnode b' BNODE_LEAF two_entries"
proof -
  obtain old where old: "bnode old BNODE_LEAF two_entries"
    using bnode_build [of two_entries 4096 BNODE_LEAF] by (auto simp: two_entries_def)
  show ?thesis
    using leafInsert_leafDelete [OF old, of 1 "[1, 3]" "[]"] old
    by (auto simp: two_entries_def BTREE_PAGE_SIZE_def)
qed

text \<open>C33. A node that overflows its page by at most 940 bytes, with entries of 16 to 1500 bytes, is split into two
  non-empty nodes that fit a page and together store exactly the entries of the node, in order.\<close>

theorem nodeSplit3_splits:
  assumes "bnode old t es" "\<forall>e \<in> set es. mid_entry e" "BTREE_PAGE_SIZE < node_size es" "node_size es \<le> 5036"
  shows "\<exists>l r ls rs. nodeSplit3 old = Some [l, r] \<and> bnode l t ls \<and> bnode r t rs \<and> ls @ rs = es \<and>
    ls \<noteq> [] \<and> rs \<noteq> [] \<and> node_size ls \<le> BTREE_PAGE_SIZE \<and> node_size rs \<le> BTREE_PAGE_SIZE"
proof -
  note fits = split_idx_fits [OF assms(2) assms(3) [unfolded BTREE_PAGE_SIZE_def] assms(4)]
  obtain l r where "nodeSplit3 old = Some [l, r]" "bnode l t (take (split_idx es) es)"
    "bnode r t (drop (split_idx es) es)"
    using nodeSplit3_two [OF assms] by blast
  then show ?thesis
    using fits by (intro exI [of _ l] exI [of _ r] exI [of _ "take (split_idx es) es"]
        exI [of _ "drop (split_idx es) es"]) (auto simp: BTREE_PAGE_SIZE_def)
qed

theorem nodeSplit3_splits_witness:
  "\<exists>old l r. bnode old BNODE_LEAF (replicate 40 (0, replicate 50 1, replicate 50 2)) \<and> nodeSplit3 old = Some [l, r]"
proof -
  let ?es = "replicate 40 (0, replicate 50 1, replicate 50 2) :: entry list"
  have sz: "node_size ?es = 4564" by (simp add: node_size_def kvoff_def sum_list_replicate)
  obtain old where old: "bnode old BNODE_LEAF ?es" using bnode_build [of ?es 8192 BNODE_LEAF] sz by auto
  moreover have "\<exists>l r ls rs. nodeSplit3 old = Some [l, r] \<and> bnode l BNODE_LEAF ls \<and> bnode r BNODE_LEAF rs \<and> ls @ rs = ?es \<and>
    ls \<noteq> [] \<and> rs \<noteq> [] \<and> node_size ls \<le> BTREE_PAGE_SIZE \<and> node_size rs \<le> BTREE_PAGE_SIZE"
    by (rule nodeSplit3_splits [OF old]) (simp_all only: sz BTREE_PAGE_SIZE_def, simp_all add: mid_entry_def)
  ultimately show ?thesis by blast
qed

text \<open>The split weighs only the key and value bytes, never the ten bytes of pointer and offset of each entry. With
  205 entries of six bytes of key and value the node has outgrown its page, the split leaves every entry on the left in both
  rounds, and the copy into the page-sized slice panics.\<close>

theorem nodeSplit3_small_entries_panic:
  assumes "bnode old t es" "length es = 205" "\<forall>e \<in> set es. kvsize e = 10"
  shows "nodeSplit3 old = None"
proof -
  have k: "kvoff (take m es) = 10 * m" if "m \<le> 205" for m
  proof -
    have "\<forall>e \<in> set (take m es). kvsize e = 10" using assms(3) by (auto dest: in_set_takeD)
    then show ?thesis
      using that assms(2) kvoff_ge [of "take m es" 10] kvoff_le [of "take m es" 10] by auto
  qed
  then have n: "node_size es = 4104" using k [of 205] assms(2) by (simp add: node_size_def)
  have small: "\<forall>e \<in> set es. kvsize e \<le> 10" using assms(3) by simp
  obtain l r where lr: "bnode l t es" "nodeSplit3 old = do {
      (leftleft, middle) \<leftarrow> nodeSplit2 (make_bytes BTREE_PAGE_SIZE) (make_bytes BTREE_PAGE_SIZE) l;
      Some [leftleft, middle, r] }"
    using nodeSplit3_small_reduces [OF assms(1) small] n by (auto simp: BTREE_PAGE_SIZE_def)
  have "nodeSplit2 (make_bytes BTREE_PAGE_SIZE) (make_bytes BTREE_PAGE_SIZE) l = None"
    using k [of 204] assms(2) split_idx_small [OF small]
    by (intro nodeSplit2_overflow [OF lr(1), of 204]) (simp_all add: BTREE_PAGE_SIZE_def)
  then show ?thesis using lr(2) by simp
qed

theorem nodeSplit3_small_entries_panic_witness:
  "\<exists>old. bnode old BNODE_LEAF (replicate 205 (0, replicate 4 1, replicate 2 2)) \<and> nodeSplit3 old = None"
proof -
  let ?es = "replicate 205 (0, replicate 4 1, replicate 2 2) :: entry list"
  obtain old where old: "bnode old BNODE_LEAF ?es"
    using bnode_build [of ?es 8192 BNODE_LEAF] by (auto simp: node_size_def kvoff_def sum_list_replicate)
  have "nodeSplit3 old = None" by (rule nodeSplit3_small_entries_panic [OF old]) simp_all
  then show ?thesis using old by blast
qed

end
