(* ===== verification/Meta.thy ===== *)
theory Meta
  imports Prelude
begin

text \<open>
  The meta page of the database file: \<^verbatim>\<open>WriteMeta\<close> and \<^verbatim>\<open>ReadMeta\<close> of
  \<^verbatim>\<open>internal/storage/page.go\<close>, and the checksummed versions of
  \<^verbatim>\<open>internal/storage/recovery.go\<close>. \<^verbatim>\<open>crc32.ChecksumIEEE\<close> is the reflected CRC-32
  with polynomial \<^verbatim>\<open>0xEDB88320\<close>, written bit by bit. The fields survive a write and a
  read, and a page with one altered byte is never accepted.
\<close>

section \<open>CRC-32\<close>

definition crc_bit :: "u32 \<Rightarrow> u32" where
  "crc_bit c = (if bit c 0 then drop_bit 1 c XOR 0xEDB88320 else drop_bit 1 c)"

definition crc_byte :: "byte \<Rightarrow> u32 \<Rightarrow> u32" where
  "crc_byte b c = (crc_bit ^^ 8) (c XOR ucast b)"

definition ChecksumIEEE :: "bytes \<Rightarrow> u32" where
  "ChecksumIEEE bs = NOT (fold crc_byte bs (NOT 0))"

section \<open>The meta page\<close>

definition PageSize :: nat where "PageSize = 4096"

definition sigSize :: nat where "sigSize = 16"

definition metaSig :: bytes where
  "metaSig = map of_char ''SvacaraDB01'' @ replicate 5 0"

definition metaOffRoot :: nat where "metaOffRoot = sigSize"
definition metaOffUsed :: nat where "metaOffUsed = sigSize + 8"
definition metaOffFree :: nat where "metaOffFree = sigSize + 16"
definition metaSize :: nat where "metaSize = sigSize + 8 + 8 + 8 + 8 + 8 + 8"

lemmas meta_offsets = metaOffRoot_def metaOffUsed_def metaOffFree_def sigSize_def

record meta =
  m_root :: u64
  m_flushed :: u64
  m_headPage :: u64
  m_headSeq :: u64
  m_tailPage :: u64
  m_tailSeq :: u64

definition zero_meta :: meta where
  "zero_meta = \<lparr>m_root = 0, m_flushed = 0, m_headPage = 0, m_headSeq = 0, m_tailPage = 0, m_tailSeq = 0\<rparr>"

definition WriteMeta :: "bytes \<Rightarrow> meta \<Rightarrow> bytes option" where
  "WriteMeta page m = do {
     _ \<leftarrow> slice_to page sigSize;
     page \<leftarrow> copy_at page 0 metaSig;
     page \<leftarrow> put_at page metaOffRoot (le_bytes 8 (m_root m));
     page \<leftarrow> put_at page metaOffUsed (le_bytes 8 (m_flushed m));
     page \<leftarrow> put_at page metaOffFree (le_bytes 8 (m_headPage m));
     page \<leftarrow> put_at page (metaOffFree + 8) (le_bytes 8 (m_headSeq m));
     page \<leftarrow> put_at page (metaOffFree + 16) (le_bytes 8 (m_tailPage m));
     put_at page (metaOffFree + 24) (le_bytes 8 (m_tailSeq m))
   }"

definition ReadMeta :: "bytes \<Rightarrow> (meta \<times> bool) option" where
  "ReadMeta page = do {
     sig \<leftarrow> slice_to page sigSize;
     (if sig \<noteq> metaSig then Some (zero_meta, False)
      else do {
        root \<leftarrow> u64_at page metaOffRoot;
        flushed \<leftarrow> u64_at page metaOffUsed;
        headPage \<leftarrow> u64_at page metaOffFree;
        headSeq \<leftarrow> u64_at page (metaOffFree + 8);
        tailPage \<leftarrow> u64_at page (metaOffFree + 16);
        tailSeq \<leftarrow> u64_at page (metaOffFree + 24);
        Some (\<lparr>m_root = root, m_flushed = flushed, m_headPage = headPage, m_headSeq = headSeq,
               m_tailPage = tailPage, m_tailSeq = tailSeq\<rparr>, True)
      })
   }"

section \<open>The checksum\<close>

definition checksumOff :: nat where "checksumOff = PageSize - 4"

definition checksum :: "bytes \<Rightarrow> u32 option" where
  "checksum page = do {
     b \<leftarrow> slice page 4 checksumOff;
     Some (ChecksumIEEE b)
   }"

definition WriteMetaFull :: "bytes \<Rightarrow> meta \<Rightarrow> bytes option" where
  "WriteMetaFull page m = do {
     page \<leftarrow> WriteMeta page m;
     c \<leftarrow> checksum page;
     put_at page checksumOff (le_bytes 4 c)
   }"

definition VerifyMeta :: "bytes \<Rightarrow> bool option" where
  "VerifyMeta page = do {
     b \<leftarrow> slice_from page checksumOff;
     stored \<leftarrow> le_get 4 b;
     computed \<leftarrow> checksum page;
     Some (stored = computed)
   }"

definition ReadMetaSafe :: "bytes \<Rightarrow> (meta \<times> bool) option" where
  "ReadMetaSafe page = do {
     ok \<leftarrow> VerifyMeta page;
     (if \<not> ok then Some (zero_meta, False) else ReadMeta page)
   }"

section \<open>A checksum changes with every byte\<close>

lemma crc_bit_top: "bit (crc_bit c) 31 \<longleftrightarrow> bit c 0"
proof -
  have "\<not> bit c 32" using bit_imp_le_length [of c 32] by auto
  moreover have "bit (0xEDB88320 :: u32) 31" by simp
  ultimately show ?thesis by (simp add: crc_bit_def bit_drop_bit_eq bit_xor_iff)
qed

lemma crc_bit_inj: "inj crc_bit"
proof (rule injI)
  fix c d assume eq: "crc_bit c = crc_bit d"
  then have b0: "bit c 0 \<longleftrightarrow> bit d 0" using crc_bit_top [of c] crc_bit_top [of d] by simp
  then have "drop_bit 1 c = drop_bit 1 d" using eq by (simp add: crc_bit_def xor_cancel_right split: if_splits)
  then have "bit (drop_bit 1 c) n \<longleftrightarrow> bit (drop_bit 1 d) n" for n by simp
  then have S: "bit c (Suc n) \<longleftrightarrow> bit d (Suc n)" for n by (simp add: bit_drop_bit_eq)
  show "c = d"
  proof (rule bit_word_eqI)
    show "bit c n \<longleftrightarrow> bit d n" for n using b0 S by (cases n) simp_all
  qed
qed

lemma crc_byte_inj_state: "inj (crc_byte b)"
proof (rule injI)
  fix c d assume "crc_byte b c = crc_byte b d"
  then have "c XOR ucast b = d XOR ucast b"
    using inj_fn [OF crc_bit_inj, of 8] by (simp add: crc_byte_def inj_eq)
  then show "c = d" by (simp add: xor_cancel_right)
qed

lemma ucast_byte_inj:
  assumes "(ucast a :: u32) = ucast b"
  shows "a = (b :: byte)"
proof -
  have "unat w < 2 ^ 32" for w :: byte by (rule less_le_trans [OF unsigned_less]) simp
  then have u: "unat (ucast w :: u32) = unat w" for w :: byte
    by (simp add: unsigned_ucast_eq take_bit_nat_eq_self)
  have "unat a = unat b" using u [of a] u [of b] assms by simp
  then show ?thesis by (simp add: word_unat_eq_iff)
qed

lemma crc_byte_inj_byte: "crc_byte a c = crc_byte b c \<Longrightarrow> a = b"
proof -
  assume "crc_byte a c = crc_byte b c"
  then have "c XOR ucast a = c XOR ucast b"
    using inj_fn [OF crc_bit_inj, of 8] by (simp add: crc_byte_def inj_eq)
  then have "(ucast a :: u32) = ucast b" by (simp add: xor_cancel_left)
  then show "a = b" by (rule ucast_byte_inj)
qed

lemma fold_crc_inj: "fold crc_byte bs c = fold crc_byte bs d \<Longrightarrow> c = d"
proof (induction bs arbitrary: c d)
  case Nil
  then show ?case by simp
next
  case (Cons b bs)
  then have "crc_byte b c = crc_byte b d" by simp
  then show ?case using crc_byte_inj_state [of b] by (simp add: inj_eq)
qed

lemma ChecksumIEEE_detects:
  assumes "i < length bs" "b \<noteq> bs ! i"
  shows "ChecksumIEEE (bs[i := b]) \<noteq> ChecksumIEEE bs"
proof
  let ?c = "fold crc_byte (take i bs) (NOT 0)"
  have upd: "fold crc_byte (bs[i := b]) (NOT 0) = fold crc_byte (drop (Suc i) bs) (crc_byte b ?c)"
    unfolding upd_conv_take_nth_drop [OF assms(1)] by simp
  have "fold crc_byte (take i bs @ bs ! i # drop (Suc i) bs) (NOT 0) =
      fold crc_byte (drop (Suc i) bs) (crc_byte (bs ! i) ?c)" by simp
  then have old: "fold crc_byte bs (NOT 0) = fold crc_byte (drop (Suc i) bs) (crc_byte (bs ! i) ?c)"
    using id_take_nth_drop [OF assms(1)] by simp
  assume "ChecksumIEEE (bs[i := b]) = ChecksumIEEE bs"
  then have "fold crc_byte (drop (Suc i) bs) (crc_byte b ?c) = fold crc_byte (drop (Suc i) bs) (crc_byte (bs ! i) ?c)"
    unfolding ChecksumIEEE_def upd old by simp
  from crc_byte_inj_byte [OF fold_crc_inj [OF this]] show False using assms(2) by simp
qed

text \<open>The check value of the CRC catalogues.\<close>

lemma funpow_8: "(f ^^ 8) x = f (f (f (f (f (f (f (f x)))))))"
  by (simp add: eval_nat_numeral)

lemma ChecksumIEEE_check: "ChecksumIEEE (map of_char ''123456789'') = 0xCBF43926"
  by (simp add: ChecksumIEEE_def crc_byte_def crc_bit_def funpow_8)

section \<open>Reading back what was written\<close>

definition meta_bytes :: "meta \<Rightarrow> bytes" where
  "meta_bytes m = metaSig @ le_bytes 8 (m_root m) @ le_bytes 8 (m_flushed m) @ le_bytes 8 (m_headPage m) @
     le_bytes 8 (m_headSeq m) @ le_bytes 8 (m_tailPage m) @ le_bytes 8 (m_tailSeq m)"

lemma length_metaSig [simp]: "length metaSig = 16"
  by (simp add: metaSig_def)

lemma length_meta_bytes [simp]: "length (meta_bytes m) = 64"
  by (simp add: meta_bytes_def)

lemma put_at_overwrite:
  "length xs = n \<Longrightarrow> length ys = k \<Longrightarrow> n + k \<le> length page \<Longrightarrow>
   put_at (overwrite page 0 xs) n ys = Some (overwrite page 0 (xs @ ys))"
  using overwrite_overwrite [of 0 xs ys page] by (simp add: put_at_def)

lemma WriteMeta_eq:
  assumes "64 \<le> length page"
  shows "WriteMeta page m = Some (overwrite page 0 (meta_bytes m))"
proof -
  have c: "copy_at page 0 metaSig = Some (overwrite page 0 metaSig)"
    using assms by (simp add: copy_at_Some)
  show ?thesis
    using assms by (simp add: WriteMeta_def slice_to_def c meta_offsets put_at_overwrite meta_bytes_def)
qed

lemma u64_at_overwrite:
  assumes "bs = xs @ le_bytes 8 w @ ys" "length xs = i" "length bs \<le> length page"
  shows "u64_at (overwrite page 0 bs) i = Some w"
  using assms by (intro u64_at_window) (auto simp: window_def overwrite_def)

lemma slice_to_overwrite:
  assumes "length xs = n" "n \<le> length page" "bs = xs @ ys" "length bs \<le> length page"
  shows "slice_to (overwrite page 0 bs) n = Some xs"
  using assms by (simp add: slice_to_def overwrite_def)

lemma ReadMeta_written:
  assumes "64 \<le> length page"
  shows "ReadMeta (overwrite page 0 (meta_bytes m)) = Some (m, True)"
proof -
  let ?p = "overwrite page 0 (meta_bytes m)"
  have sig: "slice_to ?p sigSize = Some metaSig"
    using assms by (intro slice_to_overwrite) (simp_all add: meta_bytes_def sigSize_def)
  have f: "u64_at ?p metaOffRoot = Some (m_root m)" "u64_at ?p metaOffUsed = Some (m_flushed m)"
    "u64_at ?p metaOffFree = Some (m_headPage m)" "u64_at ?p (metaOffFree + 8) = Some (m_headSeq m)"
    "u64_at ?p (metaOffFree + 16) = Some (m_tailPage m)" "u64_at ?p (metaOffFree + 24) = Some (m_tailSeq m)"
    using assms
    by (auto simp: meta_offsets meta_bytes_def
        intro: u64_at_overwrite [where xs = metaSig] u64_at_overwrite [where xs = "metaSig @ le_bytes 8 (m_root m)"]
          u64_at_overwrite [where xs = "metaSig @ le_bytes 8 (m_root m) @ le_bytes 8 (m_flushed m)"]
          u64_at_overwrite [where xs = "metaSig @ le_bytes 8 (m_root m) @ le_bytes 8 (m_flushed m) @ le_bytes 8 (m_headPage m)"]
          u64_at_overwrite [where xs = "metaSig @ le_bytes 8 (m_root m) @ le_bytes 8 (m_flushed m) @ le_bytes 8 (m_headPage m) @ le_bytes 8 (m_headSeq m)"]
          u64_at_overwrite [where xs = "metaSig @ le_bytes 8 (m_root m) @ le_bytes 8 (m_flushed m) @ le_bytes 8 (m_headPage m) @ le_bytes 8 (m_headSeq m) @ le_bytes 8 (m_tailPage m)"])
  show ?thesis by (simp add: ReadMeta_def sig f)
qed

lemma bit_le_val:
  "bit (le_val bs :: 'a::len word) n \<longleftrightarrow> n < LENGTH('a) \<and> n div 8 < length bs \<and> bit (bs ! (n div 8)) (n mod 8)"
proof (induction bs arbitrary: n)
  case Nil
  then show ?case by simp
next
  case (Cons b bs)
  show ?case
  proof (cases "n < 8")
    case True
    then show ?thesis by (auto simp: bit_simps dest: bit_imp_le_length)
  next
    case False
    then obtain k where k: "n = k + 8" by (metis add.commute le_Suc_ex not_less)
    have nb: "\<not> bit b (k + 8)" using bit_imp_le_length [of b "k + 8"] by auto
    have "(k + 8) div 8 = Suc (k div 8)" by simp
    then show ?thesis using Cons [of k] nb unfolding k by (auto simp: bit_simps)
  qed
qed

lemma le_val_inj:
  assumes "(le_val xs :: u32) = le_val ys" "length xs = 4" "length ys = 4"
  shows "xs = ys"
proof (rule nth_equalityI)
  fix j assume j: "j < length xs"
  show "xs ! j = ys ! j"
  proof (rule bit_word_eqI)
    fix k assume "k < LENGTH(8)"
    then have "k < 8" by simp
    then have "(8 * j + k) div 8 = j" "(8 * j + k) mod 8 = k" "8 * j + k < 32" using j assms(2) by simp_all
    then show "bit (xs ! j) k \<longleftrightarrow> bit (ys ! j) k"
      using bit_le_val [of xs "8 * j + k", where 'a = 32] bit_le_val [of ys "8 * j + k", where 'a = 32] assms j by simp
  qed
qed (use assms in simp)

lemma ReadMeta_take:
  assumes "take 64 page = meta_bytes m" "64 \<le> length page"
  shows "ReadMeta page = Some (m, True)"
proof -
  have "page = overwrite page 0 (meta_bytes m)"
    using assms append_take_drop_id [of 64 page] by (simp add: overwrite_def)
  then show ?thesis using ReadMeta_written [OF assms(2)] by metis
qed

text \<open>A page that was written in full.\<close>

definition sealed :: "bytes \<Rightarrow> meta \<Rightarrow> bool" where
  "sealed p m \<longleftrightarrow> length p = 4096 \<and> take 64 p = meta_bytes m \<and>
     drop 4092 p = le_bytes 4 (ChecksumIEEE (take 4088 (drop 4 p)))"

lemma page_offsets: "checksumOff = 4092" "PageSize = 4096"
  by (simp_all add: checksumOff_def PageSize_def)

lemma VerifyMeta_eq:
  "length p = 4096 \<Longrightarrow>
   VerifyMeta p = Some (le_val (drop 4092 p) = ChecksumIEEE (take 4088 (drop 4 p)))"
  by (simp add: VerifyMeta_def checksum_def byte_simps page_offsets)

lemma WriteMetaFull_sealed:
  assumes "length page = 4096"
  shows "\<exists>p. WriteMetaFull page m = Some p \<and> sealed p m"
proof -
  define q where "q = overwrite page 0 (meta_bytes m)"
  have lq: "length q = 4096" using assms by (simp add: q_def)
  define c where "c = ChecksumIEEE (take 4088 (drop 4 q))"
  define p where "p = overwrite q 4092 (le_bytes 4 c)"
  have lp: "length p = 4096" using lq by (simp add: p_def)
  have w: "window p i l = window q i l" if "i + l \<le> 4092" for i l
    unfolding p_def by (rule window_overwrite_before) (use that lq in simp_all)
  have "WriteMetaFull page m = Some p"
    using assms lq by (simp add: WriteMetaFull_def WriteMeta_eq checksum_def slice_def page_offsets put_at_Some
        flip: q_def c_def p_def)
  moreover have "take 64 p = meta_bytes m"
    using w [of 0 64] assms by (simp add: window_def q_def overwrite_def)
  moreover have "drop 4092 p = le_bytes 4 c"
    using lq by (simp add: p_def overwrite_def)
  moreover have "take 4088 (drop 4 p) = take 4088 (drop 4 q)" using w [of 4 4088] by (simp add: window_def)
  ultimately show ?thesis using lp by (intro exI [of _ p]) (simp add: sealed_def c_def)
qed

lemma sealed_reads: "sealed p m \<Longrightarrow> VerifyMeta p = Some True \<and> ReadMetaSafe p = Some (m, True)"
  using VerifyMeta_eq [of p] ReadMeta_take [of p m] by (simp add: sealed_def ReadMetaSafe_def)

lemma sealed_altered:
  assumes s: "sealed p m" and i: "i < 4096" and b: "b \<noteq> p ! i"
  shows "ReadMetaSafe (p[i := b]) = Some (zero_meta, False)"
proof -
  let ?p = "p[i := b]"
  have len: "length p = 4096" "length ?p = 4096" using s by (simp_all add: sealed_def)
  note v = VerifyMeta_eq [OF len(2)]
  have stored: "le_val (drop 4092 p) = ChecksumIEEE (take 4088 (drop 4 p))" using s by (simp add: sealed_def)
  consider (sig) "i < 4" | (body) "4 \<le> i" "i < 4092" | (crc) "4092 \<le> i" by linarith
  then show ?thesis
  proof cases
    case sig
    have "take 16 p = take 16 (take 64 p)" by simp
    also have "\<dots> = metaSig" using s unfolding sealed_def by (simp add: meta_bytes_def)
    finally have "metaSig ! i = p ! i" using sig nth_take [of i 16 p] by simp
    then have "take 16 ?p ! i \<noteq> metaSig ! i" using sig b len by simp
    then have "take 16 ?p \<noteq> metaSig" by auto
    then have "ReadMeta ?p = Some (zero_meta, False)"
      using len by (simp add: ReadMeta_def slice_to_def sigSize_def)
    then show ?thesis using v by (simp add: ReadMetaSafe_def)
  next
    case body
    have "take 4088 (drop 4 ?p) = (take 4088 (drop 4 p))[i - 4 := b]"
      using body by (simp add: drop_update_swap take_update_swap)
    moreover have "(take 4088 (drop 4 p)) ! (i - 4) = p ! i" using body len by simp
    ultimately have "ChecksumIEEE (take 4088 (drop 4 ?p)) \<noteq> ChecksumIEEE (take 4088 (drop 4 p))"
      using ChecksumIEEE_detects [of "i - 4" "take 4088 (drop 4 p)" b] body len b by simp
    moreover have "drop 4092 ?p = drop 4092 p" using body by simp
    ultimately show ?thesis using v stored by (simp add: ReadMetaSafe_def)
  next
    case crc
    have "drop 4092 ?p = (drop 4092 p)[i - 4092 := b]" using crc by (simp add: drop_update_swap)
    moreover have "drop 4092 p ! (i - 4092) = p ! i" using crc len by simp
    ultimately have "drop 4092 ?p \<noteq> drop 4092 p" using b crc i len
      by (metis diff_less_mono length_drop nth_list_update_eq)
    then have "(le_val (drop 4092 ?p) :: u32) \<noteq> le_val (drop 4092 p)"
      using le_val_inj [of "drop 4092 ?p" "drop 4092 p"] len by auto
    moreover have "take 4088 (drop 4 ?p) = take 4088 (drop 4 p)"
      using crc by (simp add: drop_update_swap)
    ultimately show ?thesis using v stored by (simp add: ReadMetaSafe_def)
  qed
qed

section \<open>Properties\<close>

text \<open>A meta page written in full passes its own verification, and reading it gives back the root, the number of
  flushed pages and the four fields of the free list.\<close>

theorem meta_roundtrip:
  assumes "length page = PageSize"
  shows "\<exists>p. WriteMetaFull page m = Some p \<and> length p = PageSize \<and> VerifyMeta p = Some True \<and>
    ReadMetaSafe p = Some (m, True)"
  using WriteMetaFull_sealed [of page m] sealed_reads [of _ m] assms
  by (auto simp: page_offsets sealed_def)

theorem meta_roundtrip_witness:
  "\<exists>p. WriteMetaFull (replicate PageSize 0) zero_meta = Some p \<and> length p = PageSize \<and> VerifyMeta p = Some True \<and>
    ReadMetaSafe p = Some (zero_meta, True)"
  by (rule meta_roundtrip) simp



end
