(* ===== verification/PageMgr.thy ===== *)
theory PageMgr
  imports Meta
begin

text \<open>
  The page manager of \<^verbatim>\<open>internal/storage/page.go\<close>, with \<^verbatim>\<open>Recover\<close> of
  \<^verbatim>\<open>recovery.go\<close>. The mapped chunks are shared mappings of consecutive ranges of the
  file, so a chunk is its length, and reading it reads the file: a page that starts
  at or beyond the end of the file faults, a page the file ends in is padded with zeros.
  The operating system is a parameter: whether \<^verbatim>\<open>Mmap\<close> fails, and what
  \<^verbatim>\<open>WriteAt\<close> does.
\<close>

record PageMgr =
  db_file :: bytes
  mmap_total :: nat
  chunks :: "nat list"
  flushed :: u64
  temp :: "bytes list"
  updates :: "u64 \<Rightarrow> bytes option"

text \<open>
  \<open>writeAt f p off\<close>: the number of bytes written, whether an error is reported, and the
  contents of the file after the call.
\<close>

record os =
  mmap_err :: "nat \<Rightarrow> nat \<Rightarrow> bool"
  writeAt :: "bytes \<Rightarrow> bytes \<Rightarrow> int \<Rightarrow> nat \<times> bool \<times> bytes"

datatype io_error =
  MmapError | WritePageError u64 | ShortPageWrite u64 nat | WriteTempError | ShortTempWrite nat nat
  | ChecksumMismatch | InvalidSignature

definition MaxChunkMB :: nat where "MaxChunkMB = 64"

definition NewPageMgr :: "bytes \<Rightarrow> PageMgr" where
  "NewPageMgr f = \<lparr>db_file = f, mmap_total = 0, chunks = [], flushed = 0, temp = [], updates = (\<lambda>_. None)\<rparr>"

section \<open>Reading\<close>

text \<open>The slice \<^verbatim>\<open>chunk[offset : offset+PageSize]\<close> of the chunk that maps the file from \<open>base\<close>.\<close>

definition chunk_page :: "bytes \<Rightarrow> nat \<Rightarrow> nat \<Rightarrow> nat \<Rightarrow> bytes option" where
  "chunk_page f base len offset =
     (if offset + PageSize \<le> len \<and> base + offset < length f
      then Some (take PageSize (drop (base + offset) f @ replicate PageSize 0)) else None)"

fun Read_chunks :: "bytes \<Rightarrow> nat list \<Rightarrow> nat \<Rightarrow> u64 \<Rightarrow> u64 \<Rightarrow> bytes option" where
  "Read_chunks f [] base start ptr = None"
| "Read_chunks f (len # cs) base start ptr =
     (let end' = start + of_nat (len div PageSize) in
      if ptr < end' then chunk_page f base len (unat (of_nat PageSize * (ptr - start)))
      else Read_chunks f cs (base + len) end' ptr)"

definition Read :: "PageMgr \<Rightarrow> u64 \<Rightarrow> bytes option" where
  "Read pm ptr =
     (case updates pm ptr of
        Some node \<Rightarrow> Some node
      | None \<Rightarrow> Read_chunks (db_file pm) (chunks pm) 0 0 ptr)"

section \<open>Allocating and updating\<close>

definition Alloc :: "PageMgr \<Rightarrow> bytes \<Rightarrow> u64 \<times> PageMgr" where
  "Alloc pm page = (flushed pm + of_nat (length (temp pm)), pm\<lparr>temp := temp pm @ [page]\<rparr>)"

text \<open>The returned slice is the one stored in \<open>updates\<close>.\<close>

definition Write :: "PageMgr \<Rightarrow> u64 \<Rightarrow> (bytes \<times> PageMgr) option" where
  "Write pm ptr =
     (case updates pm ptr of
        Some node \<Rightarrow> Some (node, pm)
      | None \<Rightarrow> do {
          page \<leftarrow> Read pm ptr;
          existing \<leftarrow> copy_at (replicate PageSize 0) 0 page;
          Some (existing, pm\<lparr>updates := (updates pm)(ptr \<mapsto> existing)\<rparr>)
        })"

definition Free :: "PageMgr \<Rightarrow> u64 \<Rightarrow> PageMgr" where
  "Free pm ptr = pm\<lparr>updates := (updates pm)(ptr := None)\<rparr>"

definition ClearUpdates :: "PageMgr \<Rightarrow> PageMgr" where
  "ClearUpdates pm = pm\<lparr>updates := (\<lambda>_. None), temp := []\<rparr>"

definition ResetTo :: "PageMgr \<Rightarrow> u64 \<Rightarrow> PageMgr" where
  "ResetTo pm n = pm\<lparr>flushed := n, temp := [], updates := (\<lambda>_. None)\<rparr>"

definition Close :: "PageMgr \<Rightarrow> PageMgr" where
  "Close pm = pm\<lparr>chunks := []\<rparr>"

section \<open>Mapping and flushing\<close>

text \<open>The loop that doubles the size of the next chunk.\<close>

function grow_chunk :: "nat \<Rightarrow> nat \<Rightarrow> nat \<Rightarrow> nat" where
  "grow_chunk tot alloc sz =
     (if 0 < alloc \<and> tot + alloc < sz then grow_chunk tot (alloc * 2) sz else alloc)"
  by pat_completeness auto
termination
  by (relation "measure (\<lambda>(tot, alloc, sz). sz - (tot + alloc))") auto

declare grow_chunk.simps [simp del]

definition ExtendMMap :: "os \<Rightarrow> PageMgr \<Rightarrow> int \<Rightarrow> io_error + PageMgr" where
  "ExtendMMap S pm sz =
     (if sz \<le> int (mmap_total pm) then Inr pm
      else
        let alloc = mmap_total pm;
            alloc = (if alloc < MaxChunkMB * 2 ^ 20 then MaxChunkMB * 2 ^ 20 else alloc);
            alloc = grow_chunk (mmap_total pm) alloc (nat sz)
        in if mmap_err S (mmap_total pm) alloc then Inl MmapError
           else Inr (pm\<lparr>mmap_total := mmap_total pm + alloc, chunks := chunks pm @ [alloc]\<rparr>))"

text \<open>The loop over \<open>updates\<close>, in the order \<open>ups\<close> of the map iteration.\<close>

fun FlushPages_updates :: "os \<Rightarrow> bytes \<Rightarrow> nat \<Rightarrow> (u64 \<times> bytes) list \<Rightarrow> nat \<times> io_error option \<times> bytes" where
  "FlushPages_updates S f count [] = (count, None, f)"
| "FlushPages_updates S f count ((ptr, page) # ups) =
     (let (n, err, f') = writeAt S f page (sint (ptr * of_nat PageSize)) in
      if err then (count, Some (WritePageError ptr), f')
      else if n \<noteq> PageSize then (count, Some (ShortPageWrite ptr n), f')
      else FlushPages_updates S f' (count + 1) ups)"

text \<open>The count and the error of the source, and the page manager after the call.\<close>

definition FlushPages :: "os \<Rightarrow> (u64 \<times> bytes) list \<Rightarrow> PageMgr \<Rightarrow> nat \<times> io_error option \<times> PageMgr" where
  "FlushPages S ups pm =
     (if temp pm = [] \<and> ups = [] then (0, None, pm)
      else case ExtendMMap S pm (sint ((flushed pm + of_nat (length (temp pm))) * of_nat PageSize)) of
        Inl e \<Rightarrow> (0, Some e, pm)
      | Inr pm \<Rightarrow>
          (let (writeCount, err, f) = FlushPages_updates S (db_file pm) 0 ups;
               pm = pm\<lparr>db_file := f\<rparr>
           in if err \<noteq> None then (writeCount, err, pm)
              else if temp pm = [] then (writeCount, None, pm)
              else
                let buf = concat (temp pm);
                    (n, err, f) = writeAt S (db_file pm) buf (sint (flushed pm * of_nat PageSize));
                    pm = pm\<lparr>db_file := f\<rparr>
                in if err then (writeCount, Some WriteTempError, pm)
                   else if n \<noteq> length buf then (writeCount, Some (ShortTempWrite n (length buf)), pm)
                   else (writeCount + length (temp pm), None,
                         pm\<lparr>flushed := flushed pm + of_nat (length (temp pm)), temp := []\<rparr>)))"

section \<open>Recovery\<close>

definition Recover :: "PageMgr \<Rightarrow> (io_error option \<times> PageMgr) option" where
  "Recover pm = do {
     meta \<leftarrow> Read pm 0;
     v \<leftarrow> VerifyMeta meta;
     (if \<not> v then Some (Some ChecksumMismatch, pm)
      else do {
        (m, ok) \<leftarrow> ReadMeta meta;
        (if \<not> ok then Some (Some InvalidSignature, pm)
         else Some (None, ResetTo pm (m_flushed m)))
      })
   }"

section \<open>What the operating system promises\<close>

text \<open>A write that succeeds: a gap between the end of the file and the offset reads as zeros.\<close>

definition file_write :: "bytes \<Rightarrow> nat \<Rightarrow> bytes \<Rightarrow> bytes" where
  "file_write f off p = overwrite (f @ replicate (off + length p - length f) 0) off p"

definition os_ok :: "os \<Rightarrow> bool" where
  "os_ok S \<longleftrightarrow> (\<forall>off len. \<not> mmap_err S off len) \<and>
     (\<forall>f p off. 0 \<le> off \<longrightarrow> writeAt S f p off = (length p, False, file_write f (nat off) p))"

text \<open>Page \<open>i\<close> of a file.\<close>

definition file_page :: "bytes \<Rightarrow> nat \<Rightarrow> bytes" where
  "file_page f i = window f (PageSize * i) PageSize"

lemma PageSize_pos [simp]: "0 < PageSize"
  by (simp add: PageSize_def)

lemma length_file_write: "length (file_write f off p) = max (length f) (off + length p)"
  by (simp add: file_write_def max_def)

lemma window_file_write:
  "window (file_write f off p) off (length p) = p"
  "j + l \<le> off \<Longrightarrow> j + l \<le> length f \<Longrightarrow> window (file_write f off p) j l = window f j l"
  "off + length p \<le> j \<Longrightarrow> j + l \<le> length f \<Longrightarrow> window (file_write f off p) j l = window f j l"
proof -
  let ?g = "f @ replicate (off + length p - length f) 0"
  have len: "off + length p \<le> length ?g" by simp
  have g: "window ?g j l = window f j l" if "j + l \<le> length f" for j l
    using that by (simp add: window_def)
  show "window (file_write f off p) off (length p) = p"
    unfolding file_write_def by (rule window_overwrite_same [OF len refl])
  show "window (file_write f off p) j l = window f j l" if "j + l \<le> off" "j + l \<le> length f"
    unfolding file_write_def using window_overwrite_before [OF that(1) len] g [OF that(2)] by simp
  show "window (file_write f off p) j l = window f j l" if "off + length p \<le> j" "j + l \<le> length f"
    unfolding file_write_def using window_overwrite_after [OF that(1) len] g [OF that(2)] by simp
qed

lemma file_page_write:
  assumes "length p = PageSize"
  shows "file_page (file_write f (PageSize * i) p) i = p"
    "i \<noteq> j \<Longrightarrow> PageSize * Suc j \<le> length f \<Longrightarrow> file_page (file_write f (PageSize * i) p) j = file_page f j"
proof -
  show "file_page (file_write f (PageSize * i) p) i = p"
    using window_file_write(1) [of f "PageSize * i" p] assms by (simp add: file_page_def)
  assume ij: "i \<noteq> j" "PageSize * Suc j \<le> length f"
  then consider "PageSize * j + PageSize \<le> PageSize * i" | "PageSize * i + PageSize \<le> PageSize * j"
    by (metis Suc_leI add.commute linorder_neq_iff mult_Suc_right mult_le_mono2)
  then show "file_page (file_write f (PageSize * i) p) j = file_page f j"
    using ij(2) assms window_file_write(2) [of "PageSize * j" PageSize "PageSize * i" f p]
      window_file_write(3) [of "PageSize * i" p "PageSize * j" PageSize f]
    by cases (simp_all add: file_page_def)
qed

section \<open>Reading mapped pages\<close>

text \<open>Chunks of whole pages, together the mapped size.\<close>

definition mapped :: "PageMgr \<Rightarrow> bool" where
  "mapped pm \<longleftrightarrow> (\<forall>c \<in> set (chunks pm). PageSize dvd c) \<and> mmap_total pm = sum_list (chunks pm) \<and>
     mmap_total pm < 2 ^ 62"

lemma page_offset:
  assumes "PageSize * unat (w :: u64) < 2 ^ 64"
  shows "unat (of_nat PageSize * w) = PageSize * unat w" "unat (w * of_nat PageSize) = PageSize * unat w"
proof -
  have "unat (of_nat PageSize :: u64) = PageSize" by (simp add: PageSize_def)
  then show "unat (of_nat PageSize * w) = PageSize * unat w"
    using assms unat_mult_lem [of "of_nat PageSize" w] by simp
  then show "unat (w * of_nat PageSize) = PageSize * unat w" by (simp add: mult.commute)
qed

lemma Read_chunks_page:
  assumes "\<forall>c \<in> set cs. PageSize dvd c" "base = PageSize * unat start" "base + sum_list cs < 2 ^ 62"
    "start \<le> ptr" "PageSize * Suc (unat ptr) \<le> base + sum_list cs" "PageSize * Suc (unat ptr) \<le> length f"
  shows "Read_chunks f cs base start ptr = Some (file_page f (unat ptr))"
  using assms
proof (induction cs arbitrary: base start)
  case Nil
  then show ?case by (simp add: word_le_nat_alt PageSize_def)
next
  case (Cons c cs)
  obtain n where n: "c = PageSize * n" using Cons.prems(1) by auto
  have small: "unat start + n < 2 ^ 64" "n < 2 ^ 64"
    using Cons.prems(2,3) n by (simp_all add: PageSize_def)
  have un: "unat (of_nat n :: u64) = n" using small(2) by (simp add: unsigned_of_nat take_bit_nat_eq_self)
  then have e: "unat (start + of_nat n) = unat start + n" using small(1) by (simp add: unat_add_lem [THEN iffD1])
  have d: "c div PageSize = n" by (simp add: n)
  show ?case
  proof (cases "ptr < start + of_nat n")
    case True
    then have lt: "unat ptr < unat start + n" using e by (simp add: word_less_nat_alt)
    have le: "unat start \<le> unat ptr" using Cons.prems(4) by (simp add: word_le_nat_alt)
    have sub: "unat (ptr - start) = unat ptr - unat start" by (rule unat_sub [OF Cons.prems(4)])
    have off: "unat (of_nat PageSize * (ptr - start)) = PageSize * (unat ptr - unat start)"
      using page_offset [of "ptr - start"] sub lt n Cons.prems(3) by (simp add: PageSize_def)
    have "PageSize * (unat ptr - unat start) + PageSize \<le> c"
      using lt le n by (metis Suc_leI add.commute le_diff_conv2 less_diff_conv2 mult_Suc_right mult_le_mono2)
    moreover have "base + PageSize * (unat ptr - unat start) = PageSize * unat ptr"
      using Cons.prems(2) le by (simp add: diff_mult_distrib2)
    moreover have "PageSize * unat ptr < length f"
      using Cons.prems(6) PageSize_pos by (simp del: PageSize_pos)
    ultimately show ?thesis
      using True d off Cons.prems(6) by (simp add: chunk_page_def file_page_def window_def Let_def)
  next
    case False
    have "Read_chunks f cs (base + c) (start + of_nat n) ptr = Some (file_page f (unat ptr))"
      using Cons.prems False e n by (intro Cons.IH) (simp_all add: algebra_simps)
    then show ?thesis using False d by (simp add: Let_def)
  qed
qed

lemma Read_mapped:
  assumes "mapped pm" "updates pm ptr = None" "PageSize * Suc (unat ptr) \<le> mmap_total pm"
    "PageSize * Suc (unat ptr) \<le> length (db_file pm)"
  shows "Read pm ptr = Some (file_page (db_file pm) (unat ptr))"
  using assms Read_chunks_page [of "chunks pm" 0 0 ptr "db_file pm"] by (simp add: Read_def mapped_def)

section \<open>Flushing\<close>

lemma grow_chunk_props:
  "0 < alloc \<Longrightarrow> n dvd alloc \<Longrightarrow>
   sz \<le> tot + grow_chunk tot alloc sz \<and> n dvd grow_chunk tot alloc sz \<and> grow_chunk tot alloc sz \<le> max alloc (2 * sz)"
proof (induction tot alloc sz rule: grow_chunk.induct)
  case (1 tot alloc sz)
  show ?case
  proof (cases "tot + alloc < sz")
    case True
    then have g: "grow_chunk tot alloc sz = grow_chunk tot (alloc * 2) sz"
      using 1(2) by (subst grow_chunk.simps) simp
    have "sz \<le> tot + grow_chunk tot (alloc * 2) sz \<and> n dvd grow_chunk tot (alloc * 2) sz \<and>
        grow_chunk tot (alloc * 2) sz \<le> max (alloc * 2) (2 * sz)"
      by (rule 1(1)) (use 1(2,3) True in auto)
    then show ?thesis using True g by auto
  next
    case False
    then have "grow_chunk tot alloc sz = alloc" by (subst grow_chunk.simps) simp
    then show ?thesis using False 1(3) by simp
  qed
qed

lemma ExtendMMap_ok:
  assumes "\<forall>off len. \<not> mmap_err S off len" "mapped pm" "sz < 2 ^ 60" "mmap_total pm < 2 ^ 61"
  shows "\<exists>pm'. ExtendMMap S pm (int sz) = Inr pm' \<and> mapped pm' \<and> sz \<le> mmap_total pm' \<and>
    db_file pm' = db_file pm \<and> flushed pm' = flushed pm \<and> temp pm' = temp pm \<and> updates pm' = updates pm"
proof (cases "sz \<le> mmap_total pm")
  case True
  then show ?thesis using assms(2) by (simp add: ExtendMMap_def)
next
  case False
  define a where "a = (if mmap_total pm < MaxChunkMB * 2 ^ 20 then MaxChunkMB * 2 ^ 20 else mmap_total pm)"
  define g where "g = grow_chunk (mmap_total pm) a sz"
  have "(\<forall>c \<in> set cs. PageSize dvd c) \<Longrightarrow> PageSize dvd sum_list cs" for cs by (induction cs) auto
  then have dv: "PageSize dvd mmap_total pm" using assms(2) by (auto simp: mapped_def)
  have "PageSize dvd MaxChunkMB * 2 ^ 20" by (simp add: PageSize_def MaxChunkMB_def)
  then have a: "0 < a" "PageSize dvd a" "a \<le> 2 ^ 61"
    using dv assms(4) by (simp_all add: a_def MaxChunkMB_def)
  note gp = grow_chunk_props [OF a(1,2), of sz "mmap_total pm", folded g_def]
  have "ExtendMMap S pm (int sz) = Inr (pm\<lparr>mmap_total := mmap_total pm + g, chunks := chunks pm @ [g]\<rparr>)"
    using False assms(1) by (simp add: ExtendMMap_def Let_def g_def a_def)
  moreover have "mapped (pm\<lparr>mmap_total := mmap_total pm + g, chunks := chunks pm @ [g]\<rparr>)"
    using assms(2) gp a(3) assms(3,4) by (auto simp: mapped_def)
  ultimately show ?thesis using gp by simp
qed

lemma sint_page_offset:
  assumes "PageSize * unat (w :: u64) < 2 ^ 63"
  shows "sint (w * of_nat PageSize) = int (PageSize * unat w)"
proof -
  have "unat (w * of_nat PageSize) = PageSize * unat w" using assms by (intro page_offset) simp
  then have u: "uint (w * of_nat PageSize) = int (PageSize * unat w)" by (metis uint_nat)
  have "int (PageSize * unat w) < int (2 ^ 63)" using assms by (simp only: of_nat_less_iff)
  then have "uint (w * of_nat PageSize) < 2 ^ 63" unfolding u by simp
  moreover have "sint v = uint v" if "uint v < 2 ^ 63" for v :: u64
    using that by (simp add: sint_uint signed_take_bit_eq_take_bit_shift take_bit_int_eq_self)
  ultimately show ?thesis unfolding u [symmetric] by blast
qed

lemma writeAt_page:
  assumes "os_ok S" "PageSize * unat (w :: u64) < 2 ^ 63"
  shows "writeAt S f b (sint (w * of_nat PageSize)) = (length b, False, file_write f (PageSize * unat w) b)"
  using assms(1) unfolding sint_page_offset [OF assms(2)] os_ok_def by (simp only: of_nat_0_le_iff nat_int)

text \<open>Every update is written to its own page of the file.\<close>

lemma FlushPages_updates_ok:
  assumes "os_ok S" "distinct (map fst ups)" "length f < 2 ^ 60"
    "\<forall>x \<in> set ups. length (snd x) = PageSize \<and> PageSize * Suc (unat (fst x)) \<le> length f"
  shows "\<exists>f'. FlushPages_updates S f n ups = (n + length ups, None, f') \<and> length f' = length f \<and>
    (\<forall>p. PageSize * Suc (unat p) \<le> length f \<longrightarrow>
       file_page f' (unat p) = (case map_of ups p of Some b \<Rightarrow> b | None \<Rightarrow> file_page f (unat p)))"
  using assms
proof (induction ups arbitrary: f n)
  case Nil
  then show ?case by simp
next
  case (Cons x ups)
  obtain q b where x: "x = (q, b)" by (cases x)
  have qb: "length b = PageSize" "PageSize * Suc (unat q) \<le> length f" using Cons.prems(4) x by auto
  define f1 where "f1 = file_write f (PageSize * unat q) b"
  have l1: "length f1 = length f" using qb by (simp add: f1_def length_file_write)
  have w: "writeAt S f b (sint (q * of_nat PageSize)) = (PageSize, False, f1)"
    using writeAt_page [OF Cons.prems(1), of q f b] qb Cons.prems(3) by (simp add: f1_def)
  obtain f' where f': "FlushPages_updates S f1 (n + 1) ups = (n + 1 + length ups, None, f')" "length f' = length f1"
    "\<forall>p. PageSize * Suc (unat p) \<le> length f1 \<longrightarrow>
       file_page f' (unat p) = (case map_of ups p of Some b \<Rightarrow> b | None \<Rightarrow> file_page f1 (unat p))"
    using Cons.IH [of f1 "n + 1"] Cons.prems l1 by auto
  have "file_page f' (unat p) = (case map_of (x # ups) p of Some b \<Rightarrow> b | None \<Rightarrow> file_page f (unat p))"
    if p: "PageSize * Suc (unat p) \<le> length f" for p
  proof (cases "p = q")
    case True
    have "map_of ups q = None" using Cons.prems(2) x by (simp add: map_of_eq_None_iff)
    then show ?thesis using True f'(3) p l1 x file_page_write(1) [OF qb(1)] by (simp add: f1_def)
  next
    case False
    then have "unat q \<noteq> unat p" by (simp add: word_unat_eq_iff)
    from file_page_write(2) [OF qb(1) this p] show ?thesis
      using False f'(3) p l1 x by (simp add: f1_def split: option.splits)
  qed
  then show ?case using f' w x l1 by simp
qed

lemma window_concat:
  assumes "\<forall>b \<in> set bs. length b = n" "j < length bs"
  shows "window (concat bs) (n * j) n = bs ! j"
  using assms
proof (induction bs arbitrary: j)
  case Nil
  then show ?case by simp
next
  case (Cons b bs)
  then show ?case by (cases j) (simp_all add: window_def)
qed

lemma window_window:
  "i + l \<le> n \<Longrightarrow> window (window b k n) i l = window b (k + i) l"
  by (simp add: window_def drop_take add.commute)

lemma file_write_temp:
  assumes "\<forall>b \<in> set bs. length b = PageSize" "length f \<le> PageSize * n" "g = file_write f (PageSize * n) (concat bs)"
  shows "length g = PageSize * (n + length bs) \<or> bs = []"
    "j < length bs \<Longrightarrow> file_page g (n + j) = bs ! j"
    "PageSize * Suc i \<le> length f \<Longrightarrow> file_page g i = file_page f i"
proof -
  have lc: "length (concat bs) = PageSize * length bs"
    using assms(1) by (induction bs) simp_all
  show "length g = PageSize * (n + length bs) \<or> bs = []"
    using assms(2,3) lc by (simp add: length_file_write add_mult_distrib2)
  show "file_page g i = file_page f i" if "PageSize * Suc i \<le> length f"
    unfolding file_page_def assms(3) using that assms(2) by (intro window_file_write(2)) simp_all
  show "file_page g (n + j) = bs ! j" if j: "j < length bs"
  proof -
    have "PageSize * j + PageSize \<le> PageSize * length bs"
      using mult_le_mono2 [of "Suc j" "length bs" PageSize] j by simp
    then have "window (window g (PageSize * n) (PageSize * length bs)) (PageSize * j) PageSize = file_page g (n + j)"
      by (simp add: window_window file_page_def add_mult_distrib2)
    moreover have "window g (PageSize * n) (PageSize * length bs) = concat bs"
      using window_file_write(1) [of f "PageSize * n" "concat bs"] lc assms(3) by simp
    ultimately show ?thesis using window_concat [OF assms(1) j] by simp
  qed
qed

text \<open>
  A state the database reaches between flushes: whole pages, updates only of pages the
  file has, new pages behind it, everything far from the 64-bit range.
\<close>

definition flushable :: "(u64 \<times> bytes) list \<Rightarrow> PageMgr \<Rightarrow> bool" where
  "flushable ups pm \<longleftrightarrow> mapped pm \<and> mmap_total pm < 2 ^ 61 \<and> map_of ups = updates pm \<and> distinct (map fst ups) \<and>
     (\<forall>x \<in> set ups. length (snd x) = PageSize \<and> PageSize * Suc (unat (fst x)) \<le> length (db_file pm)) \<and>
     (\<forall>b \<in> set (temp pm). length b = PageSize) \<and> length (db_file pm) \<le> PageSize * unat (flushed pm) \<and>
     PageSize * (unat (flushed pm) + length (temp pm)) < 2 ^ 60"

lemma unat_flushed_add:
  assumes "PageSize * (unat (w :: u64) + n) < 2 ^ 60" "j \<le> n"
  shows "unat (w + of_nat j) = unat w + j"
proof -
  have lt: "unat w + n < 2 ^ 60" using assms(1) by (simp add: PageSize_def)
  then have "unat (of_nat j :: u64) = j" using assms(2) by (simp add: unsigned_of_nat take_bit_nat_eq_self)
  then show ?thesis using lt assms(2) by (simp add: unat_add_lem [THEN iffD1])
qed

lemma FlushPages_ok:
  assumes os: "os_ok S" and fl: "flushable ups pm"
  shows "\<exists>pm'. FlushPages S ups pm = (length ups + length (temp pm), None, pm') \<and>
    flushed pm' = flushed pm + of_nat (length (temp pm)) \<and> temp pm' = [] \<and> updates pm' = updates pm \<and> mapped pm' \<and>
    length (db_file pm') \<ge> length (db_file pm) \<and>
    (ups = [] \<and> temp pm = [] \<or> PageSize * (unat (flushed pm) + length (temp pm)) \<le> mmap_total pm') \<and>
    (temp pm \<noteq> [] \<longrightarrow> length (db_file pm') = PageSize * (unat (flushed pm) + length (temp pm))) \<and>
    (temp pm = [] \<longrightarrow> length (db_file pm') = length (db_file pm)) \<and> (ups = [] \<and> temp pm = [] \<longrightarrow> pm' = pm) \<and>
    (\<forall>j < length (temp pm). file_page (db_file pm') (unat (flushed pm) + j) = temp pm ! j) \<and>
    (\<forall>p. PageSize * Suc (unat p) \<le> length (db_file pm) \<longrightarrow>
       file_page (db_file pm') (unat p) = (case updates pm p of Some b \<Rightarrow> b | None \<Rightarrow> file_page (db_file pm) (unat p)))"
proof -
  let ?n = "unat (flushed pm)" and ?l = "length (temp pm)"
  note f = fl [unfolded flushable_def]
  show ?thesis
  proof (cases "temp pm = [] \<and> ups = []")
    case True
    then have "updates pm = (\<lambda>_. None)" using f by auto
    then show ?thesis using True f by (simp add: FlushPages_def)
  next
    case False
    have nl: "unat (flushed pm + of_nat ?l) = ?n + ?l" using f unat_flushed_add [of "flushed pm" ?l ?l] by simp
    then have "sint ((flushed pm + of_nat ?l) * of_nat PageSize) = int (PageSize * (?n + ?l))"
      using sint_page_offset [of "flushed pm + of_nat ?l"] f by simp
    moreover obtain pm1 where m: "ExtendMMap S pm (int (PageSize * (?n + ?l))) = Inr pm1" "mapped pm1"
      "PageSize * (?n + ?l) \<le> mmap_total pm1" "db_file pm1 = db_file pm" "flushed pm1 = flushed pm"
      "temp pm1 = temp pm" "updates pm1 = updates pm"
      using ExtendMMap_ok [of S pm "PageSize * (?n + ?l)"] os f by (auto simp: os_ok_def)
    ultimately have ext: "ExtendMMap S pm (sint ((flushed pm + of_nat ?l) * of_nat PageSize)) = Inr pm1" by simp
    obtain f1 where u: "FlushPages_updates S (db_file pm) 0 ups = (length ups, None, f1)" "length f1 = length (db_file pm)"
      "\<forall>p. PageSize * Suc (unat p) \<le> length (db_file pm) \<longrightarrow>
         file_page f1 (unat p) = (case map_of ups p of Some b \<Rightarrow> b | None \<Rightarrow> file_page (db_file pm) (unat p))"
      using FlushPages_updates_ok [OF os, of ups "db_file pm" 0] f by (auto simp: add_mult_distrib2)
    define f2 where "f2 = file_write f1 (PageSize * ?n) (concat (temp pm))"
    have "PageSize * ?n < 2 ^ 63" using f by (simp add: add_mult_distrib2)
    then have w: "writeAt S f1 (concat (temp pm)) (sint (flushed pm * of_nat PageSize)) = (length (concat (temp pm)), False, f2)"
      unfolding f2_def by (rule writeAt_page [OF os])
    have t: "\<forall>b \<in> set (temp pm). length b = PageSize" "length f1 \<le> PageSize * ?n" using f u(2) by simp_all
    note ft = file_write_temp [OF t f2_def]
    show ?thesis
    proof (cases "temp pm = []")
      case True
      then have "FlushPages S ups pm = (length ups, None, pm1\<lparr>db_file := f1\<rparr>)"
        using False ext u(1) m(4-6) by (simp add: FlushPages_def)
      then show ?thesis using True False m u(2,3) f by (simp add: mapped_def)
    next
      case T: False
      let ?pm' = "pm1\<lparr>db_file := f2, flushed := flushed pm + of_nat ?l, temp := []\<rparr>"
      have "FlushPages S ups pm = (length ups + ?l, None, ?pm')"
        using T ext u(1) m(4-6) w by (simp add: FlushPages_def)
      moreover have "length (db_file ?pm') \<ge> length (db_file pm)" using ft(1) T u(2) t(2) by (simp add: add_mult_distrib2)
      ultimately show ?thesis using m ft u(2,3) f T by (simp add: mapped_def)
    qed
  qed
qed

lemma Read_flushed:
  assumes "mapped pm" "PageSize * Suc (unat p) \<le> mmap_total pm" "PageSize * Suc (unat p) \<le> length (db_file pm)"
  shows "Read (ClearUpdates pm) p = Some (file_page (db_file pm) (unat p))"
  using Read_mapped [of "ClearUpdates pm" p] assms by (simp add: ClearUpdates_def mapped_def)

text \<open>A page beyond the end of the file cannot be read.\<close>

lemma Read_chunks_beyond:
  assumes "length f \<le> PageSize * unat ptr" "PageSize * unat ptr < 2 ^ 63" "base = PageSize * unat start"
    "\<forall>c \<in> set cs. PageSize dvd c" "base + sum_list cs < 2 ^ 62" "start \<le> ptr"
  shows "Read_chunks f cs base start ptr = None"
  using assms
proof (induction cs arbitrary: base start)
  case Nil
  then show ?case by simp
next
  case (Cons c cs)
  obtain n where n: "c = PageSize * n" using Cons.prems(4) by auto
  have small: "unat start + n < 2 ^ 64" "n < 2 ^ 64"
    using Cons.prems(3,5) n by (simp_all add: PageSize_def)
  have un: "unat (of_nat n :: u64) = n" using small(2) by (simp add: unsigned_of_nat take_bit_nat_eq_self)
  then have e: "unat (start + of_nat n) = unat start + n" using small(1) by (simp add: unat_add_lem [THEN iffD1])
  have sub: "unat (ptr - start) = unat ptr - unat start" by (rule unat_sub [OF Cons.prems(6)])
  have le: "unat start \<le> unat ptr" using Cons.prems(6) by (simp add: word_le_nat_alt)
  have "unat (of_nat PageSize * (ptr - start)) = PageSize * (unat ptr - unat start)"
    using page_offset [of "ptr - start"] sub Cons.prems(2) by (simp add: diff_mult_distrib2)
  then have "chunk_page f base c (unat (of_nat PageSize * (ptr - start))) = None"
    using Cons.prems(1,3) le by (simp add: chunk_page_def diff_mult_distrib2)
  moreover have "Read_chunks f cs (base + c) (start + of_nat n) ptr = None" if "\<not> ptr < start + of_nat n"
    using Cons.prems that e n by (intro Cons.IH) (simp_all add: algebra_simps)
  ultimately show ?case by (simp add: n Let_def)
qed

section \<open>Properties\<close>

text \<open>An operating system that does what is asked; it satisfies the contract.\<close>

definition ideal_os :: os where
  "ideal_os = \<lparr>mmap_err = (\<lambda>_ _. False),
     writeAt = (\<lambda>f p off. if 0 \<le> off then (length p, False, file_write f (nat off) p) else (0, True, f))\<rparr>"

lemma ideal_os_ok: "os_ok ideal_os"
  by (simp add: os_ok_def ideal_os_def)


definition flush_example :: PageMgr where
  "flush_example = (NewPageMgr (replicate PageSize 0))\<lparr>flushed := 1, temp := [replicate PageSize 7]\<rparr>"


text \<open>A page that was allocated and not yet flushed cannot be read: \<^verbatim>\<open>Read\<close> looks at the updates and at the mapped
  file only, and the file ends before the page.\<close>

theorem read_unflushed_faults:
  assumes "mapped pm" "length (db_file pm) \<le> PageSize * unat (flushed pm)"
    "PageSize * (unat (flushed pm) + length (temp pm)) < 2 ^ 60" "Alloc pm page = (ptr, pm')" "updates pm ptr = None"
  shows "Read pm' ptr = None"
proof -
  have ptr: "ptr = flushed pm + of_nat (length (temp pm))" "pm' = pm\<lparr>temp := temp pm @ [page]\<rparr>"
    using assms(4) by (auto simp: Alloc_def)
  have u: "unat ptr = unat (flushed pm) + length (temp pm)"
    unfolding ptr(1) by (rule unat_flushed_add [OF assms(3)]) simp
  have "Read_chunks (db_file pm) (chunks pm) 0 0 ptr = None"
    by (rule Read_chunks_beyond) (use assms(1-3) u in \<open>simp_all add: mapped_def add_mult_distrib2\<close>)
  then show ?thesis using assms(5) ptr(2) by (simp add: Read_def)
qed

theorem read_unflushed_faults_witness:
  "\<exists>ptr pm'. Alloc flush_example (replicate PageSize 9) = (ptr, pm') \<and> Read pm' ptr = None"
proof -
  obtain ptr pm' where a: "Alloc flush_example (replicate PageSize 9) = (ptr, pm')" by fastforce
  have "Read pm' ptr = None"
    by (rule read_unflushed_faults [OF _ _ _ a]) (auto simp: flush_example_def NewPageMgr_def mapped_def PageSize_def)
  then show ?thesis using a by blast
qed

text \<open>New pages are written back to back by their slice lengths, not at the offsets of their pointers: when the
  first of two new pages is an 8192-byte slice, the pointer of the second page reads the tail of the first.\<close>

theorem flush_misplaces_long_page:
  assumes "os_ok S" "mapped pm" "mmap_total pm < 2 ^ 61" "updates pm = (\<lambda>_. None)" "temp pm = [p, q]"
    "length p = 2 * PageSize" "length q = PageSize" "length (db_file pm) = PageSize * unat (flushed pm)"
    "PageSize * (unat (flushed pm) + 2) < 2 ^ 60"
  shows "\<exists>pm'. FlushPages S [] pm = (2, None, pm') \<and> Read pm' (flushed pm + 1) = Some (drop PageSize p)"
proof -
  let ?n = "unat (flushed pm)"
  have n2: "unat (flushed pm + of_nat 2) = ?n + 2" "unat (flushed pm + of_nat 1) = ?n + 1"
    using unat_flushed_add [OF assms(9), of 2] unat_flushed_add [OF assms(9), of 1] by simp_all
  have "sint ((flushed pm + of_nat 2) * of_nat PageSize) = int (PageSize * (?n + 2))"
    by (rule sint_page_offset [of "flushed pm + of_nat 2", unfolded n2(1)]) (use assms(9) in simp)
  moreover obtain pm1 where m: "ExtendMMap S pm (int (PageSize * (?n + 2))) = Inr pm1" "mapped pm1"
    "PageSize * (?n + 2) \<le> mmap_total pm1" "db_file pm1 = db_file pm" "flushed pm1 = flushed pm"
    "temp pm1 = temp pm" "updates pm1 = updates pm"
    using ExtendMMap_ok [of S pm "PageSize * (?n + 2)"] assms(1-3,9) by (auto simp: os_ok_def)
  ultimately have ext: "ExtendMMap S pm (sint ((flushed pm + of_nat 2) * of_nat PageSize)) = Inr pm1" by simp
  define f2 where "f2 = file_write (db_file pm) (PageSize * ?n) (p @ q)"
  have w: "writeAt S (db_file pm) (p @ q) (sint (flushed pm * of_nat PageSize)) = (length (p @ q), False, f2)"
    unfolding f2_def using assms(9) by (intro writeAt_page [OF assms(1)]) (simp add: add_mult_distrib2)
  let ?pm' = "pm1\<lparr>db_file := f2, flushed := flushed pm + of_nat 2, temp := []\<rparr>"
  have run: "FlushPages S [] pm = (2, None, ?pm')"
    using ext w m(4-6) assms(5) by (simp add: FlushPages_def)
  have "window f2 (PageSize * ?n) (length (p @ q)) = p @ q" unfolding f2_def by (rule window_file_write(1))
  then have "file_page f2 (Suc ?n) = window (p @ q) PageSize PageSize"
    using window_window [of PageSize PageSize "length (p @ q)" f2 "PageSize * ?n"] assms(6,7)
    by (simp add: file_page_def add.commute)
  also have "\<dots> = drop PageSize p" using assms(6) by (simp add: window_def)
  finally have "file_page f2 (Suc ?n) = drop PageSize p" .
  moreover have "Read ?pm' (flushed pm + 1) = Some (file_page f2 (Suc ?n))"
    using Read_mapped [of ?pm' "flushed pm + 1"] m n2(2) assms(4,6-8)
    by (simp add: mapped_def f2_def length_file_write add_mult_distrib2)
  ultimately show ?thesis using run by auto
qed

theorem flush_misplaces_long_page_witness:
  "\<exists>pm'. FlushPages ideal_os [] (flush_example\<lparr>temp := [replicate (2 * PageSize) 7, replicate PageSize 9]\<rparr>) = (2, None, pm') \<and>
    Read pm' (1 + 1) = Some (replicate PageSize 7)"
proof -
  let ?pm = "flush_example\<lparr>temp := [replicate (2 * PageSize) 7, replicate PageSize 9]\<rparr>"
  have "\<exists>pm'. FlushPages ideal_os [] ?pm = (2, None, pm') \<and>
      Read pm' (flushed ?pm + 1) = Some (drop PageSize (replicate (2 * PageSize) 7))"
    by (rule flush_misplaces_long_page [OF ideal_os_ok])
      (simp_all add: flush_example_def NewPageMgr_def mapped_def, simp_all add: PageSize_def)
  then show ?thesis by (simp add: flush_example_def)
qed

text \<open>C29. Recovery from a file whose first page is an intact meta page restores the recorded number of flushed pages and
  drops all pending pages; if one byte of that page is altered, recovery reports an error and changes nothing.\<close>

theorem recover_intact_or_altered:
  assumes "mapped pm" "updates pm 0 = None" "PageSize \<le> mmap_total pm" "PageSize \<le> length (db_file pm)"
    "WriteMetaFull page m = Some p" "length page = PageSize"
  shows "(file_page (db_file pm) 0 = p \<longrightarrow> Recover pm = Some (None, ResetTo pm (m_flushed m))) \<and>
    (\<forall>i b. i < PageSize \<and> b \<noteq> p ! i \<and> file_page (db_file pm) 0 = p[i := b] \<longrightarrow>
       (\<exists>e. Recover pm = Some (Some e, pm)))"
proof (intro conjI allI impI)
  have s: "sealed p m" using WriteMetaFull_sealed [of page m] assms(5,6) by (simp add: page_offsets)
  have rd: "Read pm 0 = Some (file_page (db_file pm) 0)" using Read_mapped [OF assms(1,2)] assms(3,4) by simp
  show "Recover pm = Some (None, ResetTo pm (m_flushed m))" if "file_page (db_file pm) 0 = p"
    using rd that sealed_reads [OF s] by (auto simp: Recover_def ReadMetaSafe_def)
  fix i b assume a: "i < PageSize \<and> b \<noteq> p ! i \<and> file_page (db_file pm) 0 = p[i := b]"
  have "ReadMetaSafe (p[i := b]) = Some (zero_meta, False)"
    using sealed_altered [OF s, of i b] a by (simp add: page_offsets)
  moreover obtain v where "VerifyMeta (p[i := b]) = Some v"
    using VerifyMeta_eq [of "p[i := b]"] s by (simp add: sealed_def)
  ultimately show "\<exists>e. Recover pm = Some (Some e, pm)"
    using rd a by (cases v) (simp_all add: Recover_def ReadMetaSafe_def)
qed

definition recover_example :: "bytes \<Rightarrow> PageMgr" where
  "recover_example f = (NewPageMgr f)\<lparr>mmap_total := PageSize, chunks := [PageSize]\<rparr>"

theorem recover_intact_or_altered_witness:
  "\<exists>p. WriteMetaFull (replicate PageSize 0) (zero_meta\<lparr>m_flushed := 5\<rparr>) = Some p \<and>
    Recover (recover_example p) = Some (None, ResetTo (recover_example p) 5)"
proof -
  let ?m = "zero_meta\<lparr>m_flushed := 5\<rparr>"
  obtain p where p: "WriteMetaFull (replicate PageSize 0) ?m = Some p" "sealed p ?m"
    using WriteMetaFull_sealed [of "replicate PageSize 0" ?m] by (auto simp: page_offsets)
  have l: "length p = PageSize" using p(2) by (simp add: sealed_def page_offsets)
  have "file_page (db_file (recover_example p)) 0 = p"
    using l by (simp add: file_page_def window_def recover_example_def NewPageMgr_def)
  moreover have "mapped (recover_example p)" "updates (recover_example p) 0 = None"
    "PageSize \<le> mmap_total (recover_example p)" "PageSize \<le> length (db_file (recover_example p))"
    using l by (simp_all add: recover_example_def NewPageMgr_def mapped_def) (simp add: PageSize_def)
  ultimately have "Recover (recover_example p) = Some (None, ResetTo (recover_example p) (m_flushed ?m))"
    using recover_intact_or_altered [OF _ _ _ _ p(1)] by simp
  then show ?thesis using p(1) by auto
qed

end
