(* ===== verification/FreeList.thy ===== *)
theory FreeList
  imports Prelude Node
begin

text \<open>
  The list of free pages of \<^verbatim>\<open>internal/btree/freelist.go\<close>. The list reaches its pages
  through three callbacks, of which \<open>SetPage\<close> returns a slice that the caller then writes to; the field
  \<open>PutPage\<close> is the effect of such writes on the store behind it. The interface the list relies on is the
  locale \<open>free_store\<close>; over it, the list is a queue as long as it stays on one page.
\<close>

definition FREE_LIST_HEADER :: nat where "FREE_LIST_HEADER = 8"

definition FREE_LIST_CAP :: nat where "FREE_LIST_CAP = (BTREE_PAGE_SIZE - FREE_LIST_HEADER) div 8"

text \<open>The accessors of an \<open>LNode\<close>. An index beyond the slice panics, also where \<open>idx * 8\<close> wraps to a negative position.\<close>

definition getNext :: "bytes \<Rightarrow> u64 option" where
  "getNext node = slice node 0 8 \<bind> le_get 8"

definition setNext :: "bytes \<Rightarrow> u64 \<Rightarrow> bytes option" where
  "setNext node next = (if 8 \<le> length node then put_at node 0 (le_bytes 8 next) else None)"

definition LNode_getPtr :: "bytes \<Rightarrow> u64 \<Rightarrow> u64 option" where
  "LNode_getPtr node idx = u64_at node (unat (of_nat FREE_LIST_HEADER + idx * 8))"

definition LNode_setPtr :: "bytes \<Rightarrow> u64 \<Rightarrow> u64 \<Rightarrow> bytes option" where
  "LNode_setPtr node idx ptr = put_at node (unat (of_nat FREE_LIST_HEADER + idx * 8)) (le_bytes 8 ptr)"

record 's free_pager =
  fl_GetPage :: "'s \<Rightarrow> u64 \<Rightarrow> bytes option"
  fl_NewPage :: "'s \<Rightarrow> bytes \<Rightarrow> (u64 \<times> 's) option"
  fl_SetPage :: "'s \<Rightarrow> u64 \<Rightarrow> (bytes \<times> 's) option"
  fl_PutPage :: "'s \<Rightarrow> u64 \<Rightarrow> bytes \<Rightarrow> 's"

record FreeList =
  HeadPage :: u64
  HeadSeq :: u64
  TailPage :: u64
  TailSeq :: u64
  maxSeq :: u64

definition PopHead :: "'s free_pager \<Rightarrow> 's \<Rightarrow> FreeList \<Rightarrow> (u64 \<times> FreeList \<times> 's) option" where
  "PopHead F s fl =
     (if HeadPage fl = 0 then Some (0, fl, s)
      else do {
        node \<leftarrow> fl_GetPage F s (HeadPage fl);
        ptr \<leftarrow> LNode_getPtr node (HeadSeq fl);
        let fl = fl\<lparr>HeadSeq := HeadSeq fl + 1\<rparr>;
        next \<leftarrow> getNext node;
        (if HeadSeq fl * 8 \<ge> of_nat FREE_LIST_CAP then do {
           let fl = (if next \<noteq> 0 then fl\<lparr>HeadSeq := 0\<rparr> else fl);
           s \<leftarrow> (if next \<noteq> HeadPage fl then map_option snd (fl_SetPage F s (HeadPage fl)) else Some s);
           Some (ptr, fl\<lparr>HeadPage := next\<rparr>, s)
         }
         else Some (ptr, fl, s))
      })"

text \<open>A fresh page for the end of the list.\<close>

definition new_LNode :: "bytes option" where
  "new_LNode = setNext (replicate BTREE_PAGE_SIZE 0) 0"

definition PushTail :: "'s free_pager \<Rightarrow> 's \<Rightarrow> FreeList \<Rightarrow> u64 \<Rightarrow> (FreeList \<times> 's) option" where
  "PushTail F s fl ptr = do {
     (fl, s) \<leftarrow>
       (if TailPage fl = 0 then do {
          data \<leftarrow> new_LNode;
          (p, s) \<leftarrow> fl_NewPage F s data;
          Some (fl\<lparr>TailPage := p, HeadPage := p\<rparr>, s)
        }
        else Some (fl, s));
     (node, s) \<leftarrow> fl_SetPage F s (TailPage fl);
     let idx = TailSeq fl mod of_nat FREE_LIST_CAP;
     node \<leftarrow> LNode_setPtr node idx ptr;
     let s = fl_PutPage F s (TailPage fl) node;
     let fl' = fl\<lparr>TailSeq := TailSeq fl + 1\<rparr>;
     (if TailSeq fl' mod of_nat FREE_LIST_CAP = 0 then do {
        data \<leftarrow> new_LNode;
        (next, s) \<leftarrow> fl_NewPage F s data;
        node \<leftarrow> setNext node next;
        Some (fl'\<lparr>TailPage := next\<rparr>, fl_PutPage F s (TailPage fl) node)
      }
      else Some (fl', s))
   }"

definition SetMaxSeq :: "FreeList \<Rightarrow> FreeList" where
  "SetMaxSeq fl = fl\<lparr>maxSeq := TailSeq fl\<rparr>"

section \<open>The pages behind the list\<close>

text \<open>
  \<open>view\<close> gives the pages that can be read. \<open>SetPage\<close> makes a page writable without changing it, and a write through the
  slice it returned changes that page and no other; \<open>NewPage\<close> disturbs no page.
\<close>

locale free_store =
  fixes F :: "'s free_pager"
    and view :: "'s \<Rightarrow> u64 \<Rightarrow> bytes option"
    and writable :: "'s \<Rightarrow> u64 \<Rightarrow> bool"
    and ok :: "'s \<Rightarrow> bool"
  assumes get_page: "ok s \<Longrightarrow> view s p = Some b \<Longrightarrow> fl_GetPage F s p = Some b"
    and set_page: "ok s \<Longrightarrow> view s p = Some b \<Longrightarrow>
      \<exists>s'. fl_SetPage F s p = Some (b, s') \<and> ok s' \<and> view s' = view s \<and> writable s' p"
    and put_page: "ok s \<Longrightarrow> writable s p \<Longrightarrow> view s p = Some b \<Longrightarrow> length b' = length b \<Longrightarrow>
      ok (fl_PutPage F s p b') \<and> view (fl_PutPage F s p b') = (view s)(p \<mapsto> b') \<and> writable (fl_PutPage F s p b') p"
    and new_page: "ok s \<Longrightarrow> length b = BTREE_PAGE_SIZE \<Longrightarrow>
      \<exists>p s'. fl_NewPage F s b = Some (p, s') \<and> ok s' \<and> (\<forall>q b. view s q = Some b \<longrightarrow> view s' q = Some b) \<and>
        (\<forall>q. writable s q \<longrightarrow> writable s' q)"

section \<open>The list as a queue\<close>

text \<open>
  The pointers in the list while head and tail are on one page \<open>b\<close>, from \<open>HeadSeq\<close> to \<open>TailSeq\<close>.
\<close>

definition slots :: "bytes \<Rightarrow> nat \<Rightarrow> nat \<Rightarrow> u64 list" where
  "slots b i j = map (\<lambda>k. le_val (window b (8 + 8 * k) 8)) [i..<j]"

definition one_page :: "(u64 \<Rightarrow> bytes option) \<Rightarrow> FreeList \<Rightarrow> u64 list \<Rightarrow> bool" where
  "one_page m fl qs \<longleftrightarrow> HeadPage fl \<noteq> 0 \<and> TailPage fl = HeadPage fl \<and>
     unat (HeadSeq fl) \<le> unat (TailSeq fl) \<and> unat (TailSeq fl) < FREE_LIST_CAP \<and>
     (\<exists>b. m (HeadPage fl) = Some b \<and> length b = BTREE_PAGE_SIZE \<and>
        qs = slots b (unat (HeadSeq fl)) (unat (TailSeq fl)))"

lemma FREE_LIST_CAP_eq [simp]: "FREE_LIST_CAP = 511"
  by (simp add: FREE_LIST_CAP_def BTREE_PAGE_SIZE_def FREE_LIST_HEADER_def)

lemma unat_of_nat_u64: "n < 2 ^ 64 \<Longrightarrow> unat (of_nat n :: u64) = n"
  by (simp add: unsigned_of_nat take_bit_nat_eq_self)

lemma slot_pos:
  assumes "unat i < 511"
  shows "unat (of_nat FREE_LIST_HEADER + i * 8 :: u64) = 8 + 8 * unat i"
proof -
  have "(of_nat FREE_LIST_HEADER + i * 8 :: u64) = of_nat (8 + 8 * unat i)"
    by (simp add: FREE_LIST_HEADER_def mult.commute)
  moreover have "unat (of_nat (8 + 8 * unat i) :: u64) = 8 + 8 * unat i"
    using assms by (intro unat_of_nat_u64) simp
  ultimately show ?thesis by (simp only:)
qed

lemma getPtr_slot:
  assumes "unat i < 511" "length b = BTREE_PAGE_SIZE"
  shows "LNode_getPtr b i = Some (le_val (window b (8 + 8 * unat i) 8))"
  using assms slot_pos [OF assms(1)]
  by (simp add: LNode_getPtr_def u64_at_def byte_simps window_def BTREE_PAGE_SIZE_def)

lemma setPtr_slot:
  assumes "unat i < 511" "length b = BTREE_PAGE_SIZE"
  shows "LNode_setPtr b i p = Some (overwrite b (8 + 8 * unat i) (le_bytes 8 p))"
  using assms slot_pos [OF assms(1)] by (simp add: LNode_setPtr_def put_at_def BTREE_PAGE_SIZE_def)

lemma slots_overwrite:
  assumes "length b = BTREE_PAGE_SIZE" "i \<le> j" "j < 511"
  shows "slots (overwrite b (8 + 8 * j) (le_bytes 8 p)) i (Suc j) = slots b i j @ [p]"
proof -
  have "window (overwrite b (8 + 8 * j) (le_bytes 8 p)) (8 + 8 * k) 8 = window b (8 + 8 * k) 8" if "k < j" for k
    using that assms by (intro window_overwrite_before) (simp_all add: BTREE_PAGE_SIZE_def)
  moreover have "window (overwrite b (8 + 8 * j) (le_bytes 8 p)) (8 + 8 * j) 8 = le_bytes 8 p"
    using assms window_overwrite_same [of "8 + 8 * j" "le_bytes 8 p" b] by (simp add: BTREE_PAGE_SIZE_def)
  ultimately show ?thesis using assms(2) by (auto simp: slots_def)
qed

lemma slots_Cons: "i < j \<Longrightarrow> slots b i j = le_val (window b (8 + 8 * i) 8) # slots b (Suc i) j"
  by (simp add: slots_def upt_conv_Cons)

lemma getNext_page: "length b = BTREE_PAGE_SIZE \<Longrightarrow> getNext b = Some (le_val (take 8 b))"
  by (simp add: getNext_def byte_simps BTREE_PAGE_SIZE_def)

lemma unat_Suc_u64: "unat (w :: u64) < 1000 \<Longrightarrow> unat (w + 1) = Suc (unat w)"
  using unat_of_nat_u64 [of "Suc (unat w)"] by (simp add: add.commute)

lemma new_LNode_page: "\<exists>b. new_LNode = Some b \<and> length b = BTREE_PAGE_SIZE"
  by (simp add: new_LNode_def setNext_def put_at_def BTREE_PAGE_SIZE_def)

lemma mod_small: "unat (w :: u64) < 511 \<Longrightarrow> w mod 511 = w"
  by (simp add: word_less_nat_alt mod_word_less)

text \<open>A sequence of operations on the list, and on a queue.\<close>

datatype fl_cmd = Push u64 | Pop

fun fl_run :: "'s free_pager \<Rightarrow> 's \<Rightarrow> FreeList \<Rightarrow> fl_cmd list \<Rightarrow> (u64 list \<times> FreeList \<times> 's) option" where
  "fl_run F s fl [] = Some ([], fl, s)"
| "fl_run F s fl (Push p # cs) = do { (fl, s) \<leftarrow> PushTail F s fl p; fl_run F s fl cs }"
| "fl_run F s fl (Pop # cs) = do {
     (p, fl, s) \<leftarrow> PopHead F s fl;
     (ps, fl, s) \<leftarrow> fl_run F s fl cs;
     Some (p # ps, fl, s)
   }"

fun q_run :: "u64 list \<Rightarrow> fl_cmd list \<Rightarrow> (u64 list \<times> u64 list) option" where
  "q_run qs [] = Some ([], qs)"
| "q_run qs (Push p # cs) = q_run (qs @ [p]) cs"
| "q_run [] (Pop # cs) = None"
| "q_run (q # qs) (Pop # cs) = do { (ps, qs) \<leftarrow> q_run qs cs; Some (q # ps, qs) }"

definition pushes :: "fl_cmd list \<Rightarrow> nat" where
  "pushes cs = length (filter (\<lambda>c. c \<noteq> Pop) cs)"

definition pops :: "fl_cmd list \<Rightarrow> nat" where
  "pops cs = length (filter (\<lambda>c. c = Pop) cs)"

context free_store
begin

lemma PushTail_queue:
  assumes "ok s" "one_page (view s) fl qs" "unat (TailSeq fl) < 510"
  shows "\<exists>fl' s'. PushTail F s fl p = Some (fl', s') \<and> ok s' \<and> one_page (view s') fl' (qs @ [p]) \<and>
    HeadSeq fl' = HeadSeq fl \<and> unat (TailSeq fl') = Suc (unat (TailSeq fl)) \<and> HeadPage fl' = HeadPage fl \<and>
    (\<forall>q. q \<noteq> HeadPage fl \<longrightarrow> view s' q = view s q)"
proof -
  obtain b where b: "view s (HeadPage fl) = Some b" "length b = BTREE_PAGE_SIZE"
    "qs = slots b (unat (HeadSeq fl)) (unat (TailSeq fl))"
    using assms(2) by (auto simp: one_page_def)
  have fl: "HeadPage fl \<noteq> 0" "TailPage fl = HeadPage fl" "unat (HeadSeq fl) \<le> unat (TailSeq fl)"
    using assms(2) by (simp_all add: one_page_def)
  obtain s1 where s1: "fl_SetPage F s (HeadPage fl) = Some (b, s1)" "ok s1" "view s1 = view s" "writable s1 (HeadPage fl)"
    using set_page [OF assms(1) b(1)] by blast
  let ?b = "overwrite b (8 + 8 * unat (TailSeq fl)) (le_bytes 8 p)"
  have len: "length ?b = length b" using assms(3) b(2) by (simp add: BTREE_PAGE_SIZE_def)
  note put = put_page [OF s1(2,4), of b ?b]
  have t: "unat (TailSeq fl + 1) = Suc (unat (TailSeq fl))" "TailSeq fl mod 511 = TailSeq fl"
    "(TailSeq fl + 1) mod 511 = TailSeq fl + 1"
    using assms(3) unat_Suc_u64 [of "TailSeq fl"] by (simp_all add: mod_small)
  then have "TailSeq fl + 1 \<noteq> 0" by (metis nat.distinct(1) unat_0)
  then have "PushTail F s fl p = Some (fl\<lparr>TailSeq := TailSeq fl + 1\<rparr>, fl_PutPage F s1 (HeadPage fl) ?b)"
    using fl s1(1) t setPtr_slot [of "TailSeq fl" b p] b(2) assms(3) by (simp add: PushTail_def Let_def)
  moreover have "slots ?b (unat (HeadSeq fl)) (Suc (unat (TailSeq fl))) = qs @ [p]"
    using slots_overwrite [OF b(2) fl(3)] assms(3) b(3) by simp
  ultimately show ?thesis
    using put s1(3) b(1,2) len t(1) fl assms(3) by (simp add: one_page_def)
qed

lemma PopHead_queue:
  assumes "ok s" "one_page (view s) fl (q # qs)" "unat (HeadSeq fl) < 63"
  shows "\<exists>fl'. PopHead F s fl = Some (q, fl', s) \<and> one_page (view s) fl' qs \<and> unat (HeadSeq fl') = Suc (unat (HeadSeq fl)) \<and>
    TailSeq fl' = TailSeq fl \<and> HeadPage fl' = HeadPage fl"
proof -
  obtain b where b: "view s (HeadPage fl) = Some b" "length b = BTREE_PAGE_SIZE"
    "q # qs = slots b (unat (HeadSeq fl)) (unat (TailSeq fl))"
    using assms(2) by (auto simp: one_page_def)
  have lt: "unat (HeadSeq fl) < unat (TailSeq fl)" using b(3) by (cases "unat (HeadSeq fl) < unat (TailSeq fl)") (simp_all add: slots_def)
  have q: "q = le_val (window b (8 + 8 * unat (HeadSeq fl)) 8)" "qs = slots b (Suc (unat (HeadSeq fl))) (unat (TailSeq fl))"
    using b(3) slots_Cons [OF lt] by simp_all
  have h: "unat (HeadSeq fl + 1) = Suc (unat (HeadSeq fl))" using unat_Suc_u64 assms(3) by simp
  have "unat ((HeadSeq fl + 1) * 8) = Suc (unat (HeadSeq fl)) * 8"
    using h assms(3) by (simp add: unat_word_ariths)
  then have "\<not> 511 \<le> (HeadSeq fl + 1) * 8" using assms(3) by (simp add: word_le_nat_alt)
  then have "PopHead F s fl = Some (q, fl\<lparr>HeadSeq := HeadSeq fl + 1\<rparr>, s)"
    using assms(2,3) get_page [OF assms(1) b(1)] getPtr_slot [of "HeadSeq fl" b] getNext_page [OF b(2)] b(2) q(1)
    by (simp add: PopHead_def one_page_def Let_def)
  then show ?thesis using assms(2) b(1,2) q(2) h lt by (simp add: one_page_def)
qed

text \<open>The last slot of a page: the list grows by a page.\<close>

lemma PushTail_page_full:
  assumes "ok s" "one_page (view s) fl qs" "unat (TailSeq fl) = 510"
  shows "\<exists>fl' s' nx b. PushTail F s fl p = Some (fl', s') \<and> ok s' \<and> TailPage fl' = nx \<and> HeadPage fl' = HeadPage fl \<and>
    view s' (HeadPage fl) = Some b \<and> getNext b = Some nx \<and> slots b (unat (HeadSeq fl)) 511 = qs @ [p] \<and> TailSeq fl' = 511"
proof -
  obtain b where b: "view s (HeadPage fl) = Some b" "length b = BTREE_PAGE_SIZE"
    "qs = slots b (unat (HeadSeq fl)) 510"
    using assms(2,3) by (auto simp: one_page_def)
  have fl: "HeadPage fl \<noteq> 0" "TailPage fl = HeadPage fl" "unat (HeadSeq fl) \<le> 510"
    using assms(2,3) by (simp_all add: one_page_def)
  obtain s1 where s1: "fl_SetPage F s (HeadPage fl) = Some (b, s1)" "ok s1" "view s1 = view s" "writable s1 (HeadPage fl)"
    using set_page [OF assms(1) b(1)] by blast
  let ?b = "overwrite b (8 + 8 * 510) (le_bytes 8 p)"
  have len: "length ?b = BTREE_PAGE_SIZE" using b(2) by (simp add: BTREE_PAGE_SIZE_def)
  define s2 where "s2 = fl_PutPage F s1 (HeadPage fl) ?b"
  have s2: "ok s2" "view s2 (HeadPage fl) = Some ?b" "writable s2 (HeadPage fl)"
    using put_page [OF s1(2,4), of b ?b] s1(3) b len by (simp_all add: s2_def)
  obtain d where d: "new_LNode = Some d" "length d = BTREE_PAGE_SIZE" using new_LNode_page by blast
  obtain nx s3 where s3: "fl_NewPage F s2 d = Some (nx, s3)" "ok s3" "view s3 (HeadPage fl) = Some ?b" "writable s3 (HeadPage fl)"
    using new_page [OF s2(1) d(2)] s2 by blast
  let ?c = "overwrite ?b 0 (le_bytes 8 nx)"
  have c: "setNext ?b nx = Some ?c" "length ?c = length ?b" "getNext ?c = Some nx"
    using len getNext_page [of ?c] by (simp_all add: setNext_def put_at_def BTREE_PAGE_SIZE_def overwrite_def)
  note put = put_page [OF s3(2,4,3) c(2)]
  have t: "TailSeq fl = 510" using assms(3) by (simp add: word_unat_eq_iff)
  have "slots ?c i 511 = slots ?b i 511" for i
    using len window_overwrite_after [of 0 "le_bytes 8 nx"] by (auto simp: slots_def BTREE_PAGE_SIZE_def)
  then have "slots ?c (unat (HeadSeq fl)) 511 = qs @ [p]"
    using slots_overwrite [OF b(2) fl(3), of p] b(3) by simp
  moreover have "PushTail F s fl p = Some (fl\<lparr>TailSeq := 511, TailPage := nx\<rparr>, fl_PutPage F s3 (HeadPage fl) ?c)"
    using fl s1(1) t setPtr_slot [of 510 b p] b(2) s3(1) c(1)
    unfolding PushTail_def d(1) by (simp add: s2_def)
  ultimately show ?thesis
    using put c(3) by simp
qed

lemma fl_run_queue:
  assumes "ok s" "one_page (view s) fl qs" "q_run qs cs = Some (ps, qs')"
    "unat (TailSeq fl) + pushes cs \<le> 510" "unat (HeadSeq fl) + pops cs \<le> 63"
  shows "\<exists>fl' s'. fl_run F s fl cs = Some (ps, fl', s') \<and> ok s' \<and> one_page (view s') fl' qs'"
  using assms
proof (induction cs arbitrary: s fl qs ps)
  case Nil
  then show ?case by simp
next
  case (Cons c cs)
  show ?case
  proof (cases c)
    case (Push p)
    have "unat (TailSeq fl) < 510" using Cons.prems(4) Push by (simp add: pushes_def)
    then obtain fl1 s1 where 1: "PushTail F s fl p = Some (fl1, s1)" "ok s1" "one_page (view s1) fl1 (qs @ [p])"
      "HeadSeq fl1 = HeadSeq fl" "unat (TailSeq fl1) = Suc (unat (TailSeq fl))"
      using PushTail_queue [OF Cons.prems(1,2)] by blast
    then show ?thesis using Cons.IH [OF 1(2,3)] Cons.prems Push by (simp add: pushes_def pops_def)
  next
    case Pop
    then obtain q qs1 where q: "qs = q # qs1" using Cons.prems(3) by (cases qs) auto
    have "unat (HeadSeq fl) < 63" using Cons.prems(5) Pop by (simp add: pops_def)
    then obtain fl1 where 1: "PopHead F s fl = Some (q, fl1, s)" "one_page (view s) fl1 qs1"
      "unat (HeadSeq fl1) = Suc (unat (HeadSeq fl))" "TailSeq fl1 = TailSeq fl"
      using PopHead_queue [OF Cons.prems(1), of fl q qs1] Cons.prems(2) q by blast
    obtain ps1 where "q_run qs1 cs = Some (ps1, qs')" "ps = q # ps1"
      using Cons.prems(3) Pop q by (auto split: Option.bind_splits)
    then show ?thesis using Cons.IH [OF Cons.prems(1) 1(2)] Cons.prems 1 Pop by (auto simp: pushes_def pops_def)
  qed
qed

text \<open>The 64th pop leaves the page, whatever is still on it.\<close>

lemma PopHead_abandons:
  assumes "ok s" "one_page (view s) fl (q # qs)" "unat (HeadSeq fl) = 63"
    "view s (HeadPage fl) = Some b" "getNext b = Some 0"
  shows "\<exists>fl' s'. PopHead F s fl = Some (q, fl', s') \<and> PopHead F s' fl' = Some (0, fl', s')"
proof -
  have len: "length b = BTREE_PAGE_SIZE" and
    sl: "q # qs = slots b 63 (unat (TailSeq fl))" using assms by (auto simp: one_page_def)
  have "63 < unat (TailSeq fl)" using sl by (cases "63 < unat (TailSeq fl)") (simp_all add: slots_def)
  then have q: "q = le_val (window b (8 + 8 * 63) 8)" using sl slots_Cons [of 63 "unat (TailSeq fl)" b] by simp
  have h: "HeadSeq fl = 63" using assms(3) by (simp add: word_unat_eq_iff)
  have hp: "HeadPage fl \<noteq> 0" using assms(2) by (simp add: one_page_def)
  obtain s1 where s1: "fl_SetPage F s (HeadPage fl) = Some (b, s1)" using set_page [OF assms(1,4)] by blast
  have "PopHead F s fl = Some (q, fl\<lparr>HeadSeq := 64, HeadPage := 0\<rparr>, s1)"
    using hp get_page [OF assms(1,4)] getPtr_slot [of 63 b] len h q assms(5) s1 by (simp add: PopHead_def)
  then show ?thesis by (simp add: PopHead_def)
qed

end

end
