(* ===== verification/Overflow.thy ===== *)
theory Overflow
  imports BTree
begin

text \<open>
  Overflow chains of \<^verbatim>\<open>internal/btree/overflow.go\<close>: a value too long for a node is cut into chunks, one per page,
  linked by a next pointer. \<open>allocOverflow\<close> patches the page it allocated before through the slice that
  \<open>GetPage\<close> returned; the field \<open>PutPage\<close> is the effect of such a write on the store behind the
  slice. What the chains rely on is the locale \<open>overflow_store\<close>.
\<close>

definition OVFL_MAGIC :: u16 where "OVFL_MAGIC = 0xBEEF"

record 's ovfl_pager = "'s pager" +
  PutPage :: "'s \<Rightarrow> u64 \<Rightarrow> bytes \<Rightarrow> 's option"

definition maxChunk :: nat where "maxChunk = BTREE_PAGE_SIZE - 12"

lemma maxChunk_eq: "maxChunk = 4084"
  by (simp add: maxChunk_def BTREE_PAGE_SIZE_def)

definition new_chunk :: "bytes \<Rightarrow> bytes option" where
  "new_chunk chunk = do {
     let page = replicate BTREE_PAGE_SIZE 0;
     page \<leftarrow> put_at page 0 (le_bytes 2 OVFL_MAGIC);
     page \<leftarrow> put_at page 2 (le_bytes 2 (of_nat (length chunk) :: u16));
     page \<leftarrow> put_at page 4 (le_bytes 8 (0 :: u64));
     copy_at page 12 chunk
   }"

text \<open>The write of the next pointer into the previous page.\<close>

definition link_prev :: "('s, 'z) ovfl_pager_scheme \<Rightarrow> 's \<Rightarrow> u64 \<Rightarrow> u64 \<Rightarrow> 's option" where
  "link_prev P s prevPtr ptr =
     (if prevPtr \<noteq> 0 then do {
        prevPage \<leftarrow> GetPage P s prevPtr;
        prevPage \<leftarrow> (if 12 \<le> length prevPage then put_at prevPage 4 (le_bytes 8 ptr) else None);
        PutPage P s prevPtr prevPage
      }
      else Some s)"

function allocOverflow_loop ::
  "('s, 'z) ovfl_pager_scheme \<Rightarrow> 's \<Rightarrow> bytes \<Rightarrow> u64 \<Rightarrow> u64 \<Rightarrow> (u64 \<times> 's) option" where
  "allocOverflow_loop P s remaining firstPtr prevPtr =
     (if remaining = [] then Some (firstPtr, s)
      else do {
        let chunk = take maxChunk remaining;
        page \<leftarrow> new_chunk chunk;
        (ptr, s) \<leftarrow> NewPage P s page;
        let firstPtr = (if firstPtr = 0 then ptr else firstPtr);
        s \<leftarrow> link_prev P s prevPtr ptr;
        allocOverflow_loop P s (drop (length chunk) remaining) firstPtr ptr
      })"
  by pat_completeness auto
termination
  by (relation "measure (\<lambda>(P, s, remaining, f, p). length remaining)") (auto simp: maxChunk_eq)

declare allocOverflow_loop.simps [simp del]

definition allocOverflow :: "('s, 'z) ovfl_pager_scheme \<Rightarrow> 's \<Rightarrow> bytes \<Rightarrow> (u64 \<times> 's) option" where
  "allocOverflow P s data = allocOverflow_loop P s data 0 0"

text \<open>The header fields of an overflow page: magic number, chunk length, next page.\<close>

definition page_magic :: "bytes \<Rightarrow> u16 option" where
  "page_magic page = slice page 0 2 \<bind> le_get 2"

definition page_len :: "bytes \<Rightarrow> u16 option" where
  "page_len page = slice page 2 4 \<bind> le_get 2"

definition page_next :: "bytes \<Rightarrow> u64 option" where
  "page_next page = slice page 4 12 \<bind> le_get 8"

partial_function (option) readOverflow_loop ::
  "('s, 'z) ovfl_pager_scheme \<Rightarrow> 's \<Rightarrow> u64 \<Rightarrow> bytes \<Rightarrow> bytes option" where
  "readOverflow_loop P s ptr out =
     (if ptr = 0 then Some out
      else do {
        page \<leftarrow> GetPage P s ptr;
        magic \<leftarrow> page_magic page;
        (if magic \<noteq> OVFL_MAGIC then Some out
         else do {
           chunkLen \<leftarrow> page_len page;
           chunk \<leftarrow> slice page 12 (unat (12 + chunkLen));
           ptr \<leftarrow> page_next page;
           readOverflow_loop P s ptr (out @ chunk)
         })
      })"

definition readOverflow :: "('s, 'z) ovfl_pager_scheme \<Rightarrow> 's \<Rightarrow> u64 \<Rightarrow> bytes option" where
  "readOverflow P s ptr = readOverflow_loop P s ptr []"

partial_function (option) freeOverflow :: "('s, 'z) ovfl_pager_scheme \<Rightarrow> 's \<Rightarrow> u64 \<Rightarrow> 's option" where
  "freeOverflow P s ptr =
     (if ptr = 0 then Some s
      else do {
        page \<leftarrow> GetPage P s ptr;
        n \<leftarrow> page_next page;
        s \<leftarrow> DelPage P s ptr;
        freeOverflow P s n
      })"

function overflowSize_loop :: "nat \<Rightarrow> nat \<Rightarrow> nat" where
  "overflowSize_loop n pages =
     (if n > 0 then overflowSize_loop (if n > maxChunk then n - maxChunk else 0) (pages + 1) else pages)"
  by pat_completeness auto
termination
  by (relation "measure fst") (auto simp: maxChunk_eq)

declare overflowSize_loop.simps [simp del]

definition overflowSize :: "bytes \<Rightarrow> nat" where
  "overflowSize data = overflowSize_loop (length data) 0"

section \<open>The number of pages\<close>

lemma overflowSize_loop_eq: "overflowSize_loop n k = k + (n + (maxChunk - 1)) div maxChunk"
proof (induction n k rule: overflowSize_loop.induct)
  case (1 n k)
  show ?case
  proof (cases "n > maxChunk")
    case True
    then have "(n + (maxChunk - 1)) div maxChunk = Suc ((n - maxChunk + (maxChunk - 1)) div maxChunk)"
      using div_add_self1 [of maxChunk "n - maxChunk + (maxChunk - 1)"] by (simp add: maxChunk_eq)
    then show ?thesis using 1 True by (subst overflowSize_loop.simps) simp
  next
    case False
    then have "n = 0 \<or> (n + (maxChunk - 1)) div maxChunk = 1" by (auto simp: maxChunk_eq)
    then show ?thesis using 1 False by (subst overflowSize_loop.simps) (auto simp: maxChunk_eq)
  qed
qed

lemma overflowSize_step:
  "overflowSize [] = 0" "data \<noteq> [] \<Longrightarrow> overflowSize data = Suc (overflowSize (drop maxChunk data))"
proof -
  show "overflowSize [] = 0" by (simp add: overflowSize_def overflowSize_loop.simps)
  assume "data \<noteq> []"
  then have "overflowSize data = overflowSize_loop (length (drop maxChunk data)) 1"
    unfolding overflowSize_def by (subst overflowSize_loop.simps) simp
  then show "overflowSize data = Suc (overflowSize (drop maxChunk data))"
    by (simp add: overflowSize_def overflowSize_loop_eq)
qed

section \<open>The pages of a chain\<close>

definition ovpage :: "bytes \<Rightarrow> u64 \<Rightarrow> bytes" where
  "ovpage chunk n = le_bytes 2 OVFL_MAGIC @ le_bytes 2 (of_nat (length chunk) :: u16) @ le_bytes 8 n @ chunk @
     replicate (maxChunk - length chunk) 0"

lemma new_chunk_eq:
  assumes "length chunk \<le> maxChunk"
  shows "new_chunk chunk = Some (ovpage chunk 0)"
  using assms
  by (simp add: new_chunk_def put_at_def copy_at_def overwrite_def ovpage_def maxChunk_def BTREE_PAGE_SIZE_def)

lemma ovpage_link:
  assumes "length chunk \<le> maxChunk"
  shows "put_at (ovpage chunk n) 4 (le_bytes 8 n') = Some (ovpage chunk n')" "12 \<le> length (ovpage chunk n)"
    "length (ovpage chunk n) = BTREE_PAGE_SIZE"
  using assms by (simp_all add: ovpage_def put_at_def overwrite_def maxChunk_def BTREE_PAGE_SIZE_def)

lemma ovpage_read:
  assumes "length chunk \<le> maxChunk"
  shows "page_magic (ovpage chunk n) = Some OVFL_MAGIC"
    "page_len (ovpage chunk n) = Some (of_nat (length chunk))"
    "page_next (ovpage chunk n) = Some n"
    "slice (ovpage chunk n) 12 (unat (12 + of_nat (length chunk) :: u16)) = Some chunk"
proof -
  show "page_magic (ovpage chunk n) = Some OVFL_MAGIC"
    "page_len (ovpage chunk n) = Some (of_nat (length chunk))"
    "page_next (ovpage chunk n) = Some n"
    by (simp_all add: page_magic_def page_len_def page_next_def ovpage_def byte_simps)
  have "unat (of_nat (length chunk + 12) :: u16) = length chunk + 12"
    using assms by (intro unat_of_nat_u16) (simp add: maxChunk_eq)
  then have "unat (12 + of_nat (length chunk) :: u16) = length chunk + 12" by (simp add: add.commute)
  then show "slice (ovpage chunk n) 12 (unat (12 + of_nat (length chunk) :: u16)) = Some chunk"
    using assms by (simp add: ovpage_def slice_def)
qed

text \<open>The pages \<open>ps\<close> hold the chunks \<open>cs\<close>, each linked to the one after it.\<close>

fun linked :: "(u64 \<Rightarrow> bytes option) \<Rightarrow> u64 list \<Rightarrow> bytes list \<Rightarrow> bool" where
  "linked m [] [] \<longleftrightarrow> True"
| "linked m (p # ps) (c # cs) \<longleftrightarrow> p \<noteq> 0 \<and> m p = Some (ovpage c (case ps of [] \<Rightarrow> 0 | q # _ \<Rightarrow> q)) \<and>
     length c \<le> maxChunk \<and> linked m ps cs"
| "linked m _ _ \<longleftrightarrow> False"

abbreviation first_ptr :: "u64 list \<Rightarrow> u64" where
  "first_ptr ps \<equiv> (case ps of [] \<Rightarrow> 0 | p # _ \<Rightarrow> p)"

lemma linked_Nil [simp]: "linked m [] cs \<longleftrightarrow> cs = []" "linked m ps [] \<longleftrightarrow> ps = []"
  by (cases cs; simp) (cases ps; simp)

lemma linked_cong: "linked m ps cs \<Longrightarrow> (\<And>p. p \<in> set ps \<Longrightarrow> m' p = m p) \<Longrightarrow> linked m' ps cs"
  by (induction m ps cs rule: linked.induct) auto

lemma linked_dom: "linked m ps cs \<Longrightarrow> set ps \<subseteq> dom m"
  by (induction m ps cs rule: linked.induct) auto

lemma linked_last: "linked m (ps @ [p]) (cs @ [c]) \<Longrightarrow> p \<noteq> 0 \<and> m p = Some (ovpage c 0) \<and> length c \<le> maxChunk"
proof (induction ps arbitrary: cs)
  case Nil
  then show ?case by (cases cs) auto
next
  case (Cons a ps)
  then show ?case by (cases cs) auto
qed

text \<open>Linking one more page to a chain.\<close>

lemma linked_snoc:
  assumes "linked m (ps @ [p]) (cs @ [c])" "distinct (ps @ [p, q])" "q \<noteq> 0" "length d \<le> maxChunk"
    "m' p = Some (ovpage c q)" "m' q = Some (ovpage d 0)" "\<And>r. r \<in> set ps \<Longrightarrow> m' r = m r"
  shows "linked m' (ps @ [p, q]) (cs @ [c, d])"
  using assms
proof (induction ps arbitrary: cs)
  case Nil
  then show ?case by (cases cs) auto
next
  case (Cons a ps)
  then obtain e cs' where cs: "cs = e # cs'" by (cases cs) auto
  then show ?case using Cons by (cases ps) (auto split: list.splits)
qed

section \<open>The store behind the chains\<close>

locale overflow_store =
  fixes P :: "('s, 'z) ovfl_pager_scheme"
    and view :: "'s \<Rightarrow> u64 \<Rightarrow> bytes option"
    and ok :: "'s \<Rightarrow> bool"
    and cap :: "'s \<Rightarrow> nat"
  assumes get_page: "ok s \<Longrightarrow> view s p = Some b \<Longrightarrow> GetPage P s p = Some b"
    and new_page: "ok s \<Longrightarrow> 0 < cap s \<Longrightarrow> length b = BTREE_PAGE_SIZE \<Longrightarrow>
      \<exists>p s'. NewPage P s b = Some (p, s') \<and> ok s' \<and> p \<noteq> 0 \<and> view s p = None \<and>
        view s' = (view s)(p \<mapsto> b) \<and> cap s = Suc (cap s')"
    and put_page: "ok s \<Longrightarrow> view s p = Some b \<Longrightarrow> length b' = length b \<Longrightarrow>
      \<exists>s'. PutPage P s p b' = Some s' \<and> ok s' \<and> view s' = (view s)(p \<mapsto> b') \<and> cap s' = cap s"

context overflow_store
begin

lemma link_prev_correct:
  assumes "ok s1" "linked (view s) ps cs" "distinct ps" "p \<noteq> 0" "view s p = None"
    "view s1 = (view s)(p \<mapsto> ovpage c 0)" "length c \<le> maxChunk"
  shows "\<exists>s2. link_prev P s1 (if ps = [] then 0 else last ps) p = Some s2 \<and> ok s2 \<and>
    linked (view s2) (ps @ [p]) (cs @ [c]) \<and> cap s2 = cap s1 \<and> distinct (ps @ [p]) \<and>
    (\<forall>q. q \<notin> set ps \<longrightarrow> q \<noteq> p \<longrightarrow> view s2 q = view s q)"
proof (cases ps rule: rev_cases)
  case Nil
  then show ?thesis using assms by (simp add: link_prev_def)
next
  case (snoc qs r)
  have "p \<notin> set ps" using linked_dom [OF assms(2)] assms(5) by auto
  obtain ds d where cs: "cs = ds @ [d]" using assms(2) snoc by (cases cs rule: rev_cases) auto
  have r: "r \<noteq> 0" "view s r = Some (ovpage d 0)" "length d \<le> maxChunk"
    using linked_last assms(2) unfolding snoc cs by blast+
  have "view s1 r = Some (ovpage d 0)" using r(2) assms(5,6) by auto
  then obtain s2 where s2: "PutPage P s1 r (ovpage d p) = Some s2" "ok s2" "view s2 = (view s1)(r \<mapsto> ovpage d p)" "cap s2 = cap s1"
    "GetPage P s1 r = Some (ovpage d 0)"
    using put_page [OF assms(1), of r "ovpage d 0" "ovpage d p"] get_page [OF assms(1)] ovpage_link(3) [OF r(3)] by metis
  have "linked (view s2) (qs @ [r, p]) (ds @ [d, c])"
    using assms(2-4,6,7) \<open>p \<notin> set ps\<close> s2(3) unfolding snoc cs by (intro linked_snoc [of "view s"]) auto
  then show ?thesis
    using s2 r(1) ovpage_link(1,2) [OF r(3), of 0] assms(3,6) \<open>p \<notin> set ps\<close> unfolding snoc cs
    by (auto simp: link_prev_def)
qed

lemma allocOverflow_loop_correct:
  assumes "ok s" "linked (view s) ps cs" "distinct ps" "overflowSize data \<le> cap s"
  shows "\<exists>ps' cs' s'. allocOverflow_loop P s data (first_ptr ps) (if ps = [] then 0 else last ps) =
      Some (first_ptr (ps @ ps'), s') \<and> ok s' \<and> linked (view s') (ps @ ps') (cs @ cs') \<and> concat cs' = data \<and>
    distinct (ps @ ps') \<and> (\<forall>q. q \<notin> set ps \<longrightarrow> q \<notin> set ps' \<longrightarrow> view s' q = view s q) \<and>
    (\<forall>q \<in> set ps'. view s q = None) \<and> cap s = cap s' + length ps' \<and> length ps' = overflowSize data"
  using assms
proof (induction "length data" arbitrary: data s ps cs rule: less_induct)
  case less
  show ?case
  proof (cases "data = []")
    case True
    then show ?thesis using less.prems overflowSize_step(1)
      by (intro exI [of _ "[]"] exI [of _ s], subst allocOverflow_loop.simps) simp
  next
    case False
    let ?c = "take maxChunk data"
    have c: "length ?c \<le> maxChunk" "0 < length ?c" using False by (simp_all add: maxChunk_eq)
    have "0 < cap s" using overflowSize_step(2) [OF False] less.prems(4) by simp
    then obtain p s1 where s1: "NewPage P s (ovpage ?c 0) = Some (p, s1)" "ok s1" "p \<noteq> 0" "view s p = None"
      "view s1 = (view s)(p \<mapsto> ovpage ?c 0)" "cap s = Suc (cap s1)"
      using new_page [OF less.prems(1), of "ovpage ?c 0"] ovpage_link(3) [OF c(1)] by blast
    obtain s2 where s2: "link_prev P s1 (if ps = [] then 0 else last ps) p = Some s2" "ok s2"
      "linked (view s2) (ps @ [p]) (cs @ [?c])" "cap s2 = cap s1" "distinct (ps @ [p])"
      "\<forall>q. q \<notin> set ps \<longrightarrow> q \<noteq> p \<longrightarrow> view s2 q = view s q"
      using link_prev_correct [OF s1(2) less.prems(2,3) s1(3,4,5) c(1)] by blast
    have "overflowSize (drop maxChunk data) \<le> cap s2"
      using less.prems(4) s1(6) s2(4) overflowSize_step(2) [OF False] by simp
    moreover have "length (drop maxChunk data) < length data" using c(2) False by (simp add: maxChunk_eq)
    ultimately obtain ps' cs' s' where IH:
      "allocOverflow_loop P s2 (drop maxChunk data) (first_ptr (ps @ [p])) (if ps @ [p] = [] then 0 else last (ps @ [p])) =
        Some (first_ptr ((ps @ [p]) @ ps'), s')" "ok s'" "linked (view s') ((ps @ [p]) @ ps') ((cs @ [?c]) @ cs')"
      "concat cs' = drop maxChunk data" "distinct ((ps @ [p]) @ ps')"
      "\<forall>q. q \<notin> set (ps @ [p]) \<longrightarrow> q \<notin> set ps' \<longrightarrow> view s' q = view s2 q" "\<forall>q \<in> set ps'. view s2 q = None"
      "cap s2 = cap s' + length ps'" "length ps' = overflowSize (drop maxChunk data)"
      using less.hyps [OF _ s2(2,3,5)] by blast
    have drop: "drop (min (length data) maxChunk) data = drop maxChunk data" by (simp add: min_def)
    have "allocOverflow_loop P s data (first_ptr ps) (if ps = [] then 0 else last ps) = Some (first_ptr (ps @ p # ps'), s')"
      using IH(1) new_chunk_eq [OF c(1)] s1(1) s2(1) less.prems(2) False
      by (subst allocOverflow_loop.simps) (auto simp: drop split: list.splits elim: linked.elims)
    moreover have "\<forall>q \<in> set (p # ps'). view s q = None"
      using IH(5,7) s2(6) s1(4) by auto
    ultimately show ?thesis
      using IH s2(4,6) s1(6) overflowSize_step(2) [OF False]
      by (intro exI [of _ "p # ps'"] exI [of _ "?c # cs'"] exI [of _ s']) auto
  qed
qed

lemma readOverflow_loop_correct:
  assumes "ok s"
  shows "linked (view s) ps cs \<Longrightarrow> readOverflow_loop P s (first_ptr ps) out = Some (out @ concat cs)"
proof (induction ps arbitrary: cs out)
  case Nil
  then show ?case by (subst readOverflow_loop.simps) simp
next
  case (Cons p ps)
  then obtain c cs' where cs: "cs = c # cs'" by (cases cs) auto
  note page = get_page [OF assms, of p "ovpage c (first_ptr ps)"]
  show ?case
    using Cons.IH [of cs' "out @ c"] Cons.prems page ovpage_read [of c "first_ptr ps"] unfolding cs
    by (subst readOverflow_loop.simps) simp
qed

lemma allocOverflow_correct:
  assumes "ok s" "overflowSize data \<le> cap s"
  obtains ps cs s' where "allocOverflow P s data = Some (first_ptr ps, s')" "ok s'" "linked (view s') ps cs"
    "concat cs = data" "distinct ps" "\<forall>q. q \<notin> set ps \<longrightarrow> view s' q = view s q" "\<forall>q \<in> set ps. view s q = None"
    "cap s = cap s' + length ps" "length ps = overflowSize data"
  using allocOverflow_loop_correct [OF assms(1), of "[]" "[]" data] assms(2) by (auto simp: allocOverflow_def)

end

locale overflow_store_del = overflow_store +
  fixes room :: "'s \<Rightarrow> nat"
  assumes del_page: "ok s \<Longrightarrow> view s p = Some b \<Longrightarrow> 0 < room s \<Longrightarrow>
      \<exists>s'. DelPage P s p = Some s' \<and> ok s' \<and> view s' = (view s)(p := None) \<and> room s = Suc (room s')"
begin

lemma freeOverflow_correct:
  "ok s \<Longrightarrow> linked (view s) ps cs \<Longrightarrow> distinct ps \<Longrightarrow> length ps \<le> room s \<Longrightarrow>
   \<exists>s'. freeOverflow P s (first_ptr ps) = Some s' \<and> ok s' \<and> view s' = (\<lambda>q. if q \<in> set ps then None else view s q)"
proof (induction ps arbitrary: s cs)
  case Nil
  then show ?case by (subst freeOverflow.simps) auto
next
  case (Cons p ps)
  then obtain c cs' where cs: "cs = c # cs'" by (cases cs) auto
  have v: "view s p = Some (ovpage c (first_ptr ps))" "p \<noteq> 0" "length c \<le> maxChunk" "linked (view s) ps cs'"
    using Cons.prems(2) cs by simp_all
  obtain s1 where s1: "DelPage P s p = Some s1" "ok s1" "view s1 = (view s)(p := None)" "room s = Suc (room s1)"
    using del_page [OF Cons.prems(1) v(1)] Cons.prems(4) by auto
  have "linked (view s1) ps cs'" by (rule linked_cong [OF v(4)]) (use s1(3) Cons.prems(3) in auto)
  then obtain s' where s': "freeOverflow P s1 (first_ptr ps) = Some s'" "ok s'"
    "view s' = (\<lambda>q. if q \<in> set ps then None else view s1 q)"
    using Cons.IH [OF s1(2)] Cons.prems(3,4) s1(4) by auto
  then show ?case
    using get_page [OF Cons.prems(1) v(1)] ovpage_read(3) [OF v(3)] s1(1,3) v(2)
    by (subst freeOverflow.simps) auto
qed

end

end
