(* ===== verification/Iterator.thy ===== *)
theory Iterator
  imports Mem_Tree
begin

text \<open>
  The tree iterator of \<^verbatim>\<open>internal/btree/iterator.go\<close>: \<open>SeekLE\<close>, \<open>Valid\<close>, \<open>Key\<close>, \<open>Val\<close>
  and \<open>Next\<close>. An iterator is the path of nodes from the root to a leaf with a position in each. The
  relation \<open>on_path\<close> ties such a path to an index of the tree's content: \<open>SeekLE\<close>
  reaches the last key at most the key sought in a tree of any height, and in trees of one or two levels
  repeated \<open>Next\<close> visits the rest of the content in order. With a third level it does not.
\<close>

record BIter =
  path :: "bytes list"
  pos :: "u16 list"

text \<open>The descent of \<open>SeekLE\<close> from a node.\<close>

partial_function (option) SeekLE_loop ::
  "'s pager \<Rightarrow> 's \<Rightarrow> bytes \<Rightarrow> bytes \<Rightarrow> BIter \<Rightarrow> BIter option" where
  "SeekLE_loop P s node key iter = do {
     idx \<leftarrow> nodeLookupLE node key;
     let iter = iter\<lparr>path := path iter @ [node], pos := pos iter @ [idx]\<rparr>;
     t \<leftarrow> btype node;
     (if t = BNODE_LEAF then Some iter
      else do {
        p \<leftarrow> getPtr node idx;
        node \<leftarrow> GetPage P s p;
        SeekLE_loop P s node key iter
      })
   }"

definition SeekLE :: "'s pager \<Rightarrow> 's \<Rightarrow> u64 \<Rightarrow> bytes \<Rightarrow> BIter option" where
  "SeekLE P s Root key =
     (let iter = \<lparr>path = [], pos = []\<rparr> in
      if Root = 0 then Some iter
      else do {
        node \<leftarrow> GetPage P s Root;
        SeekLE_loop P s node key iter
      })"

text \<open>The last node of the path and the last position; an empty slice panics.\<close>

definition last_of :: "BIter \<Rightarrow> (bytes \<times> u16) option" where
  "last_of iter =
     (if path iter = [] \<or> pos iter = [] then None else Some (last (path iter), last (pos iter)))"

definition Valid :: "BIter \<Rightarrow> bool option" where
  "Valid iter =
     (if path iter = [] then Some False
      else do {
        (leaf, p) \<leftarrow> last_of iter;
        n \<leftarrow> nkeys leaf;
        Some (p < n)
      })"

definition Key :: "BIter \<Rightarrow> bytes option" where
  "Key iter = do { (leaf, p) \<leftarrow> last_of iter; getKey leaf p }"

definition Val :: "BIter \<Rightarrow> bytes option" where
  "Val iter = do { (leaf, p) \<leftarrow> last_of iter; getVal leaf p }"

text \<open>The inner loop of \<open>Next\<close>, down the first children of the new subtree.\<close>

partial_function (option) Next_down :: "'s pager \<Rightarrow> 's \<Rightarrow> BIter \<Rightarrow> bytes \<Rightarrow> BIter option" where
  "Next_down P s iter child = do {
     t \<leftarrow> btype child;
     (if t = BNODE_INTERNAL then do {
        p \<leftarrow> getPtr child 0;
        child \<leftarrow> GetPage P s p;
        Next_down P s (iter\<lparr>path := path iter @ [child], pos := pos iter @ [0]\<rparr>) child
      }
      else Some iter)
   }"

text \<open>The outer loop of \<open>Next\<close>, up the path; the argument is \<open>level\<close> before it is decremented.\<close>

fun Next_up :: "'s pager \<Rightarrow> 's \<Rightarrow> BIter \<Rightarrow> nat \<Rightarrow> BIter option" where
  "Next_up P s iter 0 = Some (iter\<lparr>path := [], pos := []\<rparr>)"
| "Next_up P s iter (Suc level) = do {
     node \<leftarrow> index (path iter) level;
     p \<leftarrow> index (pos iter) level;
     n \<leftarrow> nkeys node;
     (if p + 1 < n then do {
        let iter = iter\<lparr>pos := (pos iter)[level := p + 1]\<rparr>;
        q \<leftarrow> getPtr node (p + 1);
        child \<leftarrow> GetPage P s q;
        path' \<leftarrow> put_at (path iter) (Suc level) [child];
        pos' \<leftarrow> put_at (pos iter) (Suc level) [0];
        Next_down P s (iter\<lparr>path := path', pos := pos'\<rparr>) child
      }
      else Next_up P s iter level)
   }"

definition Next :: "'s pager \<Rightarrow> 's \<Rightarrow> BIter \<Rightarrow> BIter option" where
  "Next P s iter =
     (if path iter = [] then None
      else do {
        let level = length (path iter) - 1;
        leaf \<leftarrow> index (path iter) level;
        p \<leftarrow> index (pos iter) level;
        n \<leftarrow> nkeys leaf;
        (if p + 1 < n then Some (iter\<lparr>pos := (pos iter)[level := p + 1]\<rparr>)
         else Next_up P s iter level)
      })"

text \<open>The loop \<^verbatim>\<open>for ; iter.Valid(); iter.Next()\<close> of a client, collecting keys and values.\<close>

partial_function (option) walk :: "'s pager \<Rightarrow> 's \<Rightarrow> BIter \<Rightarrow> (bytes \<times> bytes) list option" where
  "walk P s iter = do {
     v \<leftarrow> Valid iter;
     (if v then do {
        key \<leftarrow> Key iter;
        val \<leftarrow> Val iter;
        iter \<leftarrow> Next P s iter;
        rest \<leftarrow> walk P s iter;
        Some ((key, val) # rest)
      }
      else Some [])
   }"

section \<open>Paths and positions\<close>

inductive on_path :: "(u64 \<Rightarrow> bytes option) \<Rightarrow> atree \<Rightarrow> bytes list \<Rightarrow> u16 list \<Rightarrow> nat \<Rightarrow> bool" for m where
  leaf: "rep m (ALeaf kvs) b \<Longrightarrow> i < length kvs \<Longrightarrow> on_path m (ALeaf kvs) [b] [of_nat i] i"
| node: "rep m (ANode xs) b \<Longrightarrow> i < length xs \<Longrightarrow> on_path m (snd (snd (xs ! i))) bs ps n \<Longrightarrow>
    on_path m (ANode xs) (b # bs) (of_nat i # ps) (length (kid_contents (take i xs)) + n)"

inductive_cases on_path_leafE: "on_path m (ALeaf kvs) bs ps n"
inductive_cases on_path_nodeE: "on_path m (ANode xs) bs ps n"

lemma on_path_lengths: "on_path m t bs ps n \<Longrightarrow> bs \<noteq> [] \<and> ps \<noteq> [] \<and> length bs = length ps"
  by (induction rule: on_path.induct) auto

lemma on_path_last:
  assumes "on_path m t bs ps n"
  shows "\<exists>kvs i. rep m (ALeaf kvs) (last bs) \<and> last ps = of_nat i \<and> i < length kvs \<and>
    n < length (contents t) \<and> contents t ! n = kvs ! i"
  using assms
proof (induction rule: on_path.induct)
  case (leaf kvs b i)
  then show ?case by auto
next
  case (node xs b i bs ps n)
  have "contents (ANode xs) = kid_contents (take i xs) @ contents (snd (snd (xs ! i))) @ kid_contents (drop (Suc i) xs)"
    using kid_contents_split [OF node(2)] by simp
  then show ?case using node.IH on_path_lengths [OF node(3)] by (auto simp: nth_append)
qed

lemma on_path_read:
  assumes "on_path m t bs ps n"
  shows "Valid \<lparr>path = bs, pos = ps\<rparr> = Some True"
    "Key \<lparr>path = bs, pos = ps\<rparr> = Some (fst (contents t ! n))"
    "Val \<lparr>path = bs, pos = ps\<rparr> = Some (snd (contents t ! n))" "n < length (contents t)"
proof -
  obtain kvs i where l: "rep m (ALeaf kvs) (last bs)" "last ps = of_nat i" "i < length kvs"
    "n < length (contents t)" "contents t ! n = kvs ! i"
    using on_path_last [OF assms] by blast
  note len = on_path_lengths [OF assms]
  note acc = bnode_access [OF rep_bnode [OF l(1)]]
  have "(of_nat i :: u16) < of_nat (length kvs)"
    using acc(7) l(3) by (simp add: word_less_nat_alt unat_of_nat_u16)
  then show "Valid \<lparr>path = bs, pos = ps\<rparr> = Some True"
    using len acc(2) l(2) by (simp add: Valid_def last_of_def)
  show "Key \<lparr>path = bs, pos = ps\<rparr> = Some (fst (contents t ! n))"
    "Val \<lparr>path = bs, pos = ps\<rparr> = Some (snd (contents t ! n))" "n < length (contents t)"
    using len acc(5,6) [of i] l by (simp_all add: Key_def Val_def last_of_def)
qed

text \<open>The two cases of the inner loop of \<open>Next\<close>.\<close>

lemma Next_down_cases:
  "btype b = Some BNODE_LEAF \<Longrightarrow> Next_down P s it b = Some it"
  "btype b = Some BNODE_INTERNAL \<Longrightarrow> getPtr b 0 = Some p \<Longrightarrow> GetPage P s p = Some c \<Longrightarrow>
   Next_down P s it b = Next_down P s (it\<lparr>path := path it @ [c], pos := pos it @ [0]\<rparr>) c"
  by (subst Next_down.simps; simp)+

section \<open>Seeking\<close>

lemma le_index_segment:
  assumes "keys_sorted (A @ B @ C)" "\<forall>y \<in> set A. fst y < k" "\<forall>y \<in> set C. k < fst y"
    "A = [] \<or> B \<noteq> [] \<and> fst (hd B) \<le> k"
  shows "kidx (A @ B @ C) k = length A + kidx B k"
proof -
  have s: "keys_sorted B" using assms(1) by simp
  have cl: "count_le (map fst xs) k = length (filter (\<lambda>x. fst x \<le> k) xs)" if "keys_sorted xs" for xs
    using arg_cong [OF take_count_le(1) [OF that, of k], of length] count_le_length [of "map fst xs" k] by simp
  have "filter (\<lambda>x. fst x \<le> k) A = A" "filter (\<lambda>x. fst x \<le> k) C = []"
    using assms(2,3) by (auto simp: filter_id_conv filter_empty_conv)
  then have c: "count_le (map fst (A @ B @ C)) k = length A + count_le (map fst B) k"
    using cl [OF assms(1)] cl [OF s] by simp
  have "A = [] \<or> 0 < count_le (map fst B) k"
    using assms(4) cl [OF s] by (cases B) auto
  then show ?thesis using c by (auto simp: le_index_def)
qed

text \<open>The separator of the child that a lookup chooses, unless it is the first, is at most the key.\<close>

lemma chosen_sep:
  assumes "sorted_wrt (<) ks" "i = le_index ks k" "0 < i"
  shows "ks ! i \<le> k"
  using count_le_below [of i ks k] assms(2,3) by (auto simp: le_index_def)

context page_store
begin

lemma SeekLE_loop_correct:
  assumes "ok s"
  shows "wf_tree h t \<Longrightarrow> rep (view s) t b \<Longrightarrow> keys_sorted (contents t) \<Longrightarrow>
    \<exists>bs ps. SeekLE_loop P s b k it = Some \<lparr>path = path it @ bs, pos = pos it @ ps\<rparr> \<and>
      on_path (view s) t bs ps (kidx (contents t) k)"
proof (induction h arbitrary: t b it)
  case 0
  then obtain kvs where t: "t = ALeaf kvs" "kvs \<noteq> []" by (auto elim: wf_cases)
  have "sorted_wrt (<) (ekeys (entries t))" using 0 t by (simp add: keys_sorted_def comp_def)
  note look = bnode_lookup(1) [OF 0(2) this, of k] bnode_lookup(2) [OF 0(2) this]
  have "on_path (view s) t [b] [of_nat (kidx kvs k)] (kidx kvs k)"
    using 0(2) t le_index_less [of "map fst kvs" k] by (auto intro: on_path.leaf)
  then show ?case
    using look t by (intro exI [of _ "[b]"] exI [of _ "[of_nat (kidx kvs k)]"], subst SeekLE_loop.simps)
      (simp add: comp_def)
next
  case (Suc h)
  then obtain xs where t: "t = ANode xs" "xs \<noteq> []"
    "\<forall>x \<in> set xs. wf_tree h (snd (snd x)) \<and> fst (snd x) = fst (hd (contents (snd (snd x))))"
    by (auto elim: wf_cases)
  define i where "i = le_index (ekeys (entries (ANode xs))) k"
  have sorted: "keys_sorted (kid_contents xs)" using Suc.prems(3) t by simp
  note ck = choose_kid [OF t(3) sorted t(2) i_def]
  note seg = kid_contents_split [OF ck(1)]
  have ss: "sorted_wrt (<) (ekeys (entries t))" using node_seps_sorted [OF t(3) sorted] t(1) by simp
  note look = bnode_lookup(1) [OF Suc.prems(2) ss, of k, unfolded t(1), folded i_def]
    bnode_lookup(2) [OF Suc.prems(2) ss, unfolded t(1)]
  have x: "xs ! i \<in> set xs" using ck(1) by simp
  obtain kb where kb: "view s (fst (xs ! i)) = Some kb" "rep (view s) (snd (snd (xs ! i))) kb"
    using rep_kid Suc.prems(2) x t(1) by blast
  have ptr: "getPtr b (of_nat i) = Some (fst (xs ! i))"
    using bnode_access(4) [OF rep_bnode [OF Suc.prems(2)], of i] ck(1) t(1) by simp
  let ?it = "it\<lparr>path := path it @ [b], pos := pos it @ [of_nat i]\<rparr>"
  let ?c = "contents (snd (snd (xs ! i)))"
  have kid: "wf_tree h (snd (snd (xs ! i)))" "fst (snd (xs ! i)) = fst (hd ?c)" using t(3) x by auto
  obtain bs ps where IH: "SeekLE_loop P s kb k ?it = Some \<lparr>path = path ?it @ bs, pos = pos ?it @ ps\<rparr>"
    "on_path (view s) (snd (snd (xs ! i))) bs ps (kidx ?c k)"
    using Suc.IH [OF kid(1) kb(2), of ?it] sorted seg by auto
  have "kid_contents (take i xs) = [] \<or> ?c \<noteq> [] \<and> fst (hd ?c) \<le> k"
    using chosen_sep [OF ss, of i k] i_def t(1) ck(1) kid(2) wf_contents [OF kid(1)] by (cases "i = 0") auto
  then have "kidx (contents t) k = length (kid_contents (take i xs)) + kidx ?c k"
    using le_index_segment [OF _ ck(2,3), of ?c] sorted seg t(1) by simp
  then have "on_path (view s) t (b # bs) (of_nat i # ps) (kidx (contents t) k)"
    using on_path.node [OF _ ck(1) IH(2)] Suc.prems(2) t(1) by simp
  then show ?case
    using look ptr get_page [OF assms kb(1)] IH(1)
    by (intro exI [of _ "b # bs"] exI [of _ "of_nat i # ps"], subst SeekLE_loop.simps) simp
qed

lemma SeekLE_holds:
  assumes "ok s" "holds (view s) Root h xs D" "Root \<noteq> 0"
  obtains t bs ps where "SeekLE P s Root k = Some \<lparr>path = bs, pos = ps\<rparr>"
    "on_path (view s) t bs ps (kidx xs k)" "contents t = xs" "wf_tree h t"
proof -
  obtain t b where t: "view s Root = Some b" "good (view s) h t b" "contents t = xs"
    using holds_nonempty [OF assms(2,3)] by metis
  then show thesis
    using that SeekLE_loop_correct [OF assms(1) goodD(2,1,4) [OF t(2)], of k "\<lparr>path = [], pos = []\<rparr>"]
      get_page [OF assms(1) t(1)] assms(3) goodD(2) [OF t(2)] by (auto simp: SeekLE_def)
qed

text \<open>One step in a tree of one or two levels.\<close>

lemma u16_Suc_less:
  assumes "n < 65536" "i < n"
  shows "(of_nat i + 1 :: u16) < of_nat n \<longleftrightarrow> Suc i < n" "of_nat i + 1 = (of_nat (Suc i) :: u16)"
proof -
  show "of_nat i + 1 = (of_nat (Suc i) :: u16)" by (simp add: add.commute)
  have "unat (of_nat (Suc i) :: u16) = Suc i" "unat (of_nat n :: u16) = n"
    using assms by (intro unat_of_nat_u16; simp)+
  then show "(of_nat i + 1 :: u16) < of_nat n \<longleftrightarrow> Suc i < n"
    by (simp only: word_less_nat_alt \<open>of_nat i + 1 = of_nat (Suc i)\<close>)
qed

lemma Next_leaf:
  assumes "rep (view s) (ALeaf kvs) b" "i < length kvs" "length ps = length bs"
  shows "Next P s \<lparr>path = bs @ [b], pos = ps @ [of_nat i]\<rparr> =
    (if Suc i < length kvs then Some \<lparr>path = bs @ [b], pos = ps @ [of_nat i + 1]\<rparr>
     else Next_up P s \<lparr>path = bs @ [b], pos = ps @ [of_nat i]\<rparr> (length bs))"
proof -
  note acc = bnode_access [OF rep_bnode [OF assms(1)]]
  have "(of_nat i + 1 :: u16) < of_nat (length kvs) \<longleftrightarrow> Suc i < length kvs"
    by (rule u16_Suc_less) (use acc(7) assms(2) in simp_all)
  then show ?thesis
    using acc(2) assms(3) by (simp add: Next_def index_def nth_append list_update_append)
qed

lemma Next_up_two:
  assumes "ok s" "rep (view s) (ANode xs) b" "i < length xs"
    "\<forall>x \<in> set xs. wf_tree 0 (snd (snd x))"
  shows "if Suc i < length xs
    then \<exists>kb. Next_up P s \<lparr>path = [b, b'], pos = [of_nat i, j]\<rparr> 1 =
      Some \<lparr>path = [b, kb], pos = [of_nat (Suc i), of_nat 0]\<rparr> \<and> rep (view s) (snd (snd (xs ! Suc i))) kb
    else Next_up P s \<lparr>path = [b, b'], pos = [of_nat i, j]\<rparr> 1 = Some \<lparr>path = [], pos = []\<rparr>"
proof -
  note acc = bnode_access [OF rep_bnode [OF assms(2)]]
  have u: "(of_nat i + 1 :: u16) < of_nat (length xs) \<longleftrightarrow> Suc i < length xs" "(of_nat i + 1 :: u16) = of_nat (Suc i)"
    by (rule u16_Suc_less; use acc(7) assms(3) in simp)+
  have one: "Next_up P s it 1 = Next_up P s it (Suc 0)" for it by simp
  show ?thesis
  proof (cases "Suc i < length xs")
    case True
    then have x: "xs ! Suc i \<in> set xs" by simp
    obtain kb where kb: "view s (fst (xs ! Suc i)) = Some kb" "rep (view s) (snd (snd (xs ! Suc i))) kb"
      using rep_kid [OF assms(2) x] by blast
    obtain kvs where "snd (snd (xs ! Suc i)) = ALeaf kvs" using assms(4) x by (auto elim: wf_cases)
    then have "btype kb = Some BNODE_LEAF" using bnode_access(1) [OF rep_bnode [OF kb(2)]] by simp
    then have "Next_down P s it kb = Some it" for it by (rule Next_down_cases)
    moreover have "getPtr b (of_nat (Suc i)) = Some (fst (xs ! Suc i))" using acc(4) [of "Suc i"] True by simp
    ultimately show ?thesis
      using u kb get_page [OF assms(1) kb(1)] acc(2) True unfolding one
      by (simp add: index_def put_at_def overwrite_def del: of_nat_Suc)
  next
    case False
    then show ?thesis using u acc(2) unfolding one by (simp add: index_def del: of_nat_Suc)
  qed
qed

lemma Next_correct_two:
  assumes "ok s" "on_path (view s) (ANode xs) bs ps n" "wf_tree (Suc 0) (ANode xs)"
  shows "\<exists>it. Next P s \<lparr>path = bs, pos = ps\<rparr> = Some it \<and>
    (if Suc n < length (kid_contents xs) then on_path (view s) (ANode xs) (path it) (pos it) (Suc n)
     else it = \<lparr>path = [], pos = []\<rparr>)"
proof -
  have kids: "\<forall>x \<in> set xs. wf_tree 0 (snd (snd x))" using assms(3) by simp
  obtain b i bs' ps' n' where q: "bs = b # bs'" "ps = of_nat i # ps'" "rep (view s) (ANode xs) b" "i < length xs"
    "on_path (view s) (snd (snd (xs ! i))) bs' ps' n'" "n = length (kid_contents (take i xs)) + n'"
    using assms(2) by (auto elim!: on_path_nodeE)
  obtain kvs where kvs: "snd (snd (xs ! i)) = ALeaf kvs" using kids q(4) by (auto elim: wf_cases dest: nth_mem)
  obtain kb where kb: "bs' = [kb]" "ps' = [of_nat n']" "rep (view s) (ALeaf kvs) kb" "n' < length kvs"
    using q(5) unfolding kvs by (auto elim!: on_path_leafE)
  have seg: "kid_contents xs = kid_contents (take i xs) @ kvs @ kid_contents (drop (Suc i) xs)"
    using kid_contents_split [OF q(4)] kvs by simp
  note step = Next_leaf [OF kb(3,4), of "[of_nat i]" "[b]"]
  show ?thesis
  proof (cases "Suc n' < length kvs")
    case True
    have "on_path (view s) (snd (snd (xs ! i))) [kb] [of_nat (Suc n')] (Suc n')"
      unfolding kvs using kb(3) True by (rule on_path.leaf)
    then have "on_path (view s) (ANode xs) [b, kb] [of_nat i, of_nat (Suc n')] (length (kid_contents (take i xs)) + Suc n')"
      by (rule on_path.node [OF q(3,4)])
    moreover have "Suc n < length (kid_contents xs)" using True q(6) seg by simp
    ultimately show ?thesis using step True q(1,2,6) kb(1,2) by (simp add: add.commute)
  next
    case False
    then have last: "Suc n' = length kvs" using kb(4) by simp
    have len: "length (kid_contents (take (Suc i) xs)) = Suc n"
      using q(4,6) kvs last by (simp add: take_Suc_conv_app_nth)
    show ?thesis
    proof (cases "Suc i < length xs")
      case True
      then obtain kb' where kb': "Next_up P s \<lparr>path = [b, kb], pos = [of_nat i, of_nat n']\<rparr> 1 =
          Some \<lparr>path = [b, kb'], pos = [of_nat (Suc i), of_nat 0]\<rparr>" "rep (view s) (snd (snd (xs ! Suc i))) kb'"
        using Next_up_two [OF assms(1) q(3,4) kids, of kb "of_nat n'"] by auto
      obtain kvs' where kvs': "snd (snd (xs ! Suc i)) = ALeaf kvs'" "kvs' \<noteq> []"
        using kids nth_mem [OF True] by (auto elim: wf_cases)
      have "on_path (view s) (snd (snd (xs ! Suc i))) [kb'] [of_nat 0] 0"
        using on_path.leaf [of "view s" kvs' kb' 0] kb'(2) kvs' by simp
      then have path: "on_path (view s) (ANode xs) [b, kb'] [of_nat (Suc i), of_nat 0] (Suc n)"
        using on_path.node [OF q(3) True, of "[kb']" "[of_nat 0]" 0] len by simp
      moreover have "Suc n < length (kid_contents xs)" using on_path_read(4) [OF path] by simp
      ultimately show ?thesis using step False q(1,2) kb(1,2) kb'(1) by simp
    next
      case last_kid: False
      then have "Suc n = length (kid_contents xs)" using len q(4) by simp
      then show ?thesis
        using step False q(1,2) kb(1,2) last_kid Next_up_two [OF assms(1) q(3,4) kids, of kb "of_nat n'"] by simp
    qed
  qed
qed

lemma Next_correct:
  assumes "ok s" "on_path (view s) t bs ps n" "wf_tree h t" "h \<le> 1"
  shows "\<exists>it. Next P s \<lparr>path = bs, pos = ps\<rparr> = Some it \<and>
    (if Suc n < length (contents t) then on_path (view s) t (path it) (pos it) (Suc n)
     else it = \<lparr>path = [], pos = []\<rparr>)"
proof (cases rule: wf_cases [OF assms(3)])
  case (1 kvs)
  obtain b where b: "bs = [b]" "ps = [of_nat n]" "rep (view s) (ALeaf kvs) b" "n < length kvs"
    using assms(2) 1 by (auto elim!: on_path_leafE)
  have "Suc n < length kvs \<Longrightarrow> on_path (view s) (ALeaf kvs) [b] [of_nat (Suc n)] (Suc n)"
    using b(3) by (rule on_path.leaf)
  then show ?thesis using Next_leaf [OF b(3,4), of "[]" "[]"] b(1,2) 1 by (simp add: add.commute)
next
  case (2 h' xs)
  then have "on_path (view s) (ANode xs) bs ps n" "wf_tree (Suc 0) (ANode xs)" "contents t = kid_contents xs"
    using assms by simp_all
  then have "\<exists>it. Next P s \<lparr>path = bs, pos = ps\<rparr> = Some it \<and>
    (if Suc n < length (contents t) then on_path (view s) (ANode xs) (path it) (pos it) (Suc n)
     else it = \<lparr>path = [], pos = []\<rparr>)"
    using Next_correct_two [OF assms(1), of xs bs ps n] by (simp only:)
  then show ?thesis using 2(2) by (simp only:)
qed

lemma walk_correct:
  assumes "ok s" "on_path (view s) t bs ps n" "wf_tree h t" "h \<le> 1"
  shows "walk P s \<lparr>path = bs, pos = ps\<rparr> = Some (drop n (contents t))"
  using assms(2)
proof (induction "length (contents t) - n" arbitrary: bs ps n rule: less_induct)
  case less
  note rd = on_path_read [OF less.prems]
  obtain it where it: "Next P s \<lparr>path = bs, pos = ps\<rparr> = Some it"
    "if Suc n < length (contents t) then on_path (view s) t (path it) (pos it) (Suc n) else it = \<lparr>path = [], pos = []\<rparr>"
    using Next_correct [OF assms(1) less.prems assms(3,4)] by blast
  have "walk P s it = Some (drop (Suc n) (contents t))"
  proof (cases "Suc n < length (contents t)")
    case True
    then have "walk P s \<lparr>path = path it, pos = pos it\<rparr> = Some (drop (Suc n) (contents t))"
      using it(2) rd(4) by (intro less.hyps) auto
    then show ?thesis by (cases it) simp
  next
    case False
    then show ?thesis using it(2) by (subst walk.simps) (simp add: Valid_def)
  qed
  then show ?case
    using rd it(1) by (subst walk.simps) (simp add: Cons_nth_drop_Suc prod_eq_iff)
qed

end

text \<open>The index that the lookup chooses in a sorted list.\<close>

lemma kidx_bounds:
  assumes "keys_sorted xs" "xs \<noteq> []"
  shows "kidx xs k < length xs" "kidx xs k < j \<Longrightarrow> j < length xs \<Longrightarrow> k < fst (xs ! j)"
    "fst (xs ! kidx xs k) \<le> k \<or> kidx xs k = 0"
proof -
  have s: "sorted_wrt (<) (map fst xs)" using assms(1) by (simp add: keys_sorted_def)
  show lt: "kidx xs k < length xs" using le_index_less [of "map fst xs" k] assms(2) by simp
  show "k < fst (xs ! j)" if "kidx xs k < j" "j < length xs"
    using count_le_above [OF s, of k j] that by (simp add: le_index_def)
  show "fst (xs ! kidx xs k) \<le> k \<or> kidx xs k = 0"
    using count_le_below [of "kidx xs k" "map fst xs" k] lt by (auto simp: le_index_def)
qed

text \<open>Reading a path that ends in a leaf with one entry.\<close>

lemma read_single:
  assumes "rep m (ALeaf [x]) b" "length ps = length bs"
  shows "Valid \<lparr>path = bs @ [b], pos = ps @ [0]\<rparr> = Some True"
    "Key \<lparr>path = bs @ [b], pos = ps @ [0]\<rparr> = Some (fst x)" "Val \<lparr>path = bs @ [b], pos = ps @ [0]\<rparr> = Some (snd x)"
  using bnode_access(2) [OF rep_bnode [OF assms(1)]] bnode_access(5,6) [OF rep_bnode [OF assms(1)], of 0]
  by (simp_all add: Valid_def Key_def Val_def last_of_def)

definition three_levels :: "u64 list \<Rightarrow> (bytes \<times> bytes) list \<Rightarrow> atree" where
  "three_levels ps xs =
     ANode [(ps ! 0, fst (xs ! 0), ANode [(ps ! 2, fst (xs ! 0), ALeaf [xs ! 0])]),
            (ps ! 1, fst (xs ! 1), ANode [(ps ! 3, fst (xs ! 1), ALeaf [xs ! 1]), (ps ! 4, fst (xs ! 2), ALeaf [xs ! 2])])]"

section \<open>Properties\<close>

text \<open>On every page store that keeps the contract and in a tree of any height, \<open>SeekLE\<close> gives a valid iterator at
  the last pair whose key is at most the key sought, or at the first pair if there is none.\<close>

theorem SeekLE_contract:
  assumes "page_store P view ok cap" "ok s" "holds (view s) root h xs D" "xs \<noteq> []"
  shows "\<exists>it i. SeekLE P s root k = Some it \<and> Valid it = Some True \<and> i < length xs \<and>
    Key it = Some (fst (xs ! i)) \<and> Val it = Some (snd (xs ! i)) \<and>
    (\<forall>j. i < j \<longrightarrow> j < length xs \<longrightarrow> k < fst (xs ! j)) \<and> (fst (xs ! i) \<le> k \<or> i = 0)"
proof -
  have "root \<noteq> 0" using assms(3,4) by (auto simp: holds_def)
  then obtain t bs ps where t: "SeekLE P s root k = Some \<lparr>path = bs, pos = ps\<rparr>"
    "on_path (view s) t bs ps (kidx xs k)" "contents t = xs"
    using page_store.SeekLE_holds [OF assms(1-3)] by metis
  note ix = kidx_bounds [OF holds_sorted(1) [OF assms(3)] assms(4), of k]
  show ?thesis
    using t(1) on_path_read [OF t(2)] t(3) ix
    by (intro exI [of _ "\<lparr>path = bs, pos = ps\<rparr>"] exI [of _ "kidx xs k"]) simp
qed

definition iter_key :: bytes where "iter_key = replicate 12 7"

lemma iter_example:
  obtains root s where "mem_ok s" "holds (pages s) root 0 [(iter_key, [1])] {root}"
  using mem.Insert_first [of "store newMemTest" iter_key "[1]"]
  by (auto simp: newMemTest_def mem_ok_def usual_def iter_key_def mem_cap_def)

theorem SeekLE_contract_witness:
  "\<exists>s root it. holds (pages s) root 0 [(iter_key, [1])] {root} \<and> SeekLE mem_pager s root [3] = Some it \<and>
     Key it = Some iter_key"
proof -
  obtain root s where s: "mem_ok s" "holds (pages s) root 0 [(iter_key, [1])] {root}" by (rule iter_example)
  then show ?thesis using SeekLE_contract [OF mem.page_store_axioms s, of "[3]"] by auto
qed

lemma walk_from_SeekLE:
  assumes "page_store P view ok cap" "ok s" "holds (view s) root h xs D" "h \<le> 1"
  shows "\<exists>it. SeekLE P s root k = Some it \<and> walk P s it = Some (drop (le_index (map fst xs) k) xs)"
proof (cases "root = 0")
  case True
  then have "xs = []" using assms(3) by (simp add: holds_def)
  then show ?thesis using True by (simp add: SeekLE_def, subst walk.simps) (simp add: Valid_def)
next
  case False
  then obtain t bs ps where t: "SeekLE P s root k = Some \<lparr>path = bs, pos = ps\<rparr>"
    "on_path (view s) t bs ps (kidx xs k)" "contents t = xs" "wf_tree h t"
    using page_store.SeekLE_holds [OF assms(1-3)] by metis
  then show ?thesis using page_store.walk_correct [OF assms(1,2) t(2,4) assms(4)] by simp
qed

text \<open>C26. In a tree of one or two levels, walking with \<open>Next\<close> from the position of \<open>SeekLE\<close> until the iterator is no longer
  valid ends and visits exactly the rest of the sorted content, in order.\<close>

theorem walk_contract:
  assumes "page_store P view ok cap" "ok s" "holds (view s) root h xs D" "h \<le> 1"
  shows "\<exists>it. SeekLE P s root k = Some it \<and> walk P s it = Some (drop (le_index (map fst xs) k) xs)"
  by (rule walk_from_SeekLE [OF assms])

theorem walk_contract_witness:
  "\<exists>s root it. holds (pages s) root 0 [(iter_key, [1])] {root} \<and> SeekLE mem_pager s root [3] = Some it \<and>
     walk mem_pager s it = Some [(iter_key, [1])]"
proof -
  obtain root s where s: "mem_ok s" "holds (pages s) root 0 [(iter_key, [1])] {root}" by (rule iter_example)
  have "\<exists>it. SeekLE mem_pager s root [3] = Some it \<and>
      walk mem_pager s it = Some (drop (le_index (map fst [(iter_key, [1 :: byte])]) [3]) [(iter_key, [1])])"
    by (rule walk_contract [OF mem.page_store_axioms s]) simp
  moreover have "le_index (map fst [(iter_key, [1 :: byte])]) [3] = 0"
    using le_index_less [of "map fst [(iter_key, [1 :: byte])]" "[3]"] by simp
  ultimately show ?thesis using s(2) by auto
qed

text \<open>With three levels the walk goes wrong, because \<open>Next\<close> appends to the path instead of truncating it first. In the
  smallest such tree, with the pairs \<open>x\<^sub>1, x\<^sub>2, x\<^sub>3\<close> in one leaf each, \<open>x\<^sub>2\<close> is visited twice and \<open>x\<^sub>3\<close> never.\<close>

theorem walk_three_levels:
  assumes "page_store P view ok cap" "ok s" "view s root = Some b" "root \<noteq> 0"
    "rep (view s) (three_levels ps [x1, x2, x3]) b" "fst x1 < fst x2" "fst x2 < fst x3"
  shows "\<exists>it. SeekLE P s root (fst x1) = Some it \<and> walk P s it = Some [x1, x2, x2]"
proof -
  let ?t1 = "ANode [(ps ! 2, fst x1, ALeaf [x1])]"
  let ?t2 = "ANode [(ps ! 3, fst x2, ALeaf [x2]), (ps ! 4, fst x3, ALeaf [x3])]"
  let ?t = "ANode [(ps ! 0, fst x1, ?t1), (ps ! 1, fst x2, ?t2)]"
  have t: "three_levels ps [x1, x2, x3] = ?t" by (simp add: three_levels_def)
  note get = page_store.get_page [OF assms(1,2)]
  obtain c1 where c1: "view s (ps ! 0) = Some c1" "rep (view s) ?t1 c1"
    using rep_kid [OF assms(5) [unfolded t], of "(ps ! 0, fst x1, ?t1)"] by auto
  obtain c2 where c2: "view s (ps ! 1) = Some c2" "rep (view s) ?t2 c2"
    using rep_kid [OF assms(5) [unfolded t], of "(ps ! 1, fst x2, ?t2)"] by auto
  obtain l1 where l1: "view s (ps ! 2) = Some l1" "rep (view s) (ALeaf [x1]) l1"
    using rep_kid [OF c1(2), of "(ps ! 2, fst x1, ALeaf [x1])"] by auto
  obtain l2 where l2: "view s (ps ! 3) = Some l2" "rep (view s) (ALeaf [x2]) l2"
    using rep_kid [OF c2(2), of "(ps ! 3, fst x2, ALeaf [x2])"] by auto
  obtain l3 where l3: "view s (ps ! 4) = Some l3" "rep (view s) (ALeaf [x3]) l3"
    using rep_kid [OF c2(2), of "(ps ! 4, fst x3, ALeaf [x3])"] by auto
  note acc = bnode_access(1,2) [OF rep_bnode]
  note nodes = acc [OF assms(5) [unfolded t]] acc [OF c1(2)] acc [OF c2(2)] acc [OF l1(2)] acc [OF l2(2)] acc [OF l3(2)]
  note kid = bnode_access(4) [OF rep_bnode]
  have ptr: "getPtr b 1 = Some (ps ! 1)" "getPtr c2 0 = Some (ps ! 3)" "getPtr c2 1 = Some (ps ! 4)"
    using kid [OF assms(5) [unfolded t], of 1] kid [OF c2(2), of 0] kid [OF c2(2), of 1] by simp_all
  have seek: "SeekLE P s root (fst x1) = Some \<lparr>path = [b, c1, l1], pos = [0, 0, 0]\<rparr>"
  proof -
    note look = bnode_lookup(1) [where k = "fst x1"]
    have "nodeLookupLE b (fst x1) = Some 0" "nodeLookupLE c1 (fst x1) = Some 0" "nodeLookupLE l1 (fst x1) = Some 0"
      using look [OF assms(5) [unfolded t]] look [OF c1(2)] look [OF l1(2)] assms(6)
      by (simp_all add: le_index_def count_le_def)
    moreover have "getPtr b 0 = Some (ps ! 0)" "getPtr c1 0 = Some (ps ! 2)"
      using kid [OF assms(5) [unfolded t], of 0] kid [OF c1(2), of 0] by simp_all
    ultimately show ?thesis
      using nodes get [OF assms(3)] get [OF c1(1)] get [OF l1(1)] assms(4)
      by (simp add: SeekLE_def, subst SeekLE_loop.simps, simp, subst SeekLE_loop.simps, simp,
          subst SeekLE_loop.simps) simp
  qed
  have "Next P s \<lparr>path = [b, c1, l1], pos = [0, 0, 0]\<rparr> = Some \<lparr>path = [b, c2, l1, l2], pos = [1, 0, 0, 0]\<rparr>"
    using nodes ptr get [OF c2(1)] Next_down_cases(2) [OF nodes(5) [simplified] ptr(2) get [OF l2(1)]] Next_down_cases(1) [of l2]
    by (simp add: Next_def index_def put_at_def overwrite_def eval_nat_numeral)
  moreover have "Next P s \<lparr>path = [b, c2, l1, l2], pos = [1, 0, 0, 0]\<rparr> = Some \<lparr>path = [b, c2, l3, l2], pos = [1, 1, 0, 0]\<rparr>"
    using nodes ptr get [OF l3(1)] Next_down_cases(1) [of l3]
    by (simp add: Next_def index_def put_at_def overwrite_def eval_nat_numeral)
  moreover have "Next P s \<lparr>path = [b, c2, l3, l2], pos = [1, 1, 0, 0]\<rparr> = Some \<lparr>path = [], pos = []\<rparr>"
    using nodes by (simp add: Next_def index_def eval_nat_numeral)
  moreover note read_single [OF l1(2), of "[0, 0]" "[b, c1]"] read_single [OF l2(2), of "[1, 0, 0]" "[b, c2, l1]"]
    read_single [OF l2(2), of "[1, 1, 0]" "[b, c2, l3]"]
  ultimately have "walk P s \<lparr>path = [b, c1, l1], pos = [0, 0, 0]\<rparr> = Some [x1, x2, x2]"
    by (subst walk.simps, simp, subst walk.simps, simp, subst walk.simps, simp, subst walk.simps) (simp add: Valid_def)
  then show ?thesis using seek by simp
qed

theorem walk_three_levels_witness:
  "\<exists>s b it. rep (pages s) (three_levels [2, 3, 4, 5, 6] [([1], []), ([2], []), ([3], [])]) b \<and>
     SeekLE mem_pager s 1 [1] = Some it \<and> walk mem_pager s it = Some [([1], []), ([2], []), ([2], [])]"
proof -
  let ?x1 = "([1], []) :: bytes \<times> bytes" and ?x2 = "([2], []) :: bytes \<times> bytes" and ?x3 = "([3], []) :: bytes \<times> bytes"
  let ?ls = "[?x1, ?x2, ?x3]"
  have node: "\<exists>b. bnode b t es" if "node_size es \<le> 4096" for t es using bnode_build [OF that, of t] by auto
  obtain b where b: "bnode b BNODE_INTERNAL [(2, [1], []), (3, [2], [])]" using node by (force simp: node_size_def)
  obtain c1 where c1: "bnode c1 BNODE_INTERNAL [(4, [1], [])]" using node by (force simp: node_size_def)
  obtain c2 where c2: "bnode c2 BNODE_INTERNAL [(5, [2], []), (6, [3], [])]" using node by (force simp: node_size_def)
  obtain l where l: "\<And>k. bnode (l k) BNODE_LEAF [(0, [k], [])]"
  proof -
    have "\<forall>k. \<exists>b. bnode b BNODE_LEAF [(0, [k], [])]" using node by (simp add: node_size_def)
    then show thesis using that by metis
  qed
  define s where "s = \<lparr>pages = [1 \<mapsto> b, 2 \<mapsto> c1, 3 \<mapsto> c2, 4 \<mapsto> l 1, 5 \<mapsto> l 2, 6 \<mapsto> l 3], fresh_ptr = 7\<rparr>"
  have r: "rep (pages s) (three_levels [2, 3, 4, 5, 6] ?ls) b"
    using b c1 c2 l by (simp add: three_levels_def s_def)
  have ok: "mem_ok s" "pages s 1 = Some b" by (auto simp: mem_ok_def s_def split: if_splits)
  show ?thesis
    using walk_three_levels [OF mem.page_store_axioms ok(1,2) _ r] r by auto
qed

end
