(* ===== verification/KV.thy ===== *)
theory KV
  imports PageMgr FreeList Overflow Iterator
begin

text \<open>
  The key-value store of \<^verbatim>\<open>internal/kvstore/kv.go\<close>: the tree over the page manager, with the free list
  between them, and the two-phase update of a commit. The store's state is the free list and the page manager;
  \<open>kv_pager\<close> is the record of callbacks that \<open>Open\<close> installs. The environment \<open>kv_env\<close> is the
  operating system (with the outcome of each system call of an operation) and the order in which a map is iterated.
\<close>

definition SyncOff :: int where "SyncOff = 0"
definition SyncNormal :: int where "SyncNormal = 1"
definition SyncFull :: int where "SyncFull = 2"

record kv_store =
  free_list :: FreeList
  pg :: PageMgr

record KV =
  Root :: u64
  st :: kv_store
  syncMode :: int
  failed :: bool

record kv_env =
  disk :: os
  open_err :: bool
  stat_err :: bool
  fsync_err :: "nat \<Rightarrow> bool"
  map_order :: "(u64 \<Rightarrow> bytes option) \<Rightarrow> (u64 \<times> bytes) list"

datatype kv_error =
  OpenFile | Stat | OpenMmap io_error | NotValidFile
  | RecoverMeta | RecoverFsync | Flush io_error | Fsync1 | WriteMetaError | Fsync2 | FsyncError

section \<open>The callbacks\<close>

definition free_pager :: "PageMgr free_pager" where
  "free_pager = \<lparr>fl_GetPage = Read, fl_NewPage = (\<lambda>pm node. Some (Alloc pm node)), fl_SetPage = Write,
     fl_PutPage = (\<lambda>pm ptr page. pm\<lparr>updates := (updates pm)(ptr \<mapsto> page)\<rparr>)\<rparr>"

definition kv_GetPage :: "kv_store \<Rightarrow> u64 \<Rightarrow> bytes option" where
  "kv_GetPage s ptr = Read (pg s) ptr"

definition kv_NewPage :: "kv_store \<Rightarrow> bytes \<Rightarrow> (u64 \<times> kv_store) option" where
  "kv_NewPage s node = do {
     (ptr, fl, pm) \<leftarrow> PopHead free_pager (pg s) (free_list s);
     (if ptr \<noteq> 0 then do {
        (page, pm) \<leftarrow> Write pm ptr;
        page \<leftarrow> copy_at page 0 node;
        Some (ptr, \<lparr>free_list = fl, pg = pm\<lparr>updates := (updates pm)(ptr \<mapsto> page)\<rparr>\<rparr>)
      }
      else
        let (p, pm) = Alloc pm node in Some (p, \<lparr>free_list = fl, pg = pm\<rparr>))
   }"

definition kv_DelPage :: "kv_store \<Rightarrow> u64 \<Rightarrow> kv_store option" where
  "kv_DelPage s ptr = do {
     (fl, pm) \<leftarrow> PushTail free_pager (pg s) (free_list s) ptr;
     Some \<lparr>free_list = fl, pg = pm\<rparr>
   }"

definition kv_pager :: "kv_store pager" where
  "kv_pager = \<lparr>GetPage = kv_GetPage, NewPage = kv_NewPage, DelPage = kv_DelPage\<rparr>"

section \<open>Opening\<close>

text \<open>\<open>f\<close> is the content of the file, empty if the call created it.\<close>

definition empty_list :: FreeList where
  "empty_list = \<lparr>HeadPage = 0, HeadSeq = 0, TailPage = 0, TailSeq = 0, maxSeq = 0\<rparr>"

definition Open :: "kv_env \<Rightarrow> bytes \<Rightarrow> int \<Rightarrow> (kv_error + KV) option" where
  "Open E f mode =
     (if open_err E then Some (Inl OpenFile)
      else if stat_err E then Some (Inl Stat)
      else
        let pm = NewPageMgr f in
        if length f = 0 then
          Some (Inr \<lparr>Root = 0, st = \<lparr>free_list = empty_list, pg = ResetTo pm 1\<rparr>, syncMode = mode, failed = False\<rparr>)
        else case ExtendMMap (disk E) pm (int (length f)) of
          Inl e \<Rightarrow> Some (Inl (OpenMmap e))
        | Inr pm \<Rightarrow> do {
            ptr \<leftarrow> Read pm 0;
            (m, ok) \<leftarrow> ReadMetaSafe ptr;
            (if \<not> ok then Some (Inl NotValidFile)
             else Some (Inr
               \<lparr>Root = m_root m,
                st = \<lparr>free_list = \<lparr>HeadPage = m_headPage m, HeadSeq = m_headSeq m, TailPage = m_tailPage m,
                        TailSeq = m_tailSeq m, maxSeq = 0\<rparr>,
                      pg = ResetTo pm (m_flushed m)\<rparr>,
                syncMode = mode, failed = False\<rparr>))
          })"

section \<open>Committing\<close>

definition saveMeta :: "KV \<Rightarrow> bytes option" where
  "saveMeta db = WriteMetaFull (replicate PageSize 0)
     \<lparr>m_root = Root db, m_flushed = flushed (pg (st db)),
      m_headPage = HeadPage (free_list (st db)), m_headSeq = HeadSeq (free_list (st db)),
      m_tailPage = TailPage (free_list (st db)), m_tailSeq = TailSeq (free_list (st db))\<rparr>"

definition buildMeta :: "KV \<Rightarrow> u64 \<Rightarrow> u64 \<Rightarrow> bytes option" where
  "buildMeta db root fl = WriteMetaFull (replicate PageSize 0)
     \<lparr>m_root = root, m_flushed = fl,
      m_headPage = HeadPage (free_list (st db)), m_headSeq = HeadSeq (free_list (st db)),
      m_tailPage = TailPage (free_list (st db)), m_tailSeq = TailSeq (free_list (st db))\<rparr>"

abbreviation set_pg :: "KV \<Rightarrow> PageMgr \<Rightarrow> KV" where
  "set_pg db pm \<equiv> db\<lparr>st := (st db)\<lparr>pg := pm\<rparr>\<rparr>"

definition rollback :: "KV \<Rightarrow> u64 \<Rightarrow> u64 \<Rightarrow> KV" where
  "rollback db root fl =
     (let db = db\<lparr>Root := root\<rparr> in set_pg db (ClearUpdates (ResetTo (pg (st db)) fl)))"

text \<open>Writing a meta page at the start of the file: whether it failed, and the store after it.\<close>

definition write_meta :: "kv_env \<Rightarrow> KV \<Rightarrow> bytes \<Rightarrow> bool \<times> KV" where
  "write_meta E db meta =
     (let (n, err, f) = writeAt (disk E) (db_file (pg (st db))) meta 0 in
      (err, set_pg db ((pg (st db))\<lparr>db_file := f\<rparr>)))"

text \<open>The first block of \<open>updateOrRevert\<close>: after a failure, the old meta page is written again.\<close>

definition recover_meta :: "kv_env \<Rightarrow> KV \<Rightarrow> u64 \<Rightarrow> u64 \<Rightarrow> (kv_error option \<times> KV) option" where
  "recover_meta E db oldRoot oldFlushed =
     (if failed db then do {
        meta \<leftarrow> buildMeta db oldRoot oldFlushed;
        let (err, db) = write_meta E db meta;
        (if err then Some (Some RecoverMeta, db)
         else if fsync_err E 0 then Some (Some RecoverFsync, db)
         else Some (None, db\<lparr>failed := False\<rparr>))
      }
      else Some (None, db))"

text \<open>The last blocks: \<open>SyncFull\<close> and \<open>SyncNormal\<close> both sync the file once more.\<close>

definition last_sync :: "kv_env \<Rightarrow> KV \<Rightarrow> kv_error option \<times> KV" where
  "last_sync E db =
     (if syncMode db = SyncFull then
        (if fsync_err E 2 then (Some Fsync2, db\<lparr>failed := True\<rparr>) else (None, db))
      else if syncMode db = SyncNormal then
        (if fsync_err E 2 then (Some FsyncError, db\<lparr>failed := True\<rparr>) else (None, db))
      else (None, db))"

definition updateOrRevert :: "kv_env \<Rightarrow> KV \<Rightarrow> u64 \<Rightarrow> u64 \<Rightarrow> (kv_error option \<times> KV) option" where
  "updateOrRevert E db oldRoot oldFlushed = do {
     (err, db) \<leftarrow> recover_meta E db oldRoot oldFlushed;
     (if err \<noteq> None then Some (err, db)
      else
        let (n, err, pm) = FlushPages (disk E) (map_order E (updates (pg (st db)))) (pg (st db));
            db = set_pg db pm
        in case err of
          Some e \<Rightarrow> Some (Some (Flush e), (rollback db oldRoot oldFlushed)\<lparr>failed := True\<rparr>)
        | None \<Rightarrow>
            if syncMode db \<ge> SyncNormal \<and> fsync_err E 1
            then Some (Some Fsync1, (rollback db oldRoot oldFlushed)\<lparr>failed := True\<rparr>)
            else do {
              let db = set_pg db (ClearUpdates (pg (st db)));
              meta \<leftarrow> saveMeta db;
              let (err, db) = write_meta E db meta;
              (if err then Some (Some WriteMetaError, (rollback db oldRoot oldFlushed)\<lparr>failed := True\<rparr>)
               else Some (last_sync E db))
            })
   }"

section \<open>The operations\<close>

definition kv_Get :: "KV \<Rightarrow> bytes \<Rightarrow> bytes option option" where
  "kv_Get db key = Get kv_pager (st db) (Root db) key"

definition kv_Set :: "kv_env \<Rightarrow> KV \<Rightarrow> bytes \<Rightarrow> bytes \<Rightarrow> (kv_error option \<times> KV) option" where
  "kv_Set E db key val = do {
     let oldRoot = Root db;
     let oldFlushed = flushed (pg (st db));
     (r, s) \<leftarrow> Insert kv_pager (st db) (Root db) key val;
     updateOrRevert E (db\<lparr>Root := r, st := s\<rparr>) oldRoot oldFlushed
   }"

definition kv_Del :: "kv_env \<Rightarrow> KV \<Rightarrow> bytes \<Rightarrow> (bool \<times> kv_error option \<times> KV) option" where
  "kv_Del E db key = do {
     let oldRoot = Root db;
     let oldFlushed = flushed (pg (st db));
     (deleted, r, s) \<leftarrow> Delete kv_pager (st db) (Root db) key;
     let db = db\<lparr>Root := r, st := s\<rparr>;
     (if \<not> deleted then Some (False, None, db)
      else do {
        (err, db) \<leftarrow> updateOrRevert E db oldRoot oldFlushed;
        Some (True, err, db)
      })
   }"

definition kv_Seek :: "KV \<Rightarrow> bytes \<Rightarrow> BIter option" where
  "kv_Seek db key = SeekLE kv_pager (st db) (Root db) key"

text \<open>Closing the file; \<open>close_err\<close> is the outcome of the system call. The data structures stay, and the mapped memory too.\<close>

definition kv_Close :: "bool \<Rightarrow> KV \<Rightarrow> bool \<times> KV" where
  "kv_Close close_err db = (close_err, db)"

definition TreeRoot :: "KV \<Rightarrow> u64" where
  "TreeRoot db = Root db"

definition PageRead :: "KV \<Rightarrow> u64 \<Rightarrow> bytes option" where
  "PageRead db ptr = Read (pg (st db)) ptr"

section \<open>The page manager behind the free list\<close>

definition page_view :: "PageMgr \<Rightarrow> u64 \<Rightarrow> bytes option" where
  "page_view pm p = (case Read pm p of None \<Rightarrow> None | Some b \<Rightarrow> if length b = BTREE_PAGE_SIZE then Some b else None)"

lemma page_view_Some: "page_view pm p = Some b \<longleftrightarrow> Read pm p = Some b \<and> length b = BTREE_PAGE_SIZE"
  by (auto simp: page_view_def split: option.splits)

lemma Read_upd: "Read (pm\<lparr>updates := (updates pm)(p \<mapsto> b)\<rparr>) q = (if q = p then Some b else Read pm q)"
  by (simp add: Read_def split: option.split)

lemma page_view_upd:
  "length b = BTREE_PAGE_SIZE \<Longrightarrow> page_view (pm\<lparr>updates := (updates pm)(p \<mapsto> b)\<rparr>) = (page_view pm)(p \<mapsto> b)"
  by (rule ext) (simp add: page_view_def Read_upd)

lemma PageSize_BTREE: "PageSize = BTREE_PAGE_SIZE"
  by (simp add: PageSize_def BTREE_PAGE_SIZE_def)

lemma copy_page:
  "length b = n \<Longrightarrow> length c = n \<Longrightarrow> copy_at c 0 b = Some b"
  by (simp add: copy_at_def overwrite_def)

lemma Write_view:
  assumes "page_view pm p = Some b"
  shows "\<exists>pm'. Write pm p = Some (b, pm') \<and> updates pm' p = Some b \<and> page_view pm' = page_view pm \<and>
    (\<forall>q. q \<noteq> p \<longrightarrow> updates pm' q = updates pm q)"
proof (cases "updates pm p")
  case None
  have b: "Read pm p = Some b" "length b = BTREE_PAGE_SIZE" using assms by (simp_all add: page_view_Some)
  then have "Write pm p = Some (b, pm\<lparr>updates := (updates pm)(p \<mapsto> b)\<rparr>)"
    using None copy_page [of b BTREE_PAGE_SIZE "replicate PageSize 0"] by (simp add: Write_def PageSize_BTREE)
  moreover have "page_view (pm\<lparr>updates := (updates pm)(p \<mapsto> b)\<rparr>) = page_view pm"
    using page_view_upd [OF b(2)] assms by (simp add: fun_upd_idem)
  ultimately show ?thesis by simp
next
  case (Some c)
  then have "c = b" using assms by (simp add: page_view_Some Read_def)
  then show ?thesis using Some by (simp add: Write_def)
qed

interpretation kvf: free_store free_pager page_view "\<lambda>pm p. updates pm p \<noteq> None" "\<lambda>_. True"
proof
  fix s p b b'
  show "page_view s p = Some b \<Longrightarrow> fl_GetPage free_pager s p = Some b"
    by (simp add: free_pager_def page_view_Some)
  show "page_view s p = Some b \<Longrightarrow>
    \<exists>s'. fl_SetPage free_pager s p = Some (b, s') \<and> True \<and> page_view s' = page_view s \<and> updates s' p \<noteq> None"
    using Write_view [of s p b] by (auto simp: free_pager_def)
  show "updates s p \<noteq> None \<Longrightarrow> page_view s p = Some b \<Longrightarrow> length b' = length b \<Longrightarrow>
    True \<and> page_view (fl_PutPage free_pager s p b') = (page_view s)(p \<mapsto> b') \<and> updates (fl_PutPage free_pager s p b') p \<noteq> None"
    by (simp add: free_pager_def page_view_upd page_view_Some)
next
  fix s :: PageMgr and b :: bytes
  have "Read (s\<lparr>temp := t\<rparr>) = Read s" for t by (rule ext) (simp add: Read_def split: option.split)
  then show "\<exists>p s'. fl_NewPage free_pager s b = Some (p, s') \<and> True \<and>
      (\<forall>q b. page_view s q = Some b \<longrightarrow> page_view s' q = Some b) \<and> (\<forall>q. updates s q \<noteq> None \<longrightarrow> updates s' q \<noteq> None)"
    by (simp add: free_pager_def Alloc_def page_view_def)
qed

section \<open>Recycled pages behind overflow chains\<close>

text \<open>
  With enough recycled pages on one page of the free list, the store serves overflow chains. A slice read from
  the mapped file is not writable; one from the pending updates is.
\<close>

definition kv_PutPage :: "kv_store \<Rightarrow> u64 \<Rightarrow> bytes \<Rightarrow> kv_store option" where
  "kv_PutPage s ptr page =
     (if updates (pg s) ptr = None then None
      else Some (s\<lparr>pg := (pg s)\<lparr>updates := (updates (pg s))(ptr \<mapsto> page)\<rparr>\<rparr>))"

definition kv_ovfl :: "kv_store ovfl_pager" where
  "kv_ovfl = \<lparr>GetPage = kv_GetPage, NewPage = kv_NewPage, DelPage = kv_DelPage, PutPage = kv_PutPage\<rparr>"

definition items :: "kv_store \<Rightarrow> u64 list" where
  "items s = (case page_view (pg s) (HeadPage (free_list s)) of None \<Rightarrow> []
     | Some b \<Rightarrow> slots b (unat (HeadSeq (free_list s))) (unat (TailSeq (free_list s))))"

definition kv_live :: "kv_store \<Rightarrow> u64 \<Rightarrow> bytes option" where
  "kv_live s p = (if p = HeadPage (free_list s) \<or> p \<in> set (items s) then None
     else case updates (pg s) p of None \<Rightarrow> None | Some b \<Rightarrow> if length b = BTREE_PAGE_SIZE then Some b else None)"

definition kv_ok :: "kv_store \<Rightarrow> bool" where
  "kv_ok s \<longleftrightarrow> one_page (page_view (pg s)) (free_list s) (items s) \<and> distinct (items s) \<and>
     HeadPage (free_list s) \<notin> set (items s) \<and> 0 \<notin> set (items s) \<and> updates (pg s) 0 = None \<and>
     (\<forall>q \<in> set (items s). page_view (pg s) q \<noteq> None)"

definition kv_cap :: "kv_store \<Rightarrow> nat" where
  "kv_cap s = min (length (items s)) (63 - unat (HeadSeq (free_list s)))"

definition kv_room :: "kv_store \<Rightarrow> nat" where
  "kv_room s = 510 - unat (TailSeq (free_list s))"

lemma one_page_items: "one_page (page_view (pg s)) (free_list s) qs \<Longrightarrow> items s = qs"
  by (auto simp: one_page_def items_def)

lemma kv_new_page:
  assumes "kv_ok s" "0 < kv_cap s" "length b = BTREE_PAGE_SIZE"
  shows "\<exists>p s'. kv_NewPage s b = Some (p, s') \<and> kv_ok s' \<and> p \<noteq> 0 \<and> kv_live s p = None \<and>
    kv_live s' = (kv_live s)(p \<mapsto> b) \<and> kv_cap s = Suc (kv_cap s')"
proof -
  note ok = assms(1) [unfolded kv_ok_def]
  obtain q qs where q: "items s = q # qs" using assms(2) by (cases "items s") (auto simp: kv_cap_def)
  have h: "unat (HeadSeq (free_list s)) < 63" using assms(2) by (simp add: kv_cap_def)
  obtain fl where fl: "PopHead free_pager (pg s) (free_list s) = Some (q, fl, pg s)" "one_page (page_view (pg s)) fl qs"
    "unat (HeadSeq fl) = Suc (unat (HeadSeq (free_list s)))" "HeadPage fl = HeadPage (free_list s)"
    using kvf.PopHead_queue [OF TrueI, of "pg s" "free_list s" q qs] ok q h by auto
  obtain c where c: "page_view (pg s) q = Some c" using ok q by auto
  obtain pm where pm: "Write (pg s) q = Some (c, pm)" "page_view pm = page_view (pg s)" "updates pm q = Some c"
    "\<forall>r. r \<noteq> q \<longrightarrow> updates pm r = updates (pg s) r"
    using Write_view [OF c] by blast
  let ?pm = "pm\<lparr>updates := (updates pm)(q \<mapsto> b)\<rparr>"
  let ?s = "\<lparr>free_list = fl, pg = ?pm\<rparr>"
  have v: "page_view ?pm = (page_view (pg s))(q \<mapsto> b)" using page_view_upd [OF assms(3)] pm(2) by simp
  have q0: "q \<noteq> 0" "q \<noteq> HeadPage fl" "q \<notin> set qs" using ok q fl(4) by auto
  have "kv_NewPage s b = Some (q, ?s)"
    using fl(1) pm(1) q0(1) copy_page [OF assms(3), of c] c by (simp add: kv_NewPage_def page_view_Some)
  moreover have one: "one_page (page_view ?pm) fl qs" using fl(2) q0(2) v by (simp add: one_page_def)
  then have it: "items ?s = qs" using one_page_items [of ?s qs] by simp
  moreover have "kv_ok ?s" using ok q one it q0 v pm(4) fl(4) by (auto simp: kv_ok_def)
  moreover have "kv_live ?s = (kv_live s)(q \<mapsto> b)"
    using q it q0 fl(4) pm(4) assms(3) by (auto simp: kv_live_def)
  moreover have "kv_live s q = None" using q by (simp add: kv_live_def)
  moreover have "kv_cap s = Suc (kv_cap ?s)" using it q fl(3) h by (simp add: kv_cap_def)
  ultimately show ?thesis using q0(1) by blast
qed

lemma kv_put_page:
  assumes "kv_ok s" "kv_live s p = Some b" "length b' = length b"
  shows "\<exists>s'. kv_PutPage s p b' = Some s' \<and> kv_ok s' \<and> kv_live s' = (kv_live s)(p \<mapsto> b') \<and> kv_cap s' = kv_cap s"
proof -
  note ok = assms(1) [unfolded kv_ok_def]
  have p: "p \<noteq> HeadPage (free_list s)" "p \<notin> set (items s)" "updates (pg s) p = Some b" "length b = BTREE_PAGE_SIZE"
    using assms(2) by (auto simp: kv_live_def split: if_splits option.splits)
  let ?s = "s\<lparr>pg := (pg s)\<lparr>updates := (updates (pg s))(p \<mapsto> b')\<rparr>\<rparr>"
  have v: "page_view (pg ?s) = (page_view (pg s))(p \<mapsto> b')" using page_view_upd [of b'] assms(3) p(4) by simp
  then have one: "one_page (page_view (pg ?s)) (free_list ?s) (items s)" using ok p(1) by (simp add: one_page_def)
  then have it: "items ?s = items s" by (rule one_page_items)
  have "kv_ok ?s" using ok one it v p by (auto simp: kv_ok_def)
  moreover have "kv_live ?s = (kv_live s)(p \<mapsto> b')" using it p assms(3) by (auto simp: kv_live_def)
  moreover have "kv_cap ?s = kv_cap s" using it by (simp add: kv_cap_def)
  ultimately show ?thesis using p(3) by (simp add: kv_PutPage_def)
qed

lemma Write_updates: "Write pm p = Some (b, pm') \<Longrightarrow> q \<noteq> p \<Longrightarrow> updates pm' q = updates pm q"
  by (auto simp: Write_def split: option.splits Option.bind_splits)

lemma PushTail_updates:
  assumes "PushTail free_pager pm fl p = Some (fl', pm')" "TailPage fl \<noteq> 0" "q \<noteq> TailPage fl"
  shows "updates pm' q = updates pm q"
  using assms Write_updates [of pm "TailPage fl" _ _ q]
  by (auto simp: PushTail_def free_pager_def Alloc_def Let_def split: Option.bind_splits if_splits prod.splits)

lemma kv_del_page:
  assumes "kv_ok s" "kv_live s p = Some b" "0 < kv_room s"
  shows "\<exists>s'. kv_DelPage s p = Some s' \<and> kv_ok s' \<and> kv_live s' = (kv_live s)(p := None) \<and> kv_room s = Suc (kv_room s')"
proof -
  note ok = assms(1) [unfolded kv_ok_def]
  let ?h = "HeadPage (free_list s)"
  have p: "p \<noteq> ?h" "p \<notin> set (items s)" "updates (pg s) p = Some b" "length b = BTREE_PAGE_SIZE"
    using assms(2) by (auto simp: kv_live_def split: if_splits option.splits)
  have p0: "p \<noteq> 0" using ok p(3) by auto
  have "unat (TailSeq (free_list s)) < 510" using assms(3) by (simp add: kv_room_def)
  then obtain fl pm where fl: "PushTail free_pager (pg s) (free_list s) p = Some (fl, pm)"
    "one_page (page_view pm) fl (items s @ [p])" "HeadSeq fl = HeadSeq (free_list s)"
    "unat (TailSeq fl) = Suc (unat (TailSeq (free_list s)))" "HeadPage fl = ?h"
    "\<forall>q. q \<noteq> ?h \<longrightarrow> page_view pm q = page_view (pg s) q"
    using kvf.PushTail_queue [OF TrueI, of "pg s" "free_list s" "items s" p] ok by auto
  have up: "updates pm q = updates (pg s) q" if "q \<noteq> ?h" for q
    using PushTail_updates [OF fl(1), of q] ok that by (simp add: one_page_def)
  let ?s = "\<lparr>free_list = fl, pg = pm\<rparr>"
  have it: "items ?s = items s @ [p]" using one_page_items [of ?s] fl(2) by simp
  have "page_view (pg s) p \<noteq> None" using p(3,4) by (simp add: page_view_def Read_def)
  then have "\<forall>q \<in> set (items s @ [p]). page_view pm q \<noteq> None"
    using ok fl(6) p(1) by (metis Un_iff empty_iff empty_set insert_iff list.simps(15) set_append)
  moreover have "?h \<noteq> 0" using ok by (simp add: one_page_def)
  ultimately have "kv_ok ?s"
    using ok fl(2,5) it p(1,2) p0 up [of 0] by (auto simp: kv_ok_def)
  moreover have "kv_live ?s = (kv_live s)(p := None)" using it up fl(5) by (auto simp: kv_live_def)
  moreover have "kv_room s = Suc (kv_room ?s)" using fl(4) assms(3) by (simp add: kv_room_def)
  ultimately show ?thesis using fl(1) by (simp add: kv_DelPage_def)
qed

interpretation kvo: overflow_store_del kv_ovfl kv_live kv_ok kv_cap kv_room
proof
  fix s p b
  show "kv_live s p = Some b \<Longrightarrow> GetPage kv_ovfl s p = Some b"
    by (auto simp: kv_ovfl_def kv_GetPage_def kv_live_def Read_def split: if_splits option.splits)
qed (use kv_new_page kv_put_page kv_del_page in \<open>auto simp: kv_ovfl_def\<close>)

end
