(* ===== verification/KV_Props.thy ===== *)
theory KV_Props
  imports KV
begin

text \<open>
  What the key-value store guarantees when it commits: durability of every pending page, what a reopened database sees, how an
  update that cannot be flushed is undone, and where the interplay of tree, free list and page manager breaks.
\<close>

section \<open>A commit that the operating system carries out\<close>

definition env_ok :: "kv_env \<Rightarrow> bool" where
  "env_ok E \<longleftrightarrow> os_ok (disk E) \<and> \<not> open_err E \<and> \<not> stat_err E \<and> (\<forall>n. \<not> fsync_err E n) \<and>
     (\<forall>m. map_of (map_order E m) = m \<and> distinct (map fst (map_order E m)))"

text \<open>The logical content of page \<open>p\<close>: pending update, new page, or page of the file.\<close>

definition pending :: "PageMgr \<Rightarrow> u64 \<Rightarrow> bytes option" where
  "pending pm p =
     (case updates pm p of
        Some b \<Rightarrow> Some b
      | None \<Rightarrow>
          if unat (flushed pm) \<le> unat p then
            (if unat p < unat (flushed pm) + length (temp pm) then Some (temp pm ! (unat p - unat (flushed pm))) else None)
          else if PageSize * Suc (unat p) \<le> length (db_file pm) then Some (file_page (db_file pm) (unat p)) else None)"

text \<open>Between operations: what is pending is small and well-formed, and the file is mapped.\<close>

definition committable :: "kv_env \<Rightarrow> KV \<Rightarrow> bool" where
  "committable E db \<longleftrightarrow> \<not> failed db \<and> flushable (map_order E (updates (pg (st db)))) (pg (st db)) \<and>
     updates (pg (st db)) 0 = None \<and> 0 < unat (flushed (pg (st db))) \<and>
     length (db_file (pg (st db))) \<le> mmap_total (pg (st db))"

definition meta_of :: "KV \<Rightarrow> meta" where
  "meta_of db = \<lparr>m_root = Root db, m_flushed = flushed (pg (st db)),
      m_headPage = HeadPage (free_list (st db)), m_headSeq = HeadSeq (free_list (st db)),
      m_tailPage = TailPage (free_list (st db)), m_tailSeq = TailSeq (free_list (st db))\<rparr>"

lemma saveMeta_sealed: "\<exists>p. saveMeta db = Some p \<and> sealed p (meta_of db)"
  using WriteMetaFull_sealed [of "replicate PageSize 0" "meta_of db"] by (simp add: saveMeta_def meta_of_def page_offsets)

lemma flush_pending:
  assumes "os_ok S" "flushable ups pm" "length (db_file pm) \<le> mmap_total pm"
  shows "\<exists>n pm'. FlushPages S ups pm = (n, None, pm') \<and> flushed pm' = flushed pm + of_nat (length (temp pm)) \<and>
    temp pm' = [] \<and> mapped pm' \<and> length (db_file pm') \<le> mmap_total pm' \<and>
    length (db_file pm') \<le> PageSize * unat (flushed pm') \<and> PageSize * unat (flushed pm') < 2 ^ 60 \<and>
    (\<forall>p b. pending pm p = Some b \<longrightarrow> PageSize * Suc (unat p) \<le> length (db_file pm') \<and> file_page (db_file pm') (unat p) = b)"
proof -
  let ?n = "unat (flushed pm)" and ?l = "length (temp pm)"
  note f = assms(2) [unfolded flushable_def]
  obtain pm' where r: "FlushPages S ups pm = (length ups + ?l, None, pm')"
    "flushed pm' = flushed pm + of_nat ?l" "temp pm' = []" "mapped pm'" "length (db_file pm) \<le> length (db_file pm')"
    "ups = [] \<and> temp pm = [] \<or> PageSize * (?n + ?l) \<le> mmap_total pm'"
    "temp pm \<noteq> [] \<longrightarrow> length (db_file pm') = PageSize * (?n + ?l)"
    "temp pm = [] \<longrightarrow> length (db_file pm') = length (db_file pm)" "ups = [] \<and> temp pm = [] \<longrightarrow> pm' = pm"
    "\<forall>j < ?l. file_page (db_file pm') (?n + j) = temp pm ! j"
    "\<forall>p. PageSize * Suc (unat p) \<le> length (db_file pm) \<longrightarrow>
       file_page (db_file pm') (unat p) = (case updates pm p of Some b \<Rightarrow> b | None \<Rightarrow> file_page (db_file pm) (unat p))"
    using FlushPages_ok [OF assms(1,2)] by auto
  have u: "unat (flushed pm') = ?n + ?l" using unat_flushed_add [of "flushed pm" ?l ?l] f r(2) by simp
  have len: "length (db_file pm') \<le> PageSize * (?n + ?l)" using r(7,8) f by (cases "temp pm = []") simp_all
  have "length (db_file pm') \<le> mmap_total pm'" using r(6,9) len assms(3) by auto
  moreover have "PageSize * Suc (unat p) \<le> length (db_file pm') \<and> file_page (db_file pm') (unat p) = b" if p: "pending pm p = Some b" for p b
  proof (cases "updates pm p")
    case (Some c)
    then have "(p, b) \<in> set ups" using f p by (intro map_of_SomeD) (simp add: pending_def)
    then have "PageSize * Suc (unat p) \<le> length (db_file pm)" using f by auto
    then show ?thesis using r(5,11) Some p by (simp add: pending_def)
  next
    case None
    show ?thesis
    proof (cases "?n \<le> unat p")
      case True
      then have j: "unat p - ?n < ?l" "b = temp pm ! (unat p - ?n)" "temp pm \<noteq> []" "?n + (unat p - ?n) = unat p"
        using p None by (auto simp: pending_def split: if_splits)
      have "Suc (unat p) \<le> ?n + ?l" using j(1) True by simp
      then have "PageSize * Suc (unat p) \<le> PageSize * (?n + ?l)" by (rule mult_le_mono2)
      then show ?thesis using r(7,10) j by metis
    next
      case False
      then show ?thesis using r(5,11) None p by (auto simp: pending_def split: if_splits)
    qed
  qed
  ultimately show ?thesis using r(1-4) len u f by auto
qed

lemma commit_ok:
  assumes "env_ok E" "committable E db"
  shows "\<exists>db'. updateOrRevert E db r fl = Some (None, db') \<and> Root db' = Root db \<and>
    free_list (st db') = free_list (st db) \<and> \<not> failed db' \<and> syncMode db' = syncMode db \<and>
    flushed (pg (st db')) = flushed (pg (st db)) + of_nat (length (temp (pg (st db)))) \<and> temp (pg (st db')) = [] \<and>
    updates (pg (st db')) = (\<lambda>_. None) \<and> mapped (pg (st db')) \<and>
    length (db_file (pg (st db'))) \<le> max PageSize (mmap_total (pg (st db'))) \<and>
    length (db_file (pg (st db'))) \<le> PageSize * unat (flushed (pg (st db'))) \<and>
    PageSize * unat (flushed (pg (st db'))) < 2 ^ 60 \<and> PageSize \<le> length (db_file (pg (st db'))) \<and>
    sealed (file_page (db_file (pg (st db'))) 0) (meta_of db') \<and>
    (\<forall>p b. pending (pg (st db)) p = Some b \<longrightarrow> p \<noteq> 0 \<longrightarrow>
       PageSize * Suc (unat p) \<le> length (db_file (pg (st db'))) \<and> file_page (db_file (pg (st db'))) (unat p) = b)"
proof -
  let ?pm = "pg (st db)"
  note c = assms(2) [unfolded committable_def]
  have os: "os_ok (disk E)" "\<And>n. \<not> fsync_err E n" using assms(1) by (simp_all add: env_ok_def)
  obtain n pm where f: "FlushPages (disk E) (map_order E (updates ?pm)) ?pm = (n, None, pm)"
    "flushed pm = flushed ?pm + of_nat (length (temp ?pm))" "temp pm = []" "mapped pm" "length (db_file pm) \<le> mmap_total pm"
    "length (db_file pm) \<le> PageSize * unat (flushed pm)" "PageSize * unat (flushed pm) < 2 ^ 60"
    "\<forall>p b. pending ?pm p = Some b \<longrightarrow> PageSize * Suc (unat p) \<le> length (db_file pm) \<and> file_page (db_file pm) (unat p) = b"
    using flush_pending [OF os(1), of "map_order E (updates ?pm)" ?pm] c by blast
  define db1 where "db1 = set_pg db (ClearUpdates pm)"
  obtain mp where mp: "saveMeta db1 = Some mp" "sealed mp (meta_of db1)" using saveMeta_sealed by blast
  have l: "length mp = PageSize" using mp(2) by (simp add: sealed_def page_offsets)
  define g where "g = file_write (db_file pm) 0 mp"
  have "writeAt (disk E) (db_file pm) mp 0 = (length mp, False, g)" using os(1) by (simp add: os_ok_def g_def)
  then have w: "write_meta E db1 mp = (False, set_pg db1 ((ClearUpdates pm)\<lparr>db_file := g\<rparr>))"
    by (simp add: write_meta_def db1_def ClearUpdates_def)
  define db' where "db' = set_pg db1 ((ClearUpdates pm)\<lparr>db_file := g\<rparr>)"
  have upd: "updateOrRevert E db r fl = Some (None, db')"
    using c f(1) os(2) mp(1) w
    by (simp add: updateOrRevert_def recover_meta_def last_sync_def Let_def db1_def db'_def)
  have "flushed pm = 0 \<Longrightarrow> False"
    using unat_flushed_add [of "flushed ?pm" "length (temp ?pm)" "length (temp ?pm)"] c f(2) by (auto simp: flushable_def)
  then have "1 \<le> unat (flushed pm)" by (metis less_one not_le unat_eq_0)
  then have "PageSize \<le> PageSize * unat (flushed pm)" by (cases "unat (flushed pm)") simp_all
  then have lg: "length g \<le> max PageSize (mmap_total pm)" "length g \<le> PageSize * unat (flushed pm)" "PageSize \<le> length g"
    "length (db_file pm) \<le> length g"
    using f(5,6) l by (simp_all add: g_def length_file_write)
  have g: "file_page g 0 = mp" "\<And>p. p \<noteq> 0 \<Longrightarrow> PageSize * Suc p \<le> length (db_file pm) \<Longrightarrow> file_page g p = file_page (db_file pm) p"
    using file_page_write(1) [OF l, of "db_file pm" 0] file_page_write(2) [OF l, of 0 _ "db_file pm"] by (simp_all add: g_def)
  have "meta_of db' = meta_of db1" by (simp add: meta_of_def db'_def db1_def ClearUpdates_def)
  moreover have "PageSize * Suc (unat p) \<le> length g \<and> file_page g (unat p) = b" if "pending ?pm p = Some b" "p \<noteq> 0" for p b
    using f(8) that g(2) [of "unat p"] lg(4) by (metis le_trans unat_eq_zero)
  ultimately show ?thesis
    using upd f(2-4,7) c mp(2) lg g(1)
    by (intro exI [of _ db'] conjI) (simp_all add: db'_def db1_def ClearUpdates_def mapped_def)
qed

section \<open>Opening a committed file\<close>

lemma Open_sealed:
  assumes "env_ok E" "PageSize \<le> length f" "length f < 2 ^ 60" "sealed (file_page f 0) m"
  shows "\<exists>pm. Open E f mode = Some (Inr \<lparr>Root = m_root m,
      st = \<lparr>free_list = \<lparr>HeadPage = m_headPage m, HeadSeq = m_headSeq m, TailPage = m_tailPage m,
              TailSeq = m_tailSeq m, maxSeq = 0\<rparr>, pg = ResetTo pm (m_flushed m)\<rparr>,
      syncMode = mode, failed = False\<rparr>) \<and> mapped pm \<and> length f \<le> mmap_total pm \<and> db_file pm = f"
proof -
  have new: "mapped (NewPageMgr f)" "db_file (NewPageMgr f) = f" "updates (NewPageMgr f) = (\<lambda>_. None)"
    "mmap_total (NewPageMgr f) < 2 ^ 61" by (simp_all add: NewPageMgr_def mapped_def)
  obtain pm where pm: "ExtendMMap (disk E) (NewPageMgr f) (int (length f)) = Inr pm" "mapped pm" "length f \<le> mmap_total pm"
    "db_file pm = f" "updates pm = (\<lambda>_. None)"
    using ExtendMMap_ok [of "disk E" "NewPageMgr f" "length f"] assms(1,3) new by (auto simp: env_ok_def os_ok_def)
  have "Read pm 0 = Some (file_page f 0)" using Read_mapped [of pm 0] pm assms(2) by simp
  moreover have "length f \<noteq> 0" using assms(2) PageSize_pos by linarith
  ultimately show ?thesis
    using pm sealed_reads [OF assms(4)] assms(1) by (intro exI [of _ pm]) (simp add: Open_def env_ok_def Let_def)
qed

lemma Read_ResetTo:
  assumes "mapped pm" "length (db_file pm) \<le> mmap_total pm" "PageSize * Suc (unat p) \<le> length (db_file pm)"
  shows "Read (ResetTo pm n) p = Some (file_page (db_file pm) (unat p))"
  using Read_mapped [of "ResetTo pm n" p] assms by (simp add: ResetTo_def mapped_def)

lemma commit_reopen:
  assumes "env_ok E" "committable E db"
  shows "\<exists>db' db''. updateOrRevert E db r fl = Some (None, db') \<and>
    Open E (db_file (pg (st db'))) mode = Some (Inr db'') \<and> Root db' = Root db \<and> Root db'' = Root db \<and>
    free_list (st db') = free_list (st db) \<and> free_list (st db'') = (free_list (st db))\<lparr>maxSeq := 0\<rparr> \<and>
    \<not> failed db' \<and> flushed (pg (st db')) = flushed (pg (st db)) + of_nat (length (temp (pg (st db)))) \<and>
    flushed (pg (st db'')) = flushed (pg (st db')) \<and> temp (pg (st db')) = [] \<and> updates (pg (st db')) = (\<lambda>_. None) \<and>
    mapped (pg (st db')) \<and> length (db_file (pg (st db'))) \<le> PageSize * unat (flushed (pg (st db'))) \<and>
    PageSize * unat (flushed (pg (st db'))) < 2 ^ 60 \<and>
    (\<forall>p b. pending (pg (st db)) p = Some b \<longrightarrow> p \<noteq> 0 \<longrightarrow> PageRead db' p = Some b \<and> PageRead db'' p = Some b)"
proof -
  obtain db' where c: "updateOrRevert E db r fl = Some (None, db')" "Root db' = Root db" "free_list (st db') = free_list (st db)"
    "\<not> failed db'" "flushed (pg (st db')) = flushed (pg (st db)) + of_nat (length (temp (pg (st db))))" "temp (pg (st db')) = []"
    "updates (pg (st db')) = (\<lambda>_. None)" "mapped (pg (st db'))"
    "length (db_file (pg (st db'))) \<le> max PageSize (mmap_total (pg (st db')))"
    "length (db_file (pg (st db'))) \<le> PageSize * unat (flushed (pg (st db')))"
    "PageSize * unat (flushed (pg (st db'))) < 2 ^ 60" "PageSize \<le> length (db_file (pg (st db')))"
    "sealed (file_page (db_file (pg (st db'))) 0) (meta_of db')"
    "\<forall>p b. pending (pg (st db)) p = Some b \<longrightarrow> p \<noteq> 0 \<longrightarrow>
       PageSize * Suc (unat p) \<le> length (db_file (pg (st db'))) \<and> file_page (db_file (pg (st db'))) (unat p) = b"
    using commit_ok [OF assms, of r fl] by blast
  let ?f = "db_file (pg (st db'))"
  have "length ?f < 2 ^ 60" using c(10,11) by linarith
  then obtain pm where o: "Open E ?f mode = Some (Inr \<lparr>Root = m_root (meta_of db'),
      st = \<lparr>free_list = \<lparr>HeadPage = m_headPage (meta_of db'), HeadSeq = m_headSeq (meta_of db'),
              TailPage = m_tailPage (meta_of db'), TailSeq = m_tailSeq (meta_of db'), maxSeq = 0\<rparr>,
            pg = ResetTo pm (m_flushed (meta_of db'))\<rparr>, syncMode = mode, failed = False\<rparr>)"
    "mapped pm" "length ?f \<le> mmap_total pm" "db_file pm = ?f"
    using Open_sealed [OF assms(1) c(12) _ c(13)] by blast
  have "PageRead db' p = Some b \<and> Read (ResetTo pm n) p = Some b" if "pending (pg (st db)) p = Some b" "p \<noteq> 0" for p b n
  proof -
    have p: "PageSize * Suc (unat p) \<le> length ?f" "file_page ?f (unat p) = b" using c(14) that by blast+
    have "0 < unat p" using that(2) by (simp add: unat_gt_0)
    then have "PageSize < PageSize * Suc (unat p)" by simp
    then have "PageSize * Suc (unat p) \<le> mmap_total (pg (st db'))" using c(9) p(1) by linarith
    then have "PageRead db' p = Some b" using Read_mapped [OF c(8), of p] c(7) p by (simp add: PageRead_def)
    then show ?thesis using Read_ResetTo [OF o(2), of p] o(3,4) p by simp
  qed
  then show ?thesis using c(1-8,10,11) o(1) by (auto simp: meta_of_def PageRead_def ResetTo_def)
qed

section \<open>A tree with one leaf\<close>

lemma Get_single:
  assumes "GetPage P s r = Some b" "bnode b BNODE_LEAF [(0, k, v)]" "r \<noteq> 0"
  shows "Get P s r q = Some (if q = k then Some v else None)"
proof -
  have "le_index (ekeys [(0 :: u64, k, v)]) q = 0" using le_index_less [of "[k]" q] by simp
  then have "nodeLookupLE b q = Some 0" using nodeLookupLE_filled [OF assms(2), of q] by simp
  moreover have "getKey b 0 = Some k" "getVal b 0 = Some v" "btype b = Some BNODE_LEAF"
    using bnode_access(1) [OF assms(2)] bnode_access(5,6) [OF assms(2), of 0] by simp_all
  ultimately have "Get_loop P s b q = Some (if q = k then Some v else None)" by (subst Get_loop.simps) simp
  then show ?thesis using assms(1,3) by (simp add: Get_def)
qed

lemma Insert_empty:
  assumes "usual (k, v)"
  obtains b where "bnode b BNODE_LEAF [(0, k, v)]" "length b = BTREE_PAGE_SIZE" "Insert P s 0 k v = NewPage P s b"
proof -
  have kv: "length k + length v \<le> 920" using assms by (simp add: usual_def)
  obtain b0 where b0: "setHeader (make_bytes BTREE_PAGE_SIZE) BNODE_LEAF 1 = Some b0"
    "filled b0 BNODE_LEAF 1 []" "length b0 = BTREE_PAGE_SIZE"
    using setHeader_filled [of 1 "make_bytes BTREE_PAGE_SIZE" BNODE_LEAF] by (auto simp: BTREE_PAGE_SIZE_def)
  obtain b1 where b1: "nodeAppendKV b0 0 0 k v = Some b1" "filled b1 BNODE_LEAF 1 [(0, k, v)]" "length b1 = length b0"
    using nodeAppendKV_filled [OF b0(2), of 0 k v] b0(3) kv by (auto simp: BTREE_PAGE_SIZE_def)
  show thesis
    by (rule that [of b1]) (use b0 b1 in \<open>simp_all add: bnode_def Insert_def\<close>)
qed

text \<open>The first update of a new database, up to the commit.\<close>

definition fresh_kv :: "int \<Rightarrow> KV" where
  "fresh_kv mode = \<lparr>Root = 0, st = \<lparr>free_list = empty_list, pg = ResetTo (NewPageMgr []) 1\<rparr>, syncMode = mode, failed = False\<rparr>"

lemma Open_empty: "env_ok E \<Longrightarrow> Open E [] mode = Some (Inr (fresh_kv mode))"
  by (simp add: Open_def env_ok_def fresh_kv_def)

lemma first_Insert:
  assumes "env_ok E" "usual (k, v)"
  obtains b db1 where "bnode b BNODE_LEAF [(0, k, v)]"
    "kv_Set E (fresh_kv mode) k v = updateOrRevert E db1 0 1" "committable E db1" "Root db1 = 1"
    "free_list (st db1) = empty_list" "pending (pg (st db1)) 1 = Some b" "flushed (pg (st db1)) = 1" "length (temp (pg (st db1))) = 1"
proof -
  obtain b where b: "bnode b BNODE_LEAF [(0, k, v)]" "length b = BTREE_PAGE_SIZE"
    "Insert kv_pager (st (fresh_kv mode)) 0 k v = NewPage kv_pager (st (fresh_kv mode)) b"
    using Insert_empty [OF assms(2)] by metis
  define db1 where "db1 = (fresh_kv mode)\<lparr>Root := 1, st := \<lparr>free_list = empty_list, pg = (ResetTo (NewPageMgr []) 1)\<lparr>temp := [b]\<rparr>\<rparr>\<rparr>"
  have "NewPage kv_pager (st (fresh_kv mode)) b = Some (1, st db1)"
    by (simp add: kv_pager_def kv_NewPage_def PopHead_def fresh_kv_def empty_list_def Alloc_def db1_def NewPageMgr_def ResetTo_def)
  then have "kv_Set E (fresh_kv mode) k v = updateOrRevert E db1 0 1"
    using b(3) by (simp add: kv_Set_def db1_def fresh_kv_def ResetTo_def NewPageMgr_def)
  moreover have "map_of (map_order E (\<lambda>_. None)) = (\<lambda>_. None)" "distinct (map fst (map_order E (\<lambda>_. None)))"
    using assms(1) by (simp_all add: env_ok_def)
  moreover from this have "map_order E (\<lambda>_. None) = []" by (cases "map_order E (\<lambda>_. None)") (auto simp: fun_eq_iff split: if_splits)
  ultimately have "committable E db1"
    using b(2) by (simp add: committable_def db1_def fresh_kv_def flushable_def NewPageMgr_def ResetTo_def mapped_def PageSize_def BTREE_PAGE_SIZE_def)
  then show thesis
    using that [OF b(1) \<open>kv_Set E (fresh_kv mode) k v = updateOrRevert E db1 0 1\<close>]
    by (simp add: db1_def fresh_kv_def ResetTo_def NewPageMgr_def pending_def)
qed

section \<open>What an insertion cannot change\<close>

text \<open>Whatever the page callbacks keep, an insertion keeps.\<close>

locale pager_inv =
  fixes P :: "'s pager" and I :: "'s \<Rightarrow> bool"
  assumes new: "I s \<Longrightarrow> NewPage P s b = Some (p, s') \<Longrightarrow> I s'"
    and del: "I s \<Longrightarrow> DelPage P s p = Some s' \<Longrightarrow> I s'"
begin

lemma nodeReplaceKidN_keeps:
  assumes "nodeReplaceKidN P s new old idx kids = Some (n, s')" "I s"
  shows "I s'"
proof -
  have "nodeReplaceKidN_loop P s new idx kids = Some (n, s') \<Longrightarrow> I s \<Longrightarrow> I s'" for s new idx kids n s'
    by (induction kids arbitrary: s new idx) (auto simp: bind_eq_Some_conv dest: new)
  then show ?thesis using assms by (auto simp: nodeReplaceKidN_def Let_def bind_eq_Some_conv)
qed

lemma Insert_root_loop_keeps:
  "Insert_root_loop P s root i kids = Some (n, s') \<Longrightarrow> I s \<Longrightarrow> I s'"
  by (induction kids arbitrary: s root i) (auto simp: bind_eq_Some_conv dest: new)

lemma treeInsert_keeps:
  assumes "treeInsert P s node key val = Some y" "I s"
  shows "I (snd y)"
proof -
  let ?Q = "\<lambda>((((P', s), node :: bytes), key :: bytes), val :: bytes) y. P' = P \<longrightarrow> I s \<longrightarrow> I (snd y)"
  have "?Q ((((P, s), node), key), val) y"
  proof (rule treeInsert.raw_induct [where Pa = ?Q, OF _ assms(1)])
    fix f :: "'s pager \<Rightarrow> 's \<Rightarrow> bytes \<Rightarrow> bytes \<Rightarrow> bytes \<Rightarrow> (bytes \<times> 's) option" and P' :: "'s pager" and s node key val and y :: "bytes \<times> 's"
    assume IH: "\<And>s node key val b y. f s node key val b = Some y \<Longrightarrow> ?Q ((((s, node), key), val), b) y"
    have kids: "I (snd y)" if "I s" "DelPage P s p = Some s'" "f P s' k key val = Some (k', s1)"
      "nodeReplaceKidN P s1 new node idx split = Some y" for p s' k k' s1 new idx split
      using IH [OF that(3)] del [OF that(1,2)] nodeReplaceKidN_keeps [of s1 new node idx split "fst y" "snd y"] that(4) by simp
    assume "(let new = make_bytes (2 * BTREE_PAGE_SIZE) in nodeLookupLE node key \<bind> (\<lambda>idx. btype node \<bind>
       (\<lambda>t. if t = BNODE_LEAF then treeInsert_leaf new node idx key val \<bind> (\<lambda>new. Some (new, s))
             else if t = BNODE_INTERNAL then getPtr node idx \<bind> (\<lambda>kptr. GetPage P' s kptr \<bind> (\<lambda>knode. DelPage P' s kptr \<bind>
               (\<lambda>s. f P' s knode key val \<bind> (\<lambda>(knode, s). nodeSplit3 knode \<bind> nodeReplaceKidN P' s new node idx))))
             else Some (new, s)))) = Some y"
    then show "?Q ((((P', s), node), key), val) y"
      using kids by (auto simp: Let_def bind_eq_Some_conv split: if_splits)
  qed
  then show ?thesis using assms(2) by simp
qed

lemma Insert_keeps:
  assumes "Insert P s root key val = Some (r, s')" "I s"
  shows "I s'"
proof (cases "root = 0")
  case True
  then show ?thesis using assms by (auto simp: Insert_def bind_eq_Some_conv dest: new)
next
  case False
  then obtain s1 node n2 s2 split where t: "DelPage P s root = Some s1" "treeInsert P s1 node key val = Some (n2, s2)"
    "nodeSplit3 n2 = Some split" and rest: "(if length split > 1 then do {
         root \<leftarrow> setHeader (make_bytes BTREE_PAGE_SIZE) BNODE_INTERNAL (of_nat (length split));
         (root, s) \<leftarrow> Insert_root_loop P s2 root 0 split;
         NewPage P s root
       } else do { n0 \<leftarrow> index split 0; NewPage P s2 n0 }) = Some (r, s')"
    using assms(1) by (auto simp: Insert_def bind_eq_Some_conv)
  have "I s2" using treeInsert_keeps [OF t(2)] del [OF assms(2) t(1)] by simp
  then show ?thesis
    using rest by (auto simp: bind_eq_Some_conv split: if_splits dest: new Insert_root_loop_keeps)
qed

end

text \<open>The file and its mapping change only when a commit flushes.\<close>

definition same_file :: "bytes \<Rightarrow> nat list \<Rightarrow> PageMgr \<Rightarrow> bool" where
  "same_file f cs pm \<longleftrightarrow> db_file pm = f \<and> chunks pm = cs"

lemma same_file_simps [simp]:
  "same_file f cs (pm\<lparr>updates := u\<rparr>) = same_file f cs pm" "same_file f cs (pm\<lparr>temp := t\<rparr>) = same_file f cs pm"
  by (simp_all add: same_file_def)

lemma Write_keeps: "Write pm p = Some (b, pm') \<Longrightarrow> same_file f cs pm \<Longrightarrow> same_file f cs pm'"
  by (auto simp: Write_def bind_eq_Some_conv split: option.splits)

lemma PopHead_keeps: "PopHead free_pager pm fl = Some (p, fl', pm') \<Longrightarrow> same_file f cs pm \<Longrightarrow> same_file f cs pm'"
  by (auto simp: PopHead_def free_pager_def Let_def bind_eq_Some_conv split: if_splits dest: Write_keeps)

lemma PushTail_keeps: "PushTail free_pager pm fl p = Some (fl', pm') \<Longrightarrow> same_file f cs pm \<Longrightarrow> same_file f cs pm'"
  by (auto simp: PushTail_def free_pager_def Alloc_def Let_def bind_eq_Some_conv split: if_splits dest!: Write_keeps [where f = f and cs = cs])

interpretation kvk: pager_inv kv_pager "\<lambda>s. same_file f cs (pg s)" for f cs
proof
  fix s b p s'
  show "same_file f cs (pg s) \<Longrightarrow> NewPage kv_pager s b = Some (p, s') \<Longrightarrow> same_file f cs (pg s')"
    by (auto simp: kv_pager_def kv_NewPage_def Alloc_def bind_eq_Some_conv split: if_splits dest!: PopHead_keeps Write_keeps [where f = f and cs = cs])
next
  fix s p s'
  show "same_file f cs (pg s) \<Longrightarrow> DelPage kv_pager s p = Some s' \<Longrightarrow> same_file f cs (pg s')"
    by (auto simp: kv_pager_def kv_DelPage_def bind_eq_Some_conv dest: PushTail_keeps)
qed

text \<open>A lookup depends on the pages it can read only.\<close>

lemma Get_loop_cong:
  assumes "GetPage P s = GetPage P s'" "Get_loop P s node key = Some y"
  shows "Get_loop P s' node key = Some y"
proof -
  let ?Q = "\<lambda>(((P', t), node), key) y. P' = P \<longrightarrow> t = s \<longrightarrow> Get_loop P s' node key = Some y"
  have "?Q (((P, s), node), key) y"
  proof (rule Get_loop.raw_induct [where Pa = ?Q, OF _ assms(2)])
    fix f :: "'a pager \<Rightarrow> 'a \<Rightarrow> bytes \<Rightarrow> bytes \<Rightarrow> bytes option option" and P' :: "'a pager" and t node key y
    assume IH: "\<And>P' t node key y. f P' t node key = Some y \<Longrightarrow> ?Q (((P', t), node), key) y"
    assume body: "(nodeLookupLE node key \<bind> (\<lambda>idx. btype node \<bind>
      (\<lambda>u. if u = BNODE_LEAF then getKey node idx \<bind> (\<lambda>k. if cmp key k = 0 then getVal node idx \<bind> (\<lambda>v. Some (Some v)) else Some None)
        else if u = BNODE_INTERNAL then getPtr node idx \<bind> (\<lambda>p. GetPage P' t p \<bind> (\<lambda>node. f P' t node key))
        else f P' t node key))) = Some y"
    show "?Q (((P', t), node), key) y"
      using body IH by (subst Get_loop.simps) (auto simp: bind_eq_Some_conv assms(1) split: if_splits)
  qed
  then show ?thesis by simp
qed

lemma Get_cong:
  assumes "GetPage P s = GetPage P s'"
  shows "Get P s root key = Get P s' root key"
proof -
  have "Get_loop P s node key = Get_loop P s' node key" for node
    using Get_loop_cong [OF assms, of node key] Get_loop_cong [OF assms [symmetric], of node key]
    by (cases "Get_loop P s node key"; cases "Get_loop P s' node key") auto
  then show ?thesis using assms by (simp add: Get_def)
qed

lemma FlushPages_mmap_error:
  assumes "FlushPages S ups pm = (n, Some MmapError, pm')"
  shows "pm' = pm"
proof -
  have upd: "FlushPages_updates S f k ups \<noteq> (m, Some MmapError, f')" for f k m f' ups
    by (induction ups arbitrary: f k) (auto simp: Let_def split: prod.splits if_splits)
  show ?thesis
    using assms upd by (auto simp: FlushPages_def Let_def split: if_splits sum.splits prod.splits)
qed

section \<open>Environments for examples\<close>

definition sorted_order :: "(u64 \<Rightarrow> bytes option) \<Rightarrow> (u64 \<times> bytes) list" where
  "sorted_order m = map (\<lambda>p. (p, the (m p))) (sorted_list_of_set (dom m))"

definition ideal_env :: kv_env where
  "ideal_env = \<lparr>disk = ideal_os, open_err = False, stat_err = False, fsync_err = (\<lambda>_. False), map_order = sorted_order\<rparr>"

lemma ideal_env_ok: "env_ok ideal_env"
proof -
  have "map_of (sorted_order m) = m" "distinct (map fst (sorted_order m))" for m
  proof -
    have d: "set (sorted_list_of_set (dom m)) = dom m" "distinct (sorted_list_of_set (dom m))" by simp_all
    show "map_of (sorted_order m) = m"
      by (rule ext) (auto simp: sorted_order_def map_of_map_restrict restrict_map_def dom_def)
    show "distinct (map fst (sorted_order m))" by (simp add: sorted_order_def comp_def)
  qed
  then show ?thesis using ideal_os_ok by (simp add: env_ok_def ideal_env_def)
qed

definition no_mmap_env :: kv_env where
  "no_mmap_env = ideal_env\<lparr>disk := ideal_os\<lparr>mmap_err := (\<lambda>_ _. True)\<rparr>\<rparr>"

definition kv_key :: bytes where "kv_key = replicate 12 107"

section \<open>Properties\<close>



text \<open>The first \<open>Set\<close> on a new database succeeds, the value is there, and after reopening the file exactly that key is
  there.\<close>

theorem first_Set_durable:
  assumes "env_ok E" "usual (k, v)"
  shows "\<exists>db db' db''. Open E [] mode = Some (Inr db) \<and> kv_Set E db k v = Some (None, db') \<and>
    Open E (db_file (pg (st db'))) mode = Some (Inr db'') \<and>
    (\<forall>q. kv_Get db' q = Some (if q = k then Some v else None) \<and> kv_Get db'' q = Some (if q = k then Some v else None))"
proof -
  obtain b db1 where b: "bnode b BNODE_LEAF [(0, k, v)]" "kv_Set E (fresh_kv mode) k v = updateOrRevert E db1 0 1"
    "committable E db1" "Root db1 = 1" "pending (pg (st db1)) 1 = Some b"
    using first_Insert [OF assms] by metis
  obtain db' db'' where c: "updateOrRevert E db1 0 1 = Some (None, db')" "Open E (db_file (pg (st db'))) mode = Some (Inr db'')"
    "Root db' = 1" "Root db'' = 1" "PageRead db' 1 = Some b" "PageRead db'' 1 = Some b"
    using commit_reopen [OF assms(1) b(3), of 0 1 mode] b(4,5) by auto
  have "kv_Get d q = Some (if q = k then Some v else None)" if "PageRead d 1 = Some b" "Root d = 1" for d q
    using Get_single [OF _ b(1), of kv_pager "st d" 1 q] that by (simp add: kv_Get_def PageRead_def kv_pager_def kv_GetPage_def)
  then show ?thesis using Open_empty [OF assms(1), of mode] b(2) c by auto
qed

theorem first_Set_durable_witness:
  "\<exists>db db' db''. Open ideal_env [] 2 = Some (Inr db) \<and> kv_Set ideal_env db kv_key [1] = Some (None, db') \<and>
    Open ideal_env (db_file (pg (st db'))) 2 = Some (Inr db'') \<and> kv_Get db'' kv_key = Some (Some [1])"
proof -
  have "usual (kv_key, [1])" by (simp add: usual_def kv_key_def)
  from first_Set_durable [OF ideal_env_ok this, of 2] show ?thesis by auto
qed

text \<open>C34. Every further \<open>Set\<close> on that database crashes. The tree gives up the old root, the free list allocates its first page
  for it and asks for that page in order to write to it, and the page manager cannot read a page that is not flushed.\<close>

theorem second_Set_faults:
  assumes "env_ok E" "usual (k, v)" "Open E [] mode = Some (Inr db)" "kv_Set E db k v = Some (None, db')"
  shows "kv_Set E db' k' v' = None"
proof -
  obtain b db1 where b: "kv_Set E (fresh_kv mode) k v = updateOrRevert E db1 0 1"
    "committable E db1" "Root db1 = 1" "free_list (st db1) = empty_list" "flushed (pg (st db1)) = 1" "length (temp (pg (st db1))) = 1"
    using first_Insert [OF assms(1,2)] by metis
  have "db = fresh_kv mode" using assms(1,3) Open_empty by simp
  then have r: "updateOrRevert E db1 0 1 = Some (None, db')" using b(1) assms(4) by simp
  obtain d where d: "updateOrRevert E db1 0 1 = Some (None, d)" "Root d = 1" "free_list (st d) = empty_list"
    "flushed (pg (st d)) = 2" "temp (pg (st d)) = []" "updates (pg (st d)) = (\<lambda>_. None)" "mapped (pg (st d))"
    "length (db_file (pg (st d))) \<le> PageSize * 2"
    using commit_reopen [OF assms(1) b(2), of 0 1 mode] b(3-6) by auto
  have "Read_chunks (db_file (pg (st d))) (chunks (pg (st d))) 0 0 2 = None"
    by (rule Read_chunks_beyond) (use d(7,8) in \<open>simp_all add: mapped_def PageSize_def\<close>)
  then have "Write ((pg (st d))\<lparr>temp := t\<rparr>) 2 = None" for t using d(6) by (simp add: Write_def Read_def)
  then have "PushTail free_pager (pg (st d)) empty_list 1 = None"
    using d(4,5) by (auto simp: PushTail_def empty_list_def free_pager_def Alloc_def Let_def split: Option.bind_splits)
  then have "Insert kv_pager (st d) 1 k' v' = None"
    using d(3) by (simp add: Insert_def kv_pager_def kv_DelPage_def split: Option.bind_split)
  then show ?thesis using d(1,2) r by (simp add: kv_Set_def)
qed

theorem second_Set_faults_witness:
  "\<exists>db db'. Open ideal_env [] 2 = Some (Inr db) \<and> kv_Set ideal_env db kv_key [1] = Some (None, db') \<and>
     kv_Set ideal_env db' [9] [9] = None"
proof -
  have u: "usual (kv_key, [1])" by (simp add: usual_def kv_key_def)
  obtain b db1 where b: "kv_Set ideal_env (fresh_kv 2) kv_key [1] = updateOrRevert ideal_env db1 0 1" "committable ideal_env db1"
    using first_Insert [OF ideal_env_ok u] by metis
  obtain db' where c: "kv_Set ideal_env (fresh_kv 2) kv_key [1] = Some (None, db')"
    using commit_reopen [OF ideal_env_ok b(2), of 0 1 0] b(1) by auto
  show ?thesis using second_Set_faults [OF ideal_env_ok u Open_empty [OF ideal_env_ok] c] Open_empty [OF ideal_env_ok] c by blast
qed

text \<open>C12. A \<open>Set\<close> that fails because the file cannot be mapped is undone: the root is the old one, the database is marked as
  failed, and every lookup gives what it gave before.\<close>

theorem failed_Set_undone:
  assumes "\<not> failed db" "updates (pg (st db)) = (\<lambda>_. None)" "kv_Set E db k v = Some (Some (Flush MmapError), db')"
  shows "Root db' = Root db \<and> failed db' \<and> temp (pg (st db')) = [] \<and> (\<forall>q. kv_Get db' q = kv_Get db q)"
proof -
  obtain r s where i: "Insert kv_pager (st db) (Root db) k v = Some (r, s)"
    "updateOrRevert E (db\<lparr>Root := r, st := s\<rparr>) (Root db) (flushed (pg (st db))) = Some (Some (Flush MmapError), db')"
    using assms(3) by (auto simp: kv_Set_def Let_def bind_eq_Some_conv)
  obtain n err pm where f: "FlushPages (disk E) (map_order E (updates (pg s))) (pg s) = (n, err, pm)" by (metis prod_cases3)
  have "fst (last_sync E x) \<noteq> Some (Flush MmapError)" for x by (simp add: last_sync_def)
  then have "last_sync E x \<noteq> (Some (Flush MmapError), y)" for x y by (metis fst_conv)
  then have db': "err = Some MmapError"
    "db' = (rollback (db\<lparr>Root := r, st := s\<lparr>pg := pm\<rparr>\<rparr>) (Root db) (flushed (pg (st db))))\<lparr>failed := True\<rparr>"
    using i(2) assms(1) f
    by (auto simp: updateOrRevert_def recover_meta_def Let_def bind_eq_Some_conv case_prod_beta split: option.splits if_splits)
  have "pm = pg s" using f db'(1) FlushPages_mmap_error by blast
  moreover have "same_file (db_file (pg (st db))) (chunks (pg (st db))) (pg s)"
    using kvk.Insert_keeps [OF i(1)] by (simp add: same_file_def)
  ultimately have "Read (pg (st db')) p = Read (pg (st db)) p" for p
    using db'(2) assms(2) by (simp add: same_file_def rollback_def Let_def Read_def ClearUpdates_def ResetTo_def)
  then have "GetPage kv_pager (st db') = GetPage kv_pager (st db)" by (auto simp: kv_pager_def kv_GetPage_def)
  then show ?thesis
    using db'(2) Get_cong [of kv_pager "st db'" "st db"]
    by (simp add: kv_Get_def rollback_def Let_def ClearUpdates_def ResetTo_def)
qed

theorem failed_Set_undone_witness:
  "\<exists>db'. kv_Set no_mmap_env (fresh_kv 1) kv_key [1] = Some (Some (Flush MmapError), db') \<and>
     kv_Get db' kv_key = kv_Get (fresh_kv 1) kv_key"
proof -
  have "usual (kv_key, [1])" by (simp add: usual_def kv_key_def)
  then obtain b where b: "length b = BTREE_PAGE_SIZE"
    "Insert kv_pager (st (fresh_kv 1)) 0 kv_key [1] = NewPage kv_pager (st (fresh_kv 1)) b"
    using Insert_empty by metis
  have "sint (2 * of_nat PageSize :: u64) = 8192" by (simp add: PageSize_def)
  then obtain db' where "kv_Set no_mmap_env (fresh_kv 1) kv_key [1] = Some (Some (Flush MmapError), db')"
    using b by (simp add: kv_Set_def fresh_kv_def kv_pager_def kv_NewPage_def PopHead_def empty_list_def Alloc_def
        NewPageMgr_def ResetTo_def updateOrRevert_def recover_meta_def FlushPages_def ExtendMMap_def no_mmap_env_def Let_def)
  moreover from failed_Set_undone [OF _ _ this] have "kv_Get db' kv_key = kv_Get (fresh_kv 1) kv_key"
    by (simp add: fresh_kv_def ResetTo_def)
  ultimately show ?thesis by blast
qed

text \<open>Opening a file whose meta page has one altered byte is refused.\<close>

theorem Open_refuses_altered:
  assumes "env_ok E" "PageSize \<le> length f" "length f < 2 ^ 60" "WriteMetaFull (replicate PageSize 0) m = Some p"
    "i < PageSize" "b \<noteq> p ! i" "file_page f 0 = p[i := b]"
  shows "Open E f mode = Some (Inl NotValidFile)"
proof -
  have new: "mapped (NewPageMgr f)" "db_file (NewPageMgr f) = f" "updates (NewPageMgr f) = (\<lambda>_. None)"
    "mmap_total (NewPageMgr f) < 2 ^ 61" by (simp_all add: NewPageMgr_def mapped_def)
  obtain pm where pm: "ExtendMMap (disk E) (NewPageMgr f) (int (length f)) = Inr pm" "mapped pm" "length f \<le> mmap_total pm"
    "db_file pm = f" "updates pm = (\<lambda>_. None)"
    using ExtendMMap_ok [of "disk E" "NewPageMgr f" "length f"] assms(1,3) new by (auto simp: env_ok_def os_ok_def)
  have "sealed p m" using WriteMetaFull_sealed [of "replicate PageSize 0" m] assms(4) by (simp add: page_offsets)
  then have "ReadMetaSafe (p[i := b]) = Some (zero_meta, False)" using sealed_altered [of p m i b] assms(5,6) by (simp add: page_offsets)
  moreover have "Read pm 0 = Some (file_page f 0)" using Read_mapped [of pm 0] pm assms(2) by simp
  moreover have "length f \<noteq> 0" using assms(2) PageSize_pos by linarith
  ultimately show ?thesis using pm(1) assms(1,7) by (simp add: Open_def env_ok_def Let_def)
qed

theorem Open_refuses_altered_witness:
  "\<exists>p. WriteMetaFull (replicate PageSize 0) zero_meta = Some p \<and> Open ideal_env (p[20 := p ! 20 + 1]) 1 = Some (Inl NotValidFile)"
proof -
  obtain p where p: "WriteMetaFull (replicate PageSize 0) zero_meta = Some p" "length p = PageSize"
    using WriteMetaFull_sealed [of "replicate PageSize 0" zero_meta] by (auto simp: page_offsets sealed_def)
  have "Open ideal_env (p[20 := p ! 20 + 1]) 1 = Some (Inl NotValidFile)"
    by (rule Open_refuses_altered [OF ideal_env_ok _ _ p(1), of _ 20 "p ! 20 + 1"])
      (use p(2) in \<open>simp_all add: file_page_def window_def page_offsets\<close>)
  then show ?thesis using p(1) by blast
qed

section \<open>Free list and overflow chains\<close>

text \<open>C30. Over the page manager the free list is a queue while it stays on its page: for at most 510 pushes and 63 pops
  altogether, in any order that never pops an empty queue, the pops return the pushed pointers first in, first out.\<close>

theorem free_list_queue:
  assumes "one_page (page_view pm) fl qs" "q_run qs cs = Some (ps, qs')"
    "unat (TailSeq fl) + pushes cs \<le> 510" "unat (HeadSeq fl) + pops cs \<le> 63"
  shows "\<exists>fl' pm'. fl_run free_pager pm fl cs = Some (ps, fl', pm') \<and> one_page (page_view pm') fl' qs'"
  using kvf.fl_run_queue [OF TrueI assms] by blast

definition list_page :: "u64 list \<Rightarrow> bytes" where
  "list_page qs = le_bytes 8 (0 :: u64) @ concat (map (le_bytes 8) qs) @ replicate (4088 - 8 * length qs) 0"

definition list_pm :: "u64 list \<Rightarrow> PageMgr" where
  "list_pm qs = (NewPageMgr [])\<lparr>updates := [3 \<mapsto> list_page qs]\<rparr>"

definition list_fl :: "u64 list \<Rightarrow> u64 \<Rightarrow> FreeList" where
  "list_fl qs h = \<lparr>HeadPage = 3, HeadSeq = h, TailPage = 3, TailSeq = of_nat (length qs), maxSeq = 0\<rparr>"

lemma length_concat_le_bytes: "length (concat (map (le_bytes 8) (qs :: u64 list))) = 8 * length qs"
  by (induction qs) simp_all

lemma slots_concat:
  "j = length qs \<Longrightarrow> length pre = 8 + 8 * k \<Longrightarrow>
   slots (pre @ concat (map (le_bytes 8) qs) @ post) k (k + j) = (qs :: u64 list)"
proof (induction qs arbitrary: pre k j)
  case Nil
  then show ?case by (simp add: slots_def)
next
  case (Cons q qs)
  have "slots (pre @ concat (map (le_bytes 8) (q # qs)) @ post) k (k + j) =
      q # slots ((pre @ le_bytes 8 q) @ concat (map (le_bytes 8) qs) @ post) (Suc k) (Suc k + length qs)"
    using Cons.prems slots_Cons [of k "k + j"] by (simp add: window_def)
  then show ?case using Cons.IH [of "length qs" "pre @ le_bytes 8 q" "Suc k"] Cons.prems by simp
qed

lemma list_page_one:
  assumes "length qs \<le> 510" "unat h \<le> length qs"
  shows "one_page (page_view (list_pm qs)) (list_fl qs h) (drop (unat h) qs)" "getNext (list_page qs) = Some 0"
    "page_view (list_pm qs) 3 = Some (list_page qs)"
proof -
  have len: "length (list_page qs) = BTREE_PAGE_SIZE"
    using assms(1) by (simp add: list_page_def length_concat_le_bytes BTREE_PAGE_SIZE_def)
  then show v: "page_view (list_pm qs) 3 = Some (list_page qs)" by (simp add: page_view_Some list_pm_def Read_def)
  have "slots (list_page qs) 0 (length qs) = qs"
    using slots_concat [of "length qs" qs "le_bytes 8 (0 :: u64)" 0] by (simp add: list_page_def)
  moreover have "slots b i n = drop i (slots b 0 n)" for b i n by (simp add: slots_def drop_map)
  ultimately have "slots (list_page qs) (unat h) (length qs) = drop (unat h) qs" by metis
  moreover have "unat (of_nat (length qs) :: u64) = length qs" using assms(1) by (intro unat_of_nat_u64) simp
  ultimately show "one_page (page_view (list_pm qs)) (list_fl qs h) (drop (unat h) qs)"
    using v len assms by (simp add: one_page_def list_fl_def)
  show "getNext (list_page qs) = Some 0" using getNext_page [OF len] by (simp add: list_page_def)
qed

theorem free_list_queue_witness:
  "\<exists>fl' pm'. fl_run free_pager (list_pm [7, 8]) (list_fl [7, 8] 0) [Pop, Push 9, Pop, Pop] = Some ([7, 8, 9], fl', pm')"
proof -
  have "one_page (page_view (list_pm [7, 8])) (list_fl [7, 8] 0) [7, 8]" using list_page_one(1) [of "[7, 8]" 0] by simp
  from free_list_queue [OF this, of "[Pop, Push 9, Pop, Pop]" "[7, 8, 9]" "[]"] show ?thesis
    by (auto simp: pushes_def pops_def list_fl_def)
qed

text \<open>A page of the free list is filled with 511 pointers and left after 64 of them: when the 64th pop finds no next page,
  the list is empty from then on, and the pointers still on the page are never returned.\<close>

theorem free_list_abandons:
  assumes "one_page (page_view pm) fl (q # qs)" "unat (HeadSeq fl) = 63" "page_view pm (HeadPage fl) = Some b"
    "getNext b = Some 0"
  shows "\<exists>fl' pm'. PopHead free_pager pm fl = Some (q, fl', pm') \<and> PopHead free_pager pm' fl' = Some (0, fl', pm')"
  using kvf.PopHead_abandons [OF TrueI assms] by blast

theorem free_list_abandons_witness:
  "\<exists>fl' pm'. PopHead free_pager (list_pm (replicate 100 5)) (list_fl (replicate 100 5) 63) = Some (5, fl', pm') \<and>
     PopHead free_pager pm' fl' = Some (0, fl', pm')"
proof -
  let ?qs = "replicate 100 (5 :: u64)"
  note l = list_page_one [of ?qs 63]
  have "drop (unat (63 :: u64)) ?qs = 5 # replicate 36 5" using replicate_Suc [of 36 "5 :: u64"] by simp
  then have "one_page (page_view (list_pm ?qs)) (list_fl ?qs 63) (5 # replicate 36 5)" using l(1) by simp
  from free_list_abandons [OF this, of "list_page ?qs"] show ?thesis using l(2,3) by (simp add: list_fl_def)
qed

text \<open>C31. A value of any length that needs no more pages than the free list can give is stored as an overflow chain of exactly
  \<open>overflowSize\<close> pages and read back unchanged; freeing the chain gives all of them up again.\<close>

theorem overflow_roundtrip:
  assumes "kv_ok s" "overflowSize data \<le> kv_cap s"
  shows "\<exists>p s'. allocOverflow kv_ovfl s data = Some (p, s') \<and> kv_ok s' \<and> readOverflow kv_ovfl s' p = Some data \<and>
    kv_cap s = kv_cap s' + overflowSize data \<and>
    (overflowSize data \<le> kv_room s' \<longrightarrow> (\<exists>s''. freeOverflow kv_ovfl s' p = Some s'' \<and> kv_live s'' = kv_live s))"
proof -
  obtain ps cs s' where a: "allocOverflow kv_ovfl s data = Some (first_ptr ps, s')" "kv_ok s'" "linked (kv_live s') ps cs"
    "concat cs = data" "distinct ps" "\<forall>q. q \<notin> set ps \<longrightarrow> kv_live s' q = kv_live s q" "\<forall>q \<in> set ps. kv_live s q = None"
    "kv_cap s = kv_cap s' + length ps" "length ps = overflowSize data"
    by (rule kvo.allocOverflow_correct [OF assms])
  have "readOverflow kv_ovfl s' (first_ptr ps) = Some data"
    using kvo.readOverflow_loop_correct [OF a(2,3), of "[]"] a(4) by (simp add: readOverflow_def)
  moreover have "\<exists>s''. freeOverflow kv_ovfl s' (first_ptr ps) = Some s'' \<and> kv_live s'' = kv_live s" if room: "overflowSize data \<le> kv_room s'"
  proof -
    obtain s'' where "freeOverflow kv_ovfl s' (first_ptr ps) = Some s''" "kv_live s'' = (\<lambda>q. if q \<in> set ps then None else kv_live s' q)"
      using kvo.freeOverflow_correct [OF a(2,3,5)] room a(9) by auto
    then show ?thesis using a(6,7) by (auto simp: fun_eq_iff)
  qed
  ultimately show ?thesis using a(1,2,8,9) by auto
qed

definition recycled :: kv_store where
  "recycled = \<lparr>free_list = list_fl [5, 6] 0,
     pg = (list_pm [5, 6])\<lparr>updates := [3 \<mapsto> list_page [5, 6], 5 \<mapsto> replicate 4096 0, 6 \<mapsto> replicate 4096 0]\<rparr>\<rparr>"

theorem overflow_roundtrip_witness:
  "\<exists>p s'. allocOverflow kv_ovfl recycled (replicate 5000 1) = Some (p, s') \<and>
     readOverflow kv_ovfl s' p = Some (replicate 5000 1)"
proof -
  have len: "length (list_page [5, 6]) = BTREE_PAGE_SIZE" by (simp add: list_page_def BTREE_PAGE_SIZE_def)
  have v: "page_view (pg recycled) 3 = Some (list_page [5, 6])" "page_view (pg recycled) 5 \<noteq> None" "page_view (pg recycled) 6 \<noteq> None"
    using len by (simp_all add: page_view_Some recycled_def Read_def page_view_def BTREE_PAGE_SIZE_def)
  have sl: "slots (list_page [5, 6]) 0 2 = [5, 6]"
    using slots_concat [of 2 "[5, 6]" "le_bytes 8 (0 :: u64)" 0] by (simp add: list_page_def)
  then have one: "one_page (page_view (pg recycled)) (free_list recycled) [5, 6]"
    using v(1) len by (simp add: one_page_def recycled_def list_fl_def)
  then have it: "items recycled = [5, 6]" by (rule one_page_items)
  have "kv_ok recycled" using one it v(2,3) by (simp add: kv_ok_def) (simp add: recycled_def list_fl_def)
  moreover have "overflowSize (replicate 5000 1) \<le> kv_cap recycled"
    using it by (simp add: kv_cap_def overflowSize_def overflowSize_loop_eq maxChunk_eq) (simp add: recycled_def list_fl_def)
  ultimately show ?thesis using overflow_roundtrip [of recycled "replicate 5000 1"] by blast
qed

end
