(* ===== verification/SqlParser.thy ===== *)
theory SqlParser
  imports Prelude
begin

text \<open>
  The syntax of \<^verbatim>\<open>internal/sql/ast.go\<close> and the parser of \<^verbatim>\<open>internal/sql/parser.go\<close>. The parser's state is the input that
  is left; a byte is a \<open>char\<close>. The functions for expressions call each other through loops that the input bounds only
  indirectly, so they take fuel; \<open>Parse\<close> gives them an amount that is always enough (\<open>pExpr_enough\<close>). An error that the
  source drops (the result of most calls of \<open>pExpect\<close>) is dropped here too.
\<close>

definition QLUnknown :: nat where "QLUnknown = 0"
definition QLIdent :: nat where "QLIdent = 1"
definition QLI64 :: nat where "QLI64 = 2"
definition QLStr :: nat where "QLStr = 3"
definition QLAdd :: nat where "QLAdd = 4"
definition QLSub :: nat where "QLSub = 5"
definition QLMul :: nat where "QLMul = 6"
definition QLDiv :: nat where "QLDiv = 7"
definition QLMod :: nat where "QLMod = 8"
definition QLAnd :: nat where "QLAnd = 9"
definition QLOr :: nat where "QLOr = 10"
definition QLNot :: nat where "QLNot = 11"
definition QLLT :: nat where "QLLT = 12"
definition QLLE :: nat where "QLLE = 13"
definition QLGT :: nat where "QLGT = 14"
definition QLGE :: nat where "QLGE = 15"
definition QLEQ :: nat where "QLEQ = 16"
definition QLNE :: nat where "QLNE = 17"
definition QLLike :: nat where "QLLike = 18"
definition QLFunc :: nat where "QLFunc = 19"

lemmas QL_defs = QLUnknown_def QLIdent_def QLI64_def QLStr_def QLAdd_def QLSub_def QLMul_def QLDiv_def QLMod_def
  QLAnd_def QLOr_def QLNot_def QLLT_def QLLE_def QLGT_def QLGE_def QLEQ_def QLNE_def QLLike_def QLFunc_def

text \<open>The field \<open>Cmp\<close> of a node is never used.\<close>

datatype QLNode = QLNode (q_Type: nat) (q_I64: u64) (q_Str: string) (q_Kids: "QLNode list")

abbreviation no_node :: QLNode where
  "no_node \<equiv> QLNode QLUnknown 0 [] []"

abbreviation binary :: "nat \<Rightarrow> QLNode \<Rightarrow> QLNode \<Rightarrow> QLNode" where
  "binary op left right \<equiv> QLNode op 0 [] [left, right]"

text \<open>No statement sets the fields \<open>GroupBy\<close> and \<open>OrderBy\<close> of a scan, and nothing reads them.\<close>

record QLScan =
  scan_Table :: string
  Key1 :: QLNode
  Key2 :: QLNode
  Filter :: QLNode
  Offset :: u64
  Limit :: u64

record QLSelect =
  sel_Scan :: QLScan
  sel_Names :: "string list"
  Output :: "QLNode list"

record QLInsert =
  ins_Table :: string
  ins_Names :: "string list"
  ins_Values :: "QLNode list"

record QLUpdate =
  upd_Scan :: QLScan
  upd_Names :: "string list"
  upd_Values :: "QLNode list"

record QLDelete =
  del_Scan :: QLScan

record ColSpec =
  spec_Name :: string
  spec_Type :: nat

record QLCreateTable =
  ct_Table :: string
  ct_Cols :: "ColSpec list"
  ct_PKeys :: "string list"

record QLCreateIndex =
  ci_Table :: string
  ci_Name :: string
  ci_Keys :: "string list"
  ci_Unique :: bool

text \<open>What \<open>pStmt\<close> returns; the text of \<open>EXPLAIN\<close> is the printed statement.\<close>

datatype stmt =
  SCreateTable QLCreateTable | SCreateIndex QLCreateIndex | SSelect QLSelect | SInsert QLInsert | SUpdate QLUpdate
  | SDelete QLDelete | SExplain QLSelect | SText string | SUnknown string

section \<open>Words\<close>

abbreviation code :: "char \<Rightarrow> nat" where
  "code c \<equiv> of_char c"

definition is_ws :: "char \<Rightarrow> bool" where
  "is_ws c \<longleftrightarrow> c = CHR '' '' \<or> c = CHR 0x09 \<or> c = CHR 0x0A \<or> c = CHR 0x0D"

definition skipWS :: "string \<Rightarrow> string" where
  "skipWS inp = dropWhile is_ws inp"

function skip_comments :: "string \<Rightarrow> string" where
  "skip_comments inp =
     (if 1 < length inp \<and> inp ! 0 = CHR ''-'' \<and> inp ! 1 = CHR ''-''
      then skip_comments (skipWS (dropWhile (\<lambda>c. c \<noteq> CHR 0x0A) inp)) else inp)"
  by pat_completeness auto
termination
proof (relation "measure length")
  fix inp :: string
  assume a: "1 < length inp \<and> inp ! 0 = CHR ''-'' \<and> inp ! 1 = CHR ''-''"
  then obtain xs where "inp = CHR ''-'' # xs" by (cases inp) auto
  then have "length (dropWhile (\<lambda>c. c \<noteq> CHR 0x0A) inp) < length inp" by (simp add: le_imp_less_Suc length_dropWhile_le)
  then show "(skipWS (dropWhile (\<lambda>c. c \<noteq> CHR 0x0A) inp), inp) \<in> measure length"
    by (simp add: skipWS_def le_less_trans [OF length_dropWhile_le])
qed simp

declare skip_comments.simps [simp del]

definition skipComments :: "string \<Rightarrow> string" where
  "skipComments inp = skip_comments (skipWS inp)"

definition lower :: "char \<Rightarrow> char" where
  "lower c = (if 65 \<le> code c \<and> code c \<le> 90 then char_of (code c + 32) else c)"

fun match_word :: "string \<Rightarrow> string \<Rightarrow> string option" where
  "match_word [] inp = Some inp"
| "match_word (c # cs) [] = None"
| "match_word (c # cs) (b # inp) = (if lower b = c then match_word cs inp else None)"

fun match_words :: "string list \<Rightarrow> string \<Rightarrow> string option" where
  "match_words [] inp = Some inp"
| "match_words (kw # kws) inp = do { inp \<leftarrow> match_word kw (skipWS inp); match_words kws inp }"

text \<open>The input after the keywords, or \<open>None\<close> where the source restores the position and returns false.\<close>

definition pKeyword :: "string \<Rightarrow> string list \<Rightarrow> string option" where
  "pKeyword inp kws = match_words kws (skipComments inp)"

definition pExpect :: "string \<Rightarrow> string \<Rightarrow> bool \<times> string" where
  "pExpect inp kw = (case pKeyword inp [kw] of Some inp \<Rightarrow> (True, inp) | None \<Rightarrow> (False, inp))"

definition is_sym :: "char \<Rightarrow> bool" where
  "is_sym c \<longleftrightarrow> 97 \<le> code c \<and> code c \<le> 122 \<or> 65 \<le> code c \<and> code c \<le> 90 \<or> 48 \<le> code c \<and> code c \<le> 57 \<or>
     c = CHR ''_'' \<or> c = CHR ''@''"

definition pMustSym :: "string \<Rightarrow> string \<times> string" where
  "pMustSym inp = (let inp = skipComments inp in (takeWhile is_sym inp, dropWhile is_sym inp))"

definition is_digit :: "char \<Rightarrow> bool" where
  "is_digit c \<longleftrightarrow> 48 \<le> code c \<and> code c \<le> 57"

text \<open>\<^verbatim>\<open>strconv.ParseInt\<close> on decimal digits: out of range it gives the nearest 64-bit integer, and the error is dropped.\<close>

definition digits_val :: "string \<Rightarrow> nat" where
  "digits_val ds = foldl (\<lambda>n c. 10 * n + (code c - 48)) 0 ds"

definition ParseInt :: "bool \<Rightarrow> string \<Rightarrow> u64" where
  "ParseInt neg ds =
     (let n = (if neg then - int (digits_val ds) else int (digits_val ds))
      in word_of_int (max (- (2 ^ 63)) (min (2 ^ 63 - 1) n)))"

definition pNum :: "string \<Rightarrow> u64 option \<times> string" where
  "pNum inp =
     (let inp = skipComments inp;
          (neg, ds) = (case inp of c # cs \<Rightarrow> if c = CHR ''-'' then (True, cs) else (False, inp) | [] \<Rightarrow> (False, []))
      in if takeWhile is_digit ds = [] then (None, inp)
         else (Some (ParseInt neg (takeWhile is_digit ds)), dropWhile is_digit ds))"

fun str_body :: "char \<Rightarrow> string \<Rightarrow> (string \<times> string) option" where
  "str_body quote [] = None"
| "str_body quote (b # inp) =
     (if b = quote then Some ([], inp)
      else if b = CHR 0x5C then
        (case inp of
           [] \<Rightarrow> None
         | c # inp \<Rightarrow> map_option (\<lambda>(out, r). (c # out, r)) (str_body quote inp))
      else map_option (\<lambda>(out, r). (b # out, r)) (str_body quote inp))"

text \<open>A string that is not closed takes the rest of the input with it.\<close>

definition pStr :: "string \<Rightarrow> string option \<times> string" where
  "pStr inp =
     (let inp = skipComments inp in
      case inp of
        quote # cs \<Rightarrow>
          if quote = CHR 0x27 \<or> quote = CHR 0x22 then
            (case str_body quote cs of Some (s, r) \<Rightarrow> (Some s, r) | None \<Rightarrow> (None, []))
          else (None, inp)
      | [] \<Rightarrow> (None, []))"

definition rest_text :: "string \<Rightarrow> string" where
  "rest_text inp = (if inp = [] then ''<EOF>'' else if 30 < length inp then take 30 inp @ ''...'' else inp)"

section \<open>Expressions\<close>

text \<open>A switch over keywords: the first alternative that matches.\<close>

fun first_kw :: "string \<Rightarrow> (string \<times> 'a) list \<Rightarrow> ('a \<times> string) option" where
  "first_kw inp [] = None"
| "first_kw inp ((kw, x) # alts) = (case pKeyword inp [kw] of Some r \<Rightarrow> Some (x, r) | None \<Rightarrow> first_kw inp alts)"

definition pCmpOp :: "string \<Rightarrow> (nat \<times> string) option" where
  "pCmpOp inp = first_kw inp
     [(''<='', QLLE), (''>='', QLGE), (''!='', QLNE), (''<>'', QLNE), (''='', QLEQ), (''=='', QLEQ), (''<'', QLLT), (''>'', QLGT),
      (''like'', QLLike)]"

definition pAddOp :: "string \<Rightarrow> (nat \<times> string) option" where
  "pAddOp inp = first_kw inp [(''+'', QLAdd), (''-'', QLSub)]"

definition pMulOp :: "string \<Rightarrow> (nat \<times> string) option" where
  "pMulOp inp = first_kw inp [(''*'', QLMul), (''/'', QLDiv), (''%'', QLMod)]"

definition pAndOp :: "string \<Rightarrow> (nat \<times> string) option" where
  "pAndOp inp = first_kw inp [(''and'', QLAnd)]"

definition pOrOp :: "string \<Rightarrow> (nat \<times> string) option" where
  "pOrOp inp = first_kw inp [(''or'', QLOr)]"

lemmas op_defs = pMulOp_def pAddOp_def pCmpOp_def pAndOp_def pOrOp_def

text \<open>
  The functions for expressions, over the parser \<open>atom\<close> of the operands; the number is the fuel of their loops. Only
  \<open>pExprAtom\<close> recurses, on smaller fuel.
\<close>

type_synonym expr_parser = "string \<Rightarrow> (QLNode \<times> string) option"

text \<open>The loop of the binary operators of one precedence: an operator, and an operand on its right.\<close>

fun chain :: "(string \<Rightarrow> (nat \<times> string) option) \<Rightarrow> expr_parser \<Rightarrow> nat \<Rightarrow> QLNode \<Rightarrow> expr_parser" where
  "chain operator operand 0 left inp = None"
| "chain operator operand (Suc n) left inp =
     (case operator inp of
        None \<Rightarrow> Some (left, inp)
      | Some (op, inp) \<Rightarrow> do { (right, inp) \<leftarrow> operand inp; chain operator operand n (binary op left right) inp })"

definition pExprMul :: "expr_parser \<Rightarrow> nat \<Rightarrow> expr_parser" where
  "pExprMul atom n inp = do { (left, inp) \<leftarrow> atom inp; chain pMulOp atom n left inp }"

definition pExprAdd :: "expr_parser \<Rightarrow> nat \<Rightarrow> expr_parser" where
  "pExprAdd atom n inp = do { (left, inp) \<leftarrow> pExprMul atom n inp; chain pAddOp (pExprMul atom n) n left inp }"

definition pExprCmp :: "expr_parser \<Rightarrow> nat \<Rightarrow> expr_parser" where
  "pExprCmp atom n inp = do {
     (left, inp) \<leftarrow> pExprAdd atom n inp;
     (case pCmpOp inp of
        None \<Rightarrow> Some (left, inp)
      | Some (op, inp) \<Rightarrow> do { (right, inp) \<leftarrow> pExprAdd atom n inp; Some (binary op left right, inp) })
   }"

definition pExprAnd :: "expr_parser \<Rightarrow> nat \<Rightarrow> expr_parser" where
  "pExprAnd atom n inp = do { (left, inp) \<leftarrow> pExprCmp atom n inp; chain pAndOp (pExprCmp atom n) n left inp }"

definition pExprOr :: "expr_parser \<Rightarrow> nat \<Rightarrow> expr_parser" where
  "pExprOr atom n inp = do { (left, inp) \<leftarrow> pExprAnd atom n inp; chain pOrOp (pExprAnd atom n) n left inp }"

text \<open>Expressions separated by commas.\<close>

fun pArgs :: "expr_parser \<Rightarrow> nat \<Rightarrow> string \<Rightarrow> (QLNode list \<times> string) option" where
  "pArgs expr 0 inp = None"
| "pArgs expr (Suc n) inp = do {
     (e, inp) \<leftarrow> expr inp;
     (case pKeyword inp ['',''] of
        Some inp \<Rightarrow> do { (es, inp) \<leftarrow> pArgs expr n inp; Some (e # es, inp) }
      | None \<Rightarrow> Some ([e], inp))
   }"

text \<open>A name, or the call of a function; nothing at all gives the empty node.\<close>

definition pName :: "expr_parser \<Rightarrow> nat \<Rightarrow> expr_parser" where
  "pName expr n inp =
     (let (name, inp) = pMustSym inp in
      if name \<noteq> [] then
        (case pKeyword inp [''(''] of
           Some inp \<Rightarrow>
             (case pKeyword inp ['')''] of
                Some inp \<Rightarrow> Some (QLNode QLFunc 0 (map lower name) [], inp)
              | None \<Rightarrow> do {
                  (kids, inp) \<leftarrow> pArgs expr n inp;
                  Some (QLNode QLFunc 0 (map lower name) kids, snd (pExpect inp '')''))
                })
         | None \<Rightarrow> Some (QLNode QLIdent 0 name [], inp))
      else Some (no_node, inp))"

primrec pExprAtom :: "nat \<Rightarrow> expr_parser" where
  "pExprAtom 0 = (\<lambda>inp. None)"
| "pExprAtom (Suc n) = (\<lambda>inp.
     case pKeyword inp [''not''] of
       Some inp \<Rightarrow> do { (e, inp) \<leftarrow> pExprAtom n inp; Some (QLNode QLNot 0 [] [e], inp) }
     | None \<Rightarrow>
       (case pKeyword inp [''(''] of
          Some inp \<Rightarrow> do { (e, inp) \<leftarrow> pExprOr (pExprAtom n) n inp; Some (e, snd (pExpect inp '')'')) }
        | None \<Rightarrow>
          (case pNum inp of
             (Some i, inp) \<Rightarrow> Some (QLNode QLI64 i [] [], inp)
           | (None, inp) \<Rightarrow>
             (case pStr inp of
                (Some s, inp) \<Rightarrow> Some (QLNode QLStr 0 s [], inp)
              | (None, inp) \<Rightarrow> pName (pExprOr (pExprAtom n) n) n inp))))"

text \<open>The parser of an expression with enough fuel for its input.\<close>

definition parse_or :: expr_parser where
  "parse_or inp = pExprOr (pExprAtom (Suc (length inp))) (Suc (length inp)) inp"

definition parse_cmp :: expr_parser where
  "parse_cmp inp = pExprCmp (pExprAtom (Suc (length inp))) (Suc (length inp)) inp"

section \<open>Statements\<close>

text \<open>Names separated by commas; each round takes at least the comma.\<close>

lemma skip_comments_length: "length (skip_comments inp) \<le> length inp"
proof (induction inp rule: skip_comments.induct)
  case (1 inp)
  show ?case
  proof (cases "1 < length inp \<and> inp ! 0 = CHR ''-'' \<and> inp ! 1 = CHR ''-''")
    case True
    have "length (skipWS (dropWhile (\<lambda>c. c \<noteq> CHR 0x0A) inp)) \<le> length inp"
      unfolding skipWS_def by (meson length_dropWhile_le order_trans)
    then show ?thesis using 1 [OF True] True by (subst skip_comments.simps) simp
  next
    case False
    then have "skip_comments inp = inp" by (subst skip_comments.simps) (simp only: if_False)
    then show ?thesis by simp
  qed
qed

lemma skipComments_length: "length (skipComments inp) \<le> length inp"
  unfolding skipComments_def skipWS_def by (meson skip_comments_length length_dropWhile_le order_trans)

lemma match_word_length: "match_word kw inp = Some r \<Longrightarrow> length r + length kw = length inp"
  by (induction kw inp rule: match_word.induct) (auto split: if_splits)

lemma match_words_length: "match_words kws inp = Some r \<Longrightarrow> length r + length (concat kws) \<le> length inp"
proof (induction kws arbitrary: inp)
  case (Cons kw kws)
  then obtain x where "match_word kw (skipWS inp) = Some x" "match_words kws x = Some r" by (auto simp: bind_eq_Some_conv)
  then show ?case using Cons.IH match_word_length [of kw "skipWS inp" x] length_dropWhile_le [of is_ws inp]
    by (fastforce simp: skipWS_def)
qed simp

lemma pKeyword_length: "pKeyword inp kws = Some r \<Longrightarrow> length r + length (concat kws) \<le> length inp"
  unfolding pKeyword_def using match_words_length skipComments_length le_trans by blast

lemma pExpect_length: "length (snd (pExpect inp kw)) \<le> length inp"
  using pKeyword_length [of inp "[kw]"] by (auto simp: pExpect_def split: option.split)

lemma pMustSym_length: "length (snd (pMustSym inp)) \<le> length inp"
  unfolding pMustSym_def Let_def snd_conv by (meson length_dropWhile_le skipComments_length order_trans)

function sym_list :: "string \<Rightarrow> string list \<times> string" where
  "sym_list inp =
     (case pKeyword (snd (pMustSym inp)) ['',''] of
        Some r \<Rightarrow> (let (xs, r) = sym_list r in (fst (pMustSym inp) # xs, r))
      | None \<Rightarrow> ([fst (pMustSym inp)], snd (pMustSym inp)))"
  by pat_completeness auto
termination
proof (relation "measure length")
  fix inp r
  assume "pKeyword (snd (pMustSym inp)) ['',''] = Some r"
  then show "(r, inp) \<in> measure length" using pKeyword_length [of "snd (pMustSym inp)"] pMustSym_length [of inp] by fastforce
qed simp

declare sym_list.simps [simp del]

definition pType :: "string \<Rightarrow> nat \<times> string" where
  "pType inp =
     (case first_kw inp [(''int64'', QLI64), (''int'', QLI64), (''bytes'', QLStr), (''text'', QLStr), (''string'', QLStr),
        (''bool'', QLAnd), (''float64'', 999), (''float'', 999)] of
        Some r \<Rightarrow> r
      | None \<Rightarrow> (0, inp))"

lemma first_kw_length:
  "first_kw inp alts = Some (x, r) \<Longrightarrow> \<forall>a \<in> set alts. fst a \<noteq> [] \<Longrightarrow> length r < length inp"
proof (induction alts)
  case (Cons a alts)
  obtain kw y where a: "a = (kw, y)" by (cases a)
  show ?case
  proof (cases "pKeyword inp [kw]")
    case (Some z)
    then show ?thesis using Cons.prems a pKeyword_length [OF Some] by (cases kw) auto
  next
    case None
    then show ?thesis using Cons a by simp
  qed
qed simp

lemma pType_length: "length (snd (pType inp)) \<le> length inp"
  by (auto simp: pType_def split: option.split dest!: first_kw_length simp del: first_kw.simps)

lemma sym_list_length: "length (snd (sym_list inp)) \<le> length inp"
proof (induction inp rule: sym_list.induct)
  case (1 inp)
  then show ?case using pMustSym_length [of inp] pKeyword_length [of "snd (pMustSym inp)" "['','']"]
    by (subst sym_list.simps) (force split: option.split simp: split_beta)
qed

text \<open>One round of the loop of \<open>pCreateTable\<close>: the primary key, or a column.\<close>

definition create_item :: "QLCreateTable \<Rightarrow> string \<Rightarrow> QLCreateTable \<times> string" where
  "create_item stmt inp =
     (case pKeyword inp [''primary'', ''key''] of
        Some r \<Rightarrow>
          let (ks, r) = sym_list (snd (pExpect r ''(''))
          in (stmt\<lparr>ct_PKeys := ct_PKeys stmt @ ks\<rparr>, snd (pExpect r '')''))
      | None \<Rightarrow>
          let (name, r) = pMustSym inp; (ty, r) = pType r
          in (stmt\<lparr>ct_Cols := ct_Cols stmt @ [\<lparr>spec_Name = name, spec_Type = ty\<rparr>]\<rparr>, r))"

lemma create_item_length: "length (snd (create_item stmt inp)) \<le> length inp"
proof (cases "pKeyword inp [''primary'', ''key'']")
  case (Some r)
  have "length (snd (pExpect (snd (sym_list (snd (pExpect r ''('')))) '')'')) \<le> length r"
    by (meson pExpect_length sym_list_length order_trans)
  also have "length r \<le> length inp" using pKeyword_length [OF Some] by simp
  finally show ?thesis using Some by (simp add: create_item_def split_beta)
next
  case None
  have "length (snd (pType (snd (pMustSym inp)))) \<le> length inp" by (meson pType_length pMustSym_length order_trans)
  then show ?thesis using None by (simp add: create_item_def split_beta)
qed

function create_items :: "QLCreateTable \<Rightarrow> string \<Rightarrow> QLCreateTable \<times> string" where
  "create_items stmt inp =
     (case pKeyword (snd (create_item stmt inp)) ['',''] of
        Some r \<Rightarrow> create_items (fst (create_item stmt inp)) r
      | None \<Rightarrow> create_item stmt inp)"
  by pat_completeness auto
termination
proof (relation "measure (\<lambda>(_, inp). length inp)")
  fix stmt inp r
  assume "pKeyword (snd (create_item stmt inp)) ['',''] = Some r"
  then show "((fst (create_item stmt inp), r), stmt, inp) \<in> measure (\<lambda>(_, inp). length inp)"
    using pKeyword_length [of "snd (create_item stmt inp)"] create_item_length [of stmt inp] by fastforce
qed simp

declare create_items.simps [simp del]

definition pCreateTable :: "string \<Rightarrow> QLCreateTable \<times> string" where
  "pCreateTable inp =
     (let (table, inp) = pMustSym inp;
          stmt = \<lparr>ct_Table = table, ct_Cols = [], ct_PKeys = []\<rparr>;
          (ok, inp) = pExpect inp ''(''
      in if \<not> ok then (stmt, inp)
         else let (stmt, inp) = create_items stmt inp in (stmt, snd (pExpect inp '')'')))"

definition pCreateIndex :: "string \<Rightarrow> QLCreateIndex \<times> string" where
  "pCreateIndex inp =
     (let (u, inp) = (case pKeyword inp [''unique''] of Some r \<Rightarrow> (True, r) | None \<Rightarrow> (False, inp));
          (name, inp) = pMustSym inp;
          stmt = \<lparr>ci_Table = [], ci_Name = name, ci_Keys = [], ci_Unique = u\<rparr>;
          (ok, inp) = pExpect inp ''on''
      in if \<not> ok then (stmt, inp)
         else
           let (table, inp) = pMustSym inp;
               stmt = stmt\<lparr>ci_Table := table\<rparr>;
               (ok, inp) = pExpect inp ''(''
           in if \<not> ok then (stmt, inp)
              else let (ks, inp) = sym_list inp in (stmt\<lparr>ci_Keys := ks\<rparr>, snd (pExpect inp '')'')))"

definition ident :: "string \<Rightarrow> QLNode" where
  "ident name = QLNode QLIdent 0 name []"

definition pSelectExpr :: "string \<Rightarrow> QLSelect \<Rightarrow> QLSelect \<times> string" where
  "pSelectExpr inp node =
     (case pKeyword inp [''*''] of
        Some r \<Rightarrow> (node\<lparr>sel_Names := sel_Names node @ [''*''], Output := Output node @ [ident ''*'']\<rparr>, r)
      | None \<Rightarrow>
          let (name, inp) = pMustSym inp;
              (name, inp) = (case pKeyword inp [''as''] of Some r \<Rightarrow> pMustSym r | None \<Rightarrow> (name, inp))
          in (node\<lparr>sel_Names := sel_Names node @ [name], Output := Output node @ [ident name]\<rparr>, inp))"

lemma pSelectExpr_length: "length (snd (pSelectExpr inp node)) \<le> length inp"
proof (cases "pKeyword inp [''*'']")
  case (Some r)
  then show ?thesis using pKeyword_length [OF Some] by (simp add: pSelectExpr_def)
next
  case None
  have "length (snd (case pKeyword (snd (pMustSym inp)) [''as''] of Some r \<Rightarrow> pMustSym r | None \<Rightarrow> (x, snd (pMustSym inp)))) \<le> length inp" for x
  proof (cases "pKeyword (snd (pMustSym inp)) [''as'']")
    case (Some r)
    then show ?thesis using pKeyword_length [OF Some] pMustSym_length [of inp] pMustSym_length [of r] by simp
  next
    case None
    then show ?thesis using pMustSym_length [of inp] by simp
  qed
  then show ?thesis using None by (simp add: pSelectExpr_def split_beta)
qed

function pSelectExprList :: "string \<Rightarrow> QLSelect \<Rightarrow> QLSelect \<times> string" where
  "pSelectExprList inp node =
     (case pKeyword (snd (pSelectExpr inp node)) ['',''] of
        Some r \<Rightarrow> pSelectExprList r (fst (pSelectExpr inp node))
      | None \<Rightarrow> pSelectExpr inp node)"
  by pat_completeness auto
termination
proof (relation "measure (\<lambda>(inp, _). length inp)")
  fix inp node r
  assume "pKeyword (snd (pSelectExpr inp node)) ['',''] = Some r"
  then show "((r, fst (pSelectExpr inp node)), inp, node) \<in> measure (\<lambda>(inp, _). length inp)"
    using pKeyword_length [of "snd (pSelectExpr inp node)"] pSelectExpr_length [of inp node] by fastforce
qed simp

declare pSelectExprList.simps [simp del]

definition MaxInt64 :: u64 where
  "MaxInt64 = 0x7FFFFFFFFFFFFFFF"

definition pIndexBy :: "string \<Rightarrow> QLScan \<Rightarrow> (QLScan \<times> string) option" where
  "pIndexBy inp node = do {
     (k1, inp) \<leftarrow> parse_cmp inp;
     let node = node\<lparr>Key1 := k1\<rparr>;
     (case first_kw inp [(''and'', ()), ('','', ())] of
        Some (_, inp) \<Rightarrow> do { (k2, inp) \<leftarrow> parse_cmp inp; Some (node\<lparr>Key2 := k2\<rparr>, inp) }
      | None \<Rightarrow> Some (node, inp))
   }"

definition pLimit :: "string \<Rightarrow> QLScan \<Rightarrow> QLScan \<times> string" where
  "pLimit inp node =
     (let (n, inp) = pNum inp;
          node = (case n of Some n \<Rightarrow> node\<lparr>Limit := n\<rparr> | None \<Rightarrow> node)
      in case pKeyword inp [''offset''] of
           Some inp \<Rightarrow> (let (n, inp) = pNum inp in (case n of Some n \<Rightarrow> node\<lparr>Offset := n\<rparr> | None \<Rightarrow> node, inp))
         | None \<Rightarrow> (node, inp))"

definition pScan :: "string \<Rightarrow> QLScan \<Rightarrow> (QLScan \<times> string) option" where
  "pScan inp node = do {
     (node, inp) \<leftarrow> (case pKeyword inp [''index'', ''by''] of Some inp \<Rightarrow> pIndexBy inp node | None \<Rightarrow> Some (node, inp));
     (node, inp) \<leftarrow> (case pKeyword inp [''filter''] of
        Some inp \<Rightarrow> do { (e, inp) \<leftarrow> parse_or inp; Some (node\<lparr>Filter := e\<rparr>, inp) }
      | None \<Rightarrow> Some (node, inp));
     let node = node\<lparr>Offset := 0, Limit := MaxInt64\<rparr>;
     Some (case pKeyword inp [''limit''] of Some inp \<Rightarrow> pLimit inp node | None \<Rightarrow> (node, inp))
   }"

definition empty_scan :: QLScan where
  "empty_scan = \<lparr>scan_Table = [], Key1 = no_node, Key2 = no_node, Filter = no_node, Offset = 0, Limit = 0\<rparr>"

definition pSelect :: "string \<Rightarrow> (QLSelect \<times> string) option" where
  "pSelect inp =
     (let (stmt, inp) = pSelectExprList inp \<lparr>sel_Scan = empty_scan, sel_Names = [], Output = []\<rparr>;
          (ok, inp) = pExpect inp ''from''
      in if \<not> ok then Some (stmt, inp)
         else do {
           let (table, inp) = pMustSym inp;
           (scan, inp) \<leftarrow> pScan inp ((sel_Scan stmt)\<lparr>scan_Table := table\<rparr>);
           Some (stmt\<lparr>sel_Scan := scan\<rparr>, inp)
         })"

definition pInsert :: "string \<Rightarrow> (QLInsert \<times> string) option" where
  "pInsert inp =
     (let (table, inp) = pMustSym inp;
          (names, inp) = (case pKeyword inp [''(''] of
             Some r \<Rightarrow> (let (ns, r) = sym_list r in (ns, snd (pExpect r '')'')))
           | None \<Rightarrow> ([], inp));
          inp = snd (pExpect inp ''values'');
          inp = snd (pExpect inp ''('')
      in do {
        (vals, inp) \<leftarrow> pArgs parse_or (Suc (length inp)) inp;
        Some (\<lparr>ins_Table = table, ins_Names = names, ins_Values = vals\<rparr>, snd (pExpect inp '')''))
      })"

fun pAssigns :: "nat \<Rightarrow> string \<Rightarrow> ((string \<times> QLNode) list \<times> string) option" where
  "pAssigns 0 inp = None"
| "pAssigns (Suc n) inp =
     (let (name, inp) = pMustSym inp; inp = snd (pExpect inp ''='') in do {
        (e, inp) \<leftarrow> parse_or inp;
        (case pKeyword inp ['',''] of
           Some inp \<Rightarrow> do { (es, inp) \<leftarrow> pAssigns n inp; Some ((name, e) # es, inp) }
         | None \<Rightarrow> Some ([(name, e)], inp))
      })"

definition pUpdate :: "string \<Rightarrow> (QLUpdate \<times> string) option" where
  "pUpdate inp =
     (let (table, inp) = pMustSym inp; inp = snd (pExpect inp ''set'') in do {
        (as, inp) \<leftarrow> pAssigns (Suc (length inp)) inp;
        let inp = snd (pExpect inp ''where'');
        (scan, inp) \<leftarrow> pScan inp (empty_scan\<lparr>scan_Table := table\<rparr>);
        Some (\<lparr>upd_Scan = scan, upd_Names = map fst as, upd_Values = map snd as\<rparr>, inp)
      })"

definition pDelete :: "string \<Rightarrow> (QLDelete \<times> string) option" where
  "pDelete inp =
     (let (table, inp) = pMustSym inp; scan = empty_scan\<lparr>scan_Table := table\<rparr> in
      case pKeyword inp [''where''] of
        Some inp \<Rightarrow> do { (scan, inp) \<leftarrow> pScan inp scan; Some (\<lparr>del_Scan = scan\<rparr>, inp) }
      | None \<Rightarrow> Some (\<lparr>del_Scan = scan\<rparr>, inp))"

text \<open>The keywords that start a statement, in the order of the switch of \<open>pStmt\<close>.\<close>

datatype head = HCreateTable | HCreateIndex | HSelect | HInsert | HUpdate | HDelete | HExplain | HBegin | HCommit | HAbort

fun first_kws :: "string \<Rightarrow> (string list \<times> 'a) list \<Rightarrow> ('a \<times> string) option" where
  "first_kws inp [] = None"
| "first_kws inp ((kws, x) # alts) = (case pKeyword inp kws of Some r \<Rightarrow> Some (x, r) | None \<Rightarrow> first_kws inp alts)"

definition heads :: "(string list \<times> head) list" where
  "heads = [([''create'', ''table''], HCreateTable), ([''create'', ''index''], HCreateIndex), ([''select''], HSelect),
     ([''insert'', ''into''], HInsert), ([''update''], HUpdate), ([''delete'', ''from''], HDelete), ([''explain''], HExplain),
     ([''begin''], HBegin), ([''commit''], HCommit), ([''abort''], HAbort)]"

definition pStmt :: "string \<Rightarrow> (stmt \<times> string) option" where
  "pStmt inp =
     (case first_kws inp heads of
        Some (HCreateTable, r) \<Rightarrow> (let (s, r) = pCreateTable r in Some (SCreateTable s, r))
      | Some (HCreateIndex, r) \<Rightarrow> (let (s, r) = pCreateIndex r in Some (SCreateIndex s, r))
      | Some (HSelect, r) \<Rightarrow> do { (s, r) \<leftarrow> pSelect r; Some (SSelect s, r) }
      | Some (HInsert, r) \<Rightarrow> do { (s, r) \<leftarrow> pInsert r; Some (SInsert s, r) }
      | Some (HUpdate, r) \<Rightarrow> do { (s, r) \<leftarrow> pUpdate r; Some (SUpdate s, r) }
      | Some (HDelete, r) \<Rightarrow> do { (s, r) \<leftarrow> pDelete r; Some (SDelete s, r) }
      | Some (HExplain, r) \<Rightarrow> do { (s, r) \<leftarrow> pSelect r; Some (SExplain s, r) }
      | Some (HBegin, r) \<Rightarrow> Some (SText ''BEGIN'', r)
      | Some (HCommit, r) \<Rightarrow> Some (SText ''COMMIT'', r)
      | Some (HAbort, r) \<Rightarrow> Some (SText ''ABORT'', r)
      | None \<Rightarrow> Some (SUnknown (rest_text inp), inp))"

text \<open>\<open>Inl\<close> is the error about trailing input.\<close>

definition Parse :: "string \<Rightarrow> (string + stmt) option" where
  "Parse inp = do {
     (result, r) \<leftarrow> pStmt inp;
     let r = skipWS r;
     Some (if r \<noteq> [] then Inl (rest_text r) else Inr result)
   }"

section \<open>The fuel is enough\<close>

text \<open>A parser that returns on every input shorter than \<open>n\<close>, with no more input than it was given.\<close>

definition fine :: "(string \<Rightarrow> ('a \<times> string) option) \<Rightarrow> nat \<Rightarrow> bool" where
  "fine f n \<longleftrightarrow> (\<forall>inp. length inp < n \<longrightarrow> (\<exists>e r. f inp = Some (e, r) \<and> length r \<le> length inp))"

lemma fineD: "fine f n \<Longrightarrow> length inp < n \<Longrightarrow> \<exists>e r. f inp = Some (e, r) \<and> length r \<le> length inp"
  by (simp add: fine_def)

lemma fine_mono: "fine f n \<Longrightarrow> m \<le> n \<Longrightarrow> fine f m"
  by (auto simp: fine_def)

text \<open>An operator takes at least one byte.\<close>

definition eats :: "(string \<Rightarrow> ('a \<times> string) option) \<Rightarrow> bool" where
  "eats f \<longleftrightarrow> (\<forall>inp x r. f inp = Some (x, r) \<longrightarrow> length r < length inp)"

lemma eats_ops: "eats pMulOp" "eats pAddOp" "eats pCmpOp" "eats pAndOp" "eats pOrOp"
  by (auto simp: eats_def op_defs dest!: first_kw_length simp del: first_kw.simps)

lemma chain_fine:
  assumes "fine f n" "eats operator" "length inp < k" "length inp < n"
  shows "\<exists>e r. chain operator f k left inp = Some (e, r) \<and> length r \<le> length inp"
  using assms(3,4)
proof (induction k arbitrary: left inp)
  case (Suc k)
  show ?case
  proof (cases "operator inp")
    case (Some x)
    then obtain op r1 where x: "x = (op, r1)" "length r1 < length inp" using assms(2) by (cases x) (auto simp: eats_def)
    obtain e r2 where e: "f r1 = Some (e, r2)" "length r2 \<le> length r1" using fineD [OF assms(1), of r1] x Suc.prems by auto
    then show ?thesis using Suc.IH [of r2 "binary op left e"] Suc.prems Some x by auto
  qed simp
qed simp

lemma operand_chain_fine:
  assumes "fine f n" "eats operator"
  shows "fine (\<lambda>inp. do { (left, inp) \<leftarrow> f inp; chain operator f n left inp }) n"
proof -
  have "\<exists>e r. (do { (left, inp) \<leftarrow> f inp; chain operator f n left inp }) = Some (e, r) \<and> length r \<le> length inp"
    if len: "length inp < n" for inp
  proof -
    obtain e r where e: "f inp = Some (e, r)" "length r \<le> length inp" using fineD [OF assms(1) len] by blast
    then obtain e' r' where "chain operator f n e r = Some (e', r')" "length r' \<le> length r"
      using chain_fine [OF assms, of r n e] len by auto
    then show ?thesis using e by simp
  qed
  then show ?thesis by (simp add: fine_def)
qed

lemma pExprMul_fine: "fine atom n \<Longrightarrow> fine (pExprMul atom n) n"
  using operand_chain_fine [OF _ eats_ops(1)] by (simp add: pExprMul_def [abs_def])

lemma pExprAdd_fine: "fine atom n \<Longrightarrow> fine (pExprAdd atom n) n"
  using operand_chain_fine [OF pExprMul_fine eats_ops(2)] by (simp add: pExprAdd_def [abs_def])

lemma pExprCmp_fine:
  assumes "fine atom n"
  shows "fine (pExprCmp atom n) n"
proof -
  note add = fineD [OF pExprAdd_fine [OF assms]]
  have "\<exists>e r. pExprCmp atom n inp = Some (e, r) \<and> length r \<le> length inp" if len: "length inp < n" for inp
  proof -
    obtain e r where e: "pExprAdd atom n inp = Some (e, r)" "length r \<le> length inp" using add [OF len] by blast
    show ?thesis
    proof (cases "pCmpOp r")
      case (Some x)
      then obtain op r1 where x: "x = (op, r1)" "length r1 < length r" using eats_ops(3) by (cases x) (auto simp: eats_def)
      then obtain e' r' where "pExprAdd atom n r1 = Some (e', r')" "length r' \<le> length r1" using add [of r1] e len by auto
      then show ?thesis using Some x e by (simp add: pExprCmp_def)
    qed (use e in \<open>simp add: pExprCmp_def\<close>)
  qed
  then show ?thesis by (simp add: fine_def)
qed

lemma pExprAnd_fine: "fine atom n \<Longrightarrow> fine (pExprAnd atom n) n"
  using operand_chain_fine [OF pExprCmp_fine eats_ops(4)] by (simp add: pExprAnd_def [abs_def])

lemma pExprOr_fine: "fine atom n \<Longrightarrow> fine (pExprOr atom n) n"
  using operand_chain_fine [OF pExprAnd_fine eats_ops(5)] by (simp add: pExprOr_def [abs_def])

lemma pArgs_fine:
  assumes "fine f n" "length inp < k" "length inp < n"
  shows "\<exists>es r. pArgs f k inp = Some (es, r) \<and> length r \<le> length inp"
  using assms(2,3)
proof (induction k arbitrary: inp)
  case (Suc k)
  obtain e r where e: "f inp = Some (e, r)" "length r \<le> length inp" using fineD [OF assms(1) Suc.prems(2)] by blast
  show ?case
  proof (cases "pKeyword r ['','']")
    case (Some r1)
    then have "length r1 < length r" using pKeyword_length [OF Some] by simp
    then obtain es r2 where "pArgs f k r1 = Some (es, r2)" "length r2 \<le> length r1" using Suc.IH [of r1] Suc.prems e by auto
    then show ?thesis using Some e pKeyword_length [OF Some] by simp
  qed (use e in simp)
qed simp

lemma pNum_length: "length (snd (pNum inp)) \<le> length inp"
proof -
  have "length (snd (pNum inp)) \<le> length (skipComments inp)"
    by (auto simp: pNum_def Let_def length_dropWhile_le split: list.split intro: le_SucI)
  then show ?thesis using skipComments_length le_trans by blast
qed

lemma str_body_length: "str_body q inp = Some (s, r) \<Longrightarrow> length r < length inp"
proof (induction q inp arbitrary: s rule: str_body.induct)
  case (2 q b inp)
  then show ?case by (fastforce split: if_splits list.splits)
qed simp

lemma pStr_length: "length (snd (pStr inp)) \<le> length inp"
proof -
  have "length (snd (pStr inp)) \<le> length (skipComments inp)"
    by (auto simp: pStr_def Let_def split: list.split option.split dest: str_body_length)
  then show ?thesis using skipComments_length le_trans by blast
qed

lemma pName_fine:
  assumes "fine f n" "length inp < Suc n"
  shows "\<exists>e r. pName f n inp = Some (e, r) \<and> length r \<le> length inp"
proof -
  let ?r = "snd (pMustSym inp)"
  have r: "length ?r \<le> length inp" by (rule pMustSym_length)
  show ?thesis
  proof (cases "pKeyword ?r [''('']")
    case (Some r1)
    then have r1: "length r1 < length inp" using pKeyword_length [OF Some] r by simp
    then obtain es r2 where es: "pArgs f n r1 = Some (es, r2)" "length r2 \<le> length r1"
      using pArgs_fine [OF assms(1), of r1 n] assms(2) by auto
    have "length (snd (pExpect r2 '')'')) \<le> length inp" using pExpect_length [of r2] es r1 by (meson le_trans less_imp_le)
    then show ?thesis using Some es r1 r pKeyword_length [of r1 "['')'']"] by (auto simp: pName_def split_beta split: option.split)
  qed (use r in \<open>auto simp: pName_def split_beta\<close>)
qed

lemma pExprAtom_fine: "fine (pExprAtom n) n"
proof (induction n)
  case (Suc n)
  note orf = pExprOr_fine [OF Suc.IH]
  have "\<exists>e r. pExprAtom (Suc n) inp = Some (e, r) \<and> length r \<le> length inp" if len: "length inp < Suc n" for inp
  proof (cases "pKeyword inp [''not'']")
    case (Some r)
    then show ?thesis using pKeyword_length [OF Some] fineD [OF Suc.IH, of r] len by fastforce
  next
    case no_not: None
    show ?thesis
    proof (cases "pKeyword inp [''('']")
      case (Some r)
      then obtain e r1 where "pExprOr (pExprAtom n) n r = Some (e, r1)" "length r1 \<le> length r" "length r < length inp"
        using pKeyword_length [OF Some] fineD [OF orf, of r] len by fastforce
      then show ?thesis using no_not Some pExpect_length [of r1 "'')''"] by simp
    next
      case None
      obtain i r1 where num: "pNum inp = (i, r1)" "length r1 \<le> length inp" using pNum_length [of inp] by (cases "pNum inp") auto
      obtain s r2 where str: "pStr r1 = (s, r2)" "length r2 \<le> length r1" using pStr_length [of r1] by (cases "pStr r1") auto
      obtain e r3 where "pName (pExprOr (pExprAtom n) n) n r2 = Some (e, r3)" "length r3 \<le> length r2"
        using pName_fine [OF orf, of r2] num str len by auto
      then show ?thesis using no_not None num str by (auto split: option.split)
    qed
  qed
  then show ?case by (simp add: fine_def)
qed (simp add: fine_def)

lemma parse_or_total: "\<exists>e r. parse_or inp = Some (e, r) \<and> length r \<le> length inp"
  unfolding parse_or_def by (rule fineD [OF pExprOr_fine [OF pExprAtom_fine]]) simp

lemma parse_cmp_total: "\<exists>e r. parse_cmp inp = Some (e, r) \<and> length r \<le> length inp"
  unfolding parse_cmp_def by (rule fineD [OF pExprCmp_fine [OF pExprAtom_fine]]) simp

lemma pExpr_enough: "fine parse_or n" "fine parse_cmp n"
  using parse_or_total parse_cmp_total by (simp_all add: fine_def)

lemma pScan_total: "\<exists>node' r. pScan inp node = Some (node', r)"
proof -
  have index: "\<exists>node' r. pIndexBy i nd = Some (node', r)" for i nd
  proof -
    obtain k r where k: "parse_cmp i = Some (k, r)" using parse_cmp_total by blast
    show ?thesis
    proof (cases "first_kw r [(''and'', ()), ('','', ())]")
      case (Some x)
      obtain k' r' where "parse_cmp (snd x) = Some (k', r')" using parse_cmp_total by blast
      then show ?thesis using k Some by (cases x) (simp add: pIndexBy_def Let_def)
    qed (use k in \<open>simp add: pIndexBy_def Let_def\<close>)
  qed
  obtain nd i where 1: "(case pKeyword inp [''index'', ''by''] of Some inp \<Rightarrow> pIndexBy inp node | None \<Rightarrow> Some (node, inp)) = Some (nd, i)"
    using index [of _ node] by (cases "pKeyword inp [''index'', ''by'']") (auto, blast)
  obtain nd' i' where 2: "(case pKeyword i [''filter''] of
        Some inp \<Rightarrow> do { (e, inp) \<leftarrow> parse_or inp; Some (nd\<lparr>Filter := e\<rparr>, inp) }
      | None \<Rightarrow> Some (nd, i)) = Some (nd', i')"
  proof (cases "pKeyword i [''filter'']")
    case (Some x)
    obtain e y where "parse_or x = Some (e, y)" using parse_or_total by blast
    then show ?thesis using that Some by simp
  qed (use that in simp)
  show ?thesis unfolding pScan_def 1 by (simp add: 2 Let_def split: option.split)
qed

lemma pAssigns_total: "length inp < n \<Longrightarrow> \<exists>as r. pAssigns n inp = Some (as, r)"
proof (induction n arbitrary: inp)
  case (Suc n)
  let ?i = "snd (pExpect (snd (pMustSym inp)) ''='')"
  have i: "length ?i \<le> length inp" by (meson pExpect_length pMustSym_length le_trans)
  obtain e r where e: "parse_or ?i = Some (e, r)" "length r \<le> length ?i" using parse_or_total by blast
  show ?case
  proof (cases "pKeyword r ['','']")
    case (Some r1)
    then have "length r1 < n" using pKeyword_length [OF Some] e i Suc.prems by simp
    then obtain as r2 where "pAssigns n r1 = Some (as, r2)" using Suc.IH by blast
    then show ?thesis using Some e by (simp add: split_beta)
  qed (use e in \<open>simp add: split_beta\<close>)
qed simp

lemma bind_total:
  "\<exists>a b. x = Some (a, b) \<Longrightarrow> (\<And>a b. \<exists>c d. f (a, b) = Some (c, d)) \<Longrightarrow> \<exists>c d. x \<bind> f = Some (c, d)"
  by auto

lemma pSelect_total: "\<exists>s r. pSelect inp = Some (s, r)"
  unfolding pSelect_def Let_def split_beta by (cases "fst (pExpect (snd (pSelectExprList inp
    \<lparr>sel_Scan = empty_scan, sel_Names = [], Output = []\<rparr>)) ''from'')") (simp_all add: bind_total [OF pScan_total])

lemma pInsert_total: "\<exists>s r. pInsert inp = Some (s, r)"
proof -
  have "\<exists>es r. pArgs parse_or (Suc (length i)) i = Some (es, r)" for i
    using pArgs_fine [OF pExpr_enough(1), of i "Suc (length i)" "Suc (length i)"] by auto
  then show ?thesis unfolding pInsert_def Let_def split_beta by (rule bind_total) simp
qed

lemma pUpdate_total: "\<exists>s r. pUpdate inp = Some (s, r)"
proof -
  obtain as r where a: "pAssigns (Suc (length (snd (pExpect (snd (pMustSym inp)) ''set'')))) (snd (pExpect (snd (pMustSym inp)) ''set'')) = Some (as, r)"
    using pAssigns_total by blast
  obtain sc r' where "pScan (snd (pExpect r ''where'')) (empty_scan\<lparr>scan_Table := fst (pMustSym inp)\<rparr>) = Some (sc, r')"
    using pScan_total by blast
  then show ?thesis using a by (simp add: pUpdate_def Let_def split_beta del: pAssigns.simps)
qed

lemma pDelete_total: "\<exists>s r. pDelete inp = Some (s, r)"
proof (cases "pKeyword (snd (pMustSym inp)) [''where'']")
  case (Some r)
  obtain sc r' where "pScan r (empty_scan\<lparr>scan_Table := fst (pMustSym inp)\<rparr>) = Some (sc, r')" using pScan_total by blast
  then show ?thesis using Some by (simp add: pDelete_def Let_def split_beta)
qed (simp add: pDelete_def Let_def split_beta)

lemma pStmt_total: "\<exists>s r. pStmt inp = Some (s, r)"
proof (cases "first_kws inp heads")
  case (Some x)
  obtain h r where x: "x = (h, r)" by (cases x)
  have "\<exists>s q. (do { (s, r) \<leftarrow> pSelect r; Some (SSelect s, r) }) = Some (s, q)"
    "\<exists>s q. (do { (s, r) \<leftarrow> pSelect r; Some (SExplain s, r) }) = Some (s, q)"
    "\<exists>s q. (do { (s, r) \<leftarrow> pInsert r; Some (SInsert s, r) }) = Some (s, q)"
    "\<exists>s q. (do { (s, r) \<leftarrow> pUpdate r; Some (SUpdate s, r) }) = Some (s, q)"
    "\<exists>s q. (do { (s, r) \<leftarrow> pDelete r; Some (SDelete s, r) }) = Some (s, q)"
    using pSelect_total [of r] pInsert_total [of r] pUpdate_total [of r] pDelete_total [of r] by auto
  then show ?thesis unfolding pStmt_def Some x by (cases h) (simp_all add: split_beta)
qed (simp add: pStmt_def)

end
