(* ===== verification/Parser_Pos.thy ===== *)
theory Parser_Pos
  imports SqlParser
begin

text \<open>
  The parser of \<^verbatim>\<open>internal/sql/parser.go\<close> as it is written: an input and a position in it. \<open>SqlParser\<close> takes the input that is
  left for the state; here the functions that move the position are translated with it, and each is shown to be the one
  of \<open>SqlParser\<close> on what is left. All other functions of the parser move the position through these only.
\<close>

record Parser =
  p_input :: string
  p_pos :: nat

definition NewParser :: "string \<Rightarrow> Parser" where
  "NewParser inp = \<lparr>p_input = inp, p_pos = 0\<rparr>"

definition peek :: "Parser \<Rightarrow> char" where
  "peek p = (if p_pos p \<ge> length (p_input p) then CHR 0x00 else p_input p ! p_pos p)"

definition p_next :: "Parser \<Rightarrow> char \<times> Parser" where
  "p_next p = (if p_pos p \<ge> length (p_input p) then (CHR 0x00, p) else (p_input p ! p_pos p, p\<lparr>p_pos := p_pos p + 1\<rparr>))"

text \<open>The loops that move the position while the byte there satisfies a condition.\<close>

function at_skipWS :: "Parser \<Rightarrow> Parser" where
  "at_skipWS p =
     (if p_pos p < length (p_input p) \<and> is_ws (p_input p ! p_pos p) then at_skipWS (p\<lparr>p_pos := p_pos p + 1\<rparr>) else p)"
  by pat_completeness auto
termination
  by (relation "measure (\<lambda>p. length (p_input p) - p_pos p)") auto

function at_line :: "Parser \<Rightarrow> Parser" where
  "at_line p =
     (if p_pos p < length (p_input p) \<and> p_input p ! p_pos p \<noteq> CHR 0x0A then at_line (p\<lparr>p_pos := p_pos p + 1\<rparr>) else p)"
  by pat_completeness auto
termination
  by (relation "measure (\<lambda>p. length (p_input p) - p_pos p)") auto

function sym_loop :: "Parser \<Rightarrow> Parser" where
  "sym_loop p = (if is_sym (peek p) then sym_loop (snd (p_next p)) else p)"
  by pat_completeness auto
termination
  by (relation "measure (\<lambda>p. length (p_input p) - p_pos p)") (auto simp: peek_def p_next_def is_sym_def split: if_splits)

function digit_loop :: "Parser \<Rightarrow> Parser" where
  "digit_loop p = (if is_digit (peek p) then digit_loop (snd (p_next p)) else p)"
  by pat_completeness auto
termination
  by (relation "measure (\<lambda>p. length (p_input p) - p_pos p)") (auto simp: peek_def p_next_def is_digit_def split: if_splits)

declare at_skipWS.simps [simp del] at_line.simps [simp del] sym_loop.simps [simp del] digit_loop.simps [simp del]

section \<open>What is left\<close>

definition left :: "Parser \<Rightarrow> string" where
  "left p = drop (p_pos p) (p_input p)"

definition p_ok :: "Parser \<Rightarrow> bool" where
  "p_ok p \<longleftrightarrow> p_pos p \<le> length (p_input p)"

text \<open>The position moved over the longest prefix of what is left that satisfies a condition.\<close>

definition run_while :: "(char \<Rightarrow> bool) \<Rightarrow> Parser \<Rightarrow> Parser" where
  "run_while P p = p\<lparr>p_pos := p_pos p + length (takeWhile P (left p))\<rparr>"

lemma left_step: "p_pos p < length (p_input p) \<Longrightarrow> left p = p_input p ! p_pos p # left (p\<lparr>p_pos := Suc (p_pos p)\<rparr>)"
  by (simp add: left_def Cons_nth_drop_Suc)

lemma left_end: "\<not> p_pos p < length (p_input p) \<Longrightarrow> left p = []"
  by (simp add: left_def)

lemma run_while_left [simp]: "left (run_while P p) = dropWhile P (left p)"
  by (simp add: left_def run_while_def dropWhile_eq_drop add.commute)

lemma run_while_ok: "p_ok p \<Longrightarrow> p_ok (run_while P p)"
  using length_takeWhile_le [of P "left p"] by (simp add: p_ok_def run_while_def left_def)

lemma run_while_text: "take (p_pos (run_while P p) - p_pos p) (left p) = takeWhile P (left p)"
  by (simp add: run_while_def takeWhile_eq_take [symmetric])

lemma run_while_input [simp]: "p_input (run_while P p) = p_input p"
  by (simp add: run_while_def)

text \<open>A loop that tests the byte at the position and moves by one is \<open>run_while\<close>.\<close>

lemma loop_run_while:
  assumes "\<And>p. f p = (if p_pos p < length (p_input p) \<and> P (p_input p ! p_pos p) then f (p\<lparr>p_pos := Suc (p_pos p)\<rparr>) else p)"
  shows "f p = run_while P p"
proof (induction "length (left p)" arbitrary: p)
  case 0
  then have "\<not> p_pos p < length (p_input p)" by (simp add: left_def)
  then show ?case by (simp add: assms [of p] run_while_def left_end)
next
  case (Suc n)
  then have lt: "p_pos p < length (p_input p)" by (simp add: left_def)
  show ?case
  proof (cases "P (p_input p ! p_pos p)")
    case True
    have "n = length (left (p\<lparr>p_pos := Suc (p_pos p)\<rparr>))" using Suc.hyps(2) left_step [OF lt] by simp
    from Suc.hyps(1) [OF this] show ?thesis using True lt left_step [OF lt] by (simp add: assms [of p] run_while_def)
  next
    case False
    then show ?thesis using left_step [OF lt] by (simp add: assms [of p] run_while_def)
  qed
qed

lemma peek_next: "p_pos p < length (p_input p) \<Longrightarrow> peek p = p_input p ! p_pos p \<and> p_next p = (p_input p ! p_pos p, p\<lparr>p_pos := Suc (p_pos p)\<rparr>)"
  "\<not> p_pos p < length (p_input p) \<Longrightarrow> peek p = CHR 0x00 \<and> p_next p = (CHR 0x00, p)"
  by (simp_all add: peek_def p_next_def)

lemma loops:
  "at_skipWS p = run_while is_ws p" "at_line p = run_while (\<lambda>c. c \<noteq> CHR 0x0A) p"
  "sym_loop p = run_while is_sym p" "digit_loop p = run_while is_digit p"
proof -
  show "at_skipWS p = run_while is_ws p" by (rule loop_run_while) (subst at_skipWS.simps, simp)
  show "at_line p = run_while (\<lambda>c. c \<noteq> CHR 0x0A) p" by (rule loop_run_while) (subst at_line.simps, simp)
  have "sym_loop p = (if p_pos p < length (p_input p) \<and> is_sym (p_input p ! p_pos p) then sym_loop (p\<lparr>p_pos := Suc (p_pos p)\<rparr>) else p)" for p
    by (cases "p_pos p < length (p_input p)") (subst sym_loop.simps, simp add: peek_next, simp add: is_sym_def)+
  then show "sym_loop p = run_while is_sym p" by (rule loop_run_while)
  have "digit_loop p = (if p_pos p < length (p_input p) \<and> is_digit (p_input p ! p_pos p) then digit_loop (p\<lparr>p_pos := Suc (p_pos p)\<rparr>) else p)" for p
    by (cases "p_pos p < length (p_input p)") (subst digit_loop.simps, simp add: peek_next, simp add: is_digit_def)+
  then show "digit_loop p = run_while is_digit p" by (rule loop_run_while)
qed

section \<open>Words with positions\<close>

function comment_loop :: "Parser \<Rightarrow> Parser" where
  "comment_loop p =
     (if p_pos p + 1 < length (p_input p) \<and> p_input p ! p_pos p = CHR ''-'' \<and> p_input p ! (p_pos p + 1) = CHR ''-''
      then comment_loop (at_skipWS (at_line p)) else p)"
  by pat_completeness auto
termination
proof (relation "measure (\<lambda>p. length (p_input p) - p_pos p)")
  fix p :: Parser
  assume a: "p_pos p + 1 < length (p_input p) \<and> p_input p ! p_pos p = CHR ''-'' \<and> p_input p ! (p_pos p + 1) = CHR ''-''"
  then have "p_pos p < p_pos (at_skipWS (at_line p))"
    using left_step [of p] by (simp add: loops run_while_def)
  then show "(at_skipWS (at_line p), p) \<in> measure (\<lambda>p. length (p_input p) - p_pos p)" using a by (simp add: loops diff_less_mono2)
qed simp

declare comment_loop.simps [simp del]

definition at_skipComments :: "Parser \<Rightarrow> Parser" where
  "at_skipComments p = comment_loop (at_skipWS p)"

text \<open>The loops of \<open>pKeyword\<close> over the bytes of a word and over the words.\<close>

fun at_match :: "string \<Rightarrow> Parser \<Rightarrow> bool \<times> Parser" where
  "at_match [] p = (True, p)"
| "at_match (c # cs) p = (if lower (peek p) \<noteq> c then (False, p) else at_match cs (snd (p_next p)))"

fun at_words :: "string list \<Rightarrow> Parser \<Rightarrow> bool \<times> Parser" where
  "at_words [] p = (True, p)"
| "at_words (kw # kws) p = (let (ok, p) = at_match kw (at_skipWS p) in if ok then at_words kws p else (False, p))"

definition at_pKeyword :: "Parser \<Rightarrow> string list \<Rightarrow> bool \<times> Parser" where
  "at_pKeyword p kws = (let saved = p_pos p; (ok, p) = at_words kws (at_skipComments p) in if ok then (True, p) else (False, p\<lparr>p_pos := saved\<rparr>))"

definition at_pMustSym :: "Parser \<Rightarrow> string \<times> Parser" where
  "at_pMustSym p =
     (let p = at_skipComments p; start = p_pos p; p = sym_loop p
      in if p_pos p = start then ([], p) else (take (p_pos p - start) (drop start (p_input p)), p))"

definition ParseInt_text :: "string \<Rightarrow> u64" where
  "ParseInt_text t = (case t of c # ds \<Rightarrow> if c = CHR ''-'' then ParseInt True ds else ParseInt False t | [] \<Rightarrow> ParseInt False [])"

definition at_pNum :: "Parser \<Rightarrow> u64 option \<times> Parser" where
  "at_pNum p =
     (let p = at_skipComments p;
          start = p_pos p;
          (neg, p) = (if peek p = CHR ''-'' then (True, snd (p_next p)) else (False, p));
          p = digit_loop p
      in if p_pos p = start \<or> neg \<and> p_pos p = start + 1 then (None, p\<lparr>p_pos := start\<rparr>)
         else (Some (ParseInt_text (take (p_pos p - start) (drop start (p_input p)))), p))"

function str_loop :: "char \<Rightarrow> string \<Rightarrow> Parser \<Rightarrow> string option \<times> Parser" where
  "str_loop quote out p =
     (if p_pos p < length (p_input p) then
        let (b, p) = p_next p in
        if b = quote then (Some out, p)
        else if b = CHR 0x5C \<and> p_pos p < length (p_input p) then let (c, p) = p_next p in str_loop quote (out @ [c]) p
        else str_loop quote (out @ [b]) p
      else (None, p))"
  by pat_completeness auto
termination
  by (relation "measure (\<lambda>(_, _, p). length (p_input p) - p_pos p)") (auto simp: p_next_def split: if_splits)

declare str_loop.simps [simp del]

definition at_pStr :: "Parser \<Rightarrow> string option \<times> Parser" where
  "at_pStr p =
     (let p = at_skipComments p in
      if peek p \<noteq> CHR 0x27 \<and> peek p \<noteq> CHR 0x22 then (None, p)
      else let (quote, p) = p_next p in str_loop quote [] p)"

definition at_rest :: "Parser \<Rightarrow> string" where
  "at_rest p =
     (if p_pos p \<ge> length (p_input p) then ''<EOF>''
      else let r = drop (p_pos p) (p_input p) in if 30 < length r then take 30 r @ ''...'' else r)"

section \<open>Each is the function on what is left\<close>

text \<open>A state that was reached from another: the same input, and a position within it.\<close>

definition moved :: "Parser \<Rightarrow> Parser \<Rightarrow> bool" where
  "moved p q \<longleftrightarrow> p_input q = p_input p \<and> (p_ok p \<longrightarrow> p_ok q)"

lemma moved_simps [simp]: "moved p p" "moved p (run_while P p)"
  by (simp_all add: moved_def run_while_ok)

lemma moved_trans: "moved p q \<Longrightarrow> moved q r \<Longrightarrow> moved p r"
  by (simp add: moved_def)

lemma moved_next: "moved p (snd (p_next p))"
  by (simp add: moved_def p_ok_def p_next_def)

lemma comment_loop_left: "left (comment_loop p) = skip_comments (left p) \<and> moved p (comment_loop p)"
proof (induction p rule: comment_loop.induct)
  case (1 p)
  let ?c = "p_pos p + 1 < length (p_input p) \<and> p_input p ! p_pos p = CHR ''-'' \<and> p_input p ! (p_pos p + 1) = CHR ''-''"
  have eq: "1 < length (left p) \<and> left p ! 0 = CHR ''-'' \<and> left p ! 1 = CHR ''-'' \<longleftrightarrow> ?c"
    by (auto simp: left_def)
  show ?case
  proof (cases ?c)
    case True
    have "moved p (at_skipWS (at_line p))" unfolding loops by (meson moved_simps(2) moved_trans)
    moreover have "comment_loop p = comment_loop (at_skipWS (at_line p))" using True by (subst comment_loop.simps) simp
    moreover have "skip_comments (left p) = skip_comments (left (at_skipWS (at_line p)))"
      using True eq by (subst skip_comments.simps) (simp add: loops skipWS_def)
    ultimately show ?thesis using 1 [OF True] by (auto intro: moved_trans)
  next
    case False
    then show ?thesis using eq by (subst (1 2) comment_loop.simps, subst skip_comments.simps) (simp only: if_False moved_simps)
  qed
qed

lemma at_skipComments_left: "left (at_skipComments p) = skipComments (left p)" "moved p (at_skipComments p)"
  using comment_loop_left [of "at_skipWS p"] moved_trans [of p "at_skipWS p"]
  by (simp_all add: at_skipComments_def skipComments_def skipWS_def loops)

lemma at_match_left:
  assumes "CHR 0x00 \<notin> set kw"
  shows "case at_match kw p of (ok, q) \<Rightarrow> moved p q \<and> match_word kw (left p) = (if ok then Some (left q) else None)"
  using assms
proof (induction kw arbitrary: p)
  case (Cons c cs)
  show ?case
  proof (cases "p_pos p < length (p_input p)")
    case True
    then show ?thesis using Cons.IH [of "snd (p_next p)"] Cons.prems moved_next [of p] left_step [OF True] peek_next(1) [OF True]
      by (auto intro: moved_trans split: prod.splits)
  next
    case False
    then have "lower (peek p) = CHR 0x00" using peek_next(2) [OF False] by (simp add: lower_def)
    then show ?thesis using Cons.prems left_end [OF False] by auto
  qed
qed simp

lemma at_words_left:
  assumes "\<forall>kw \<in> set kws. CHR 0x00 \<notin> set kw"
  shows "case at_words kws p of (ok, q) \<Rightarrow> moved p q \<and> match_words kws (left p) = (if ok then Some (left q) else None)"
  using assms
proof (induction kws arbitrary: p)
  case (Cons kw kws)
  obtain ok q where q: "at_match kw (at_skipWS p) = (ok, q)" by fastforce
  have m: "moved p q" "match_word kw (skipWS (left p)) = (if ok then Some (left q) else None)"
    using at_match_left [of kw "at_skipWS p"] Cons.prems q moved_trans [of p "at_skipWS p" q] by (auto simp: loops skipWS_def)
  then show ?case using q Cons.IH [of q] Cons.prems by (auto intro: moved_trans split: prod.splits)
qed simp

lemma str_loop_left:
  "case str_loop quote out p of (r, q) \<Rightarrow> moved p q \<and>
    (case str_body quote (left p) of None \<Rightarrow> r = None \<and> left q = [] | Some (t, rest) \<Rightarrow> r = Some (out @ t) \<and> left q = rest)"
proof (induction "length (left p)" arbitrary: out p rule: less_induct)
  case less
  show ?case
  proof (cases "p_pos p < length (p_input p)")
    case True
    let ?b = "p_input p ! p_pos p" and ?q = "p\<lparr>p_pos := Suc (p_pos p)\<rparr>"
    note b = peek_next(1) [OF True] left_step [OF True]
    have q: "moved p ?q" using True by (simp add: moved_def p_ok_def)
    consider "?b = quote" | "?b \<noteq> quote" "?b = CHR 0x5C" "Suc (p_pos p) < length (p_input p)"
      | "?b \<noteq> quote" "?b = CHR 0x5C" "\<not> Suc (p_pos p) < length (p_input p)" | "?b \<noteq> quote" "?b \<noteq> CHR 0x5C" by blast
    then show ?thesis
    proof cases
      case 1
      then show ?thesis using True b q by (subst str_loop.simps) simp
    next
      case 2
      let ?c = "p_input p ! Suc (p_pos p)" and ?r = "p\<lparr>p_pos := Suc (Suc (p_pos p))\<rparr>"
      have r: "moved p ?r" "left ?q = ?c # left ?r" using 2 left_step [of ?q] by (simp_all add: moved_def p_ok_def)
      have "str_loop quote out p = str_loop quote (out @ [?c]) ?r"
        using 2 True b by (subst str_loop.simps) (simp add: p_next_def)
      then show ?thesis using less [of ?r "out @ [?c]"] 2 b r by (auto split: prod.splits option.splits intro: moved_trans)
    next
      case 3
      then have l: "left ?q = []" by (simp add: left_def)
      have "str_loop quote out p = str_loop quote (out @ [?b]) ?q" using 3 True b by (subst str_loop.simps) simp
      also have "\<dots> = (None, ?q)" using 3 by (subst str_loop.simps) simp
      finally show ?thesis using 3 b q l by simp
    next
      case 4
      then have "str_loop quote out p = str_loop quote (out @ [?b]) ?q" using True b by (subst str_loop.simps) simp
      then show ?thesis using less [of ?q "out @ [?b]"] 4 b q by (auto split: prod.splits option.splits intro: moved_trans)
    qed
  qed (subst str_loop.simps, simp add: left_end)
qed

lemma at_pKeyword_left:
  assumes "\<forall>kw \<in> set kws. CHR 0x00 \<notin> set kw"
  shows "case at_pKeyword p kws of (ok, q) \<Rightarrow> moved p q \<and> (if ok then pKeyword (left p) kws = Some (left q) else pKeyword (left p) kws = None \<and> q = p)"
proof -
  obtain ok q where q: "at_words kws (at_skipComments p) = (ok, q)" by fastforce
  have m: "moved p q" "pKeyword (left p) kws = (if ok then Some (left q) else None)"
    using at_words_left [OF assms, of "at_skipComments p"] q at_skipComments_left [of p]
    by (auto simp: pKeyword_def intro: moved_trans)
  then have "q\<lparr>p_pos := p_pos p\<rparr> = p" by (cases p; cases q) (simp add: moved_def)
  then show ?thesis using m q by (simp add: at_pKeyword_def)
qed

lemma at_pMustSym_left: "case at_pMustSym p of (x, q) \<Rightarrow> moved p q \<and> pMustSym (left p) = (x, left q)"
proof -
  let ?c = "at_skipComments p"
  let ?q = "run_while is_sym ?c"
  have mv: "moved p ?q" using at_skipComments_left(2) moved_simps(2) moved_trans by blast
  have t: "take (p_pos ?q - p_pos ?c) (drop (p_pos ?c) (p_input ?c)) = takeWhile is_sym (left ?c)"
    using run_while_text [of is_sym ?c] by (simp add: left_def)
  have "p_pos ?q = p_pos ?c \<Longrightarrow> takeWhile is_sym (left ?c) = []" by (simp add: run_while_def)
  then have "at_pMustSym p = (takeWhile is_sym (left ?c), ?q)" using t by (simp add: at_pMustSym_def loops Let_def)
  then show ?thesis using mv at_skipComments_left(1) [of p] by (simp add: pMustSym_def Let_def)
qed

lemma digit_loop_run:
  "p_pos (digit_loop d) = p_pos d + length (takeWhile is_digit (left d))" "left (digit_loop d) = dropWhile is_digit (left d)"
  "p_input (digit_loop d) = p_input d" "moved d (digit_loop d)"
  by (simp_all add: loops) (simp add: run_while_def)

lemma at_pNum_left:
  "case at_pNum p of (x, q) \<Rightarrow> moved p q \<and> pNum (left p) = (x, left q)"
proof -
  obtain c where c: "at_skipComments p = c" "moved p c" "left c = skipComments (left p)" using at_skipComments_left by blast
  show ?thesis
  proof (cases "peek c = CHR ''-''")
    case True
    then have lt: "p_pos c < length (p_input c)" using peek_next(2) [of c] by auto
    obtain d where d: "p_next c = (CHR ''-'', d)" "left c = CHR ''-'' # left d" "p_pos d = Suc (p_pos c)" "p_input d = p_input c" "moved c d"
      using True peek_next(1) [OF lt] left_step [OF lt] moved_next [of c] by auto
    obtain q where q: "digit_loop d = q" "p_pos q = p_pos d + length (takeWhile is_digit (left d))" "left q = dropWhile is_digit (left d)"
      "p_input q = p_input d" "moved d q" using digit_loop_run [of d] by blast
    have t: "take (p_pos q - p_pos c) (drop (p_pos c) (p_input q)) = CHR ''-'' # takeWhile is_digit (left d)"
      using d q by (simp add: left_def [of c, symmetric] takeWhile_eq_take [symmetric])
    have "q\<lparr>p_pos := p_pos c\<rparr> = c" using d(4) q(4) by (cases c; cases q) simp
    then have "at_pNum p = (if takeWhile is_digit (left d) = [] then (None, c) else (Some (ParseInt True (takeWhile is_digit (left d))), q))"
      using True c(1) d q t by (auto simp: at_pNum_def Let_def ParseInt_text_def)
    then show ?thesis using c d q by (auto simp: pNum_def Let_def simp flip: c(3) intro: moved_trans)
  next
    case False
    obtain q where q: "digit_loop c = q" "p_pos q = p_pos c + length (takeWhile is_digit (left c))" "left q = dropWhile is_digit (left c)"
      "p_input q = p_input c" "moved c q" using digit_loop_run [of c] by blast
    have t: "take (p_pos q - p_pos c) (drop (p_pos c) (p_input q)) = takeWhile is_digit (left c)"
      using q by (simp add: left_def [of c, symmetric] takeWhile_eq_take [symmetric])
    have "q\<lparr>p_pos := p_pos c\<rparr> = c" using q(4) by (cases c; cases q) simp
    moreover have "takeWhile is_digit (left c) = x # xs \<Longrightarrow> x \<noteq> CHR ''-''" for x xs
      by (cases "left c") (auto simp: is_digit_def split: if_splits)
    ultimately have n: "at_pNum p = (if takeWhile is_digit (left c) = [] then (None, c) else (Some (ParseInt False (takeWhile is_digit (left c))), q))"
      using False c(1) q t by (auto simp: at_pNum_def Let_def ParseInt_text_def split: list.split)
    have "left c = [] \<or> hd (left c) \<noteq> CHR ''-''"
      using False peek_next(1) [of c] left_step [of c] left_end [of c] by (cases "p_pos c < length (p_input c)") auto
    then have "pNum (left p) = (if takeWhile is_digit (left c) = [] then (None, left c)
        else (Some (ParseInt False (takeWhile is_digit (left c))), left q))"
      unfolding pNum_def c(3) [symmetric] q(3) by (cases "left c") (simp_all only: Let_def list.case list.sel prod.case if_False simp_thms, simp_all)
    then show ?thesis using n c(2) moved_trans [OF c(2) q(5)] by simp
  qed
qed

lemma at_pStr_left: "case at_pStr p of (x, q) \<Rightarrow> moved p q \<and> pStr (left p) = (x, left q)"
proof -
  obtain c where c: "at_skipComments p = c" "moved p c" "left c = skipComments (left p)" using at_skipComments_left by blast
  show ?thesis
  proof (cases "peek c = CHR 0x27 \<or> peek c = CHR 0x22")
    case True
    then have lt: "p_pos c < length (p_input c)" using peek_next(2) [of c] by (cases "p_pos c < length (p_input c)") auto
    obtain d where d: "p_next c = (peek c, d)" "left c = peek c # left d" "moved c d"
      using peek_next(1) [OF lt] left_step [OF lt] moved_next [of c] by auto
    obtain r q where q: "str_loop (peek c) [] d = (r, q)" by fastforce
    have m: "moved p q" "case str_body (peek c) (left d) of None \<Rightarrow> r = None \<and> left q = [] | Some (t, rest) \<Rightarrow> r = Some t \<and> left q = rest"
      using str_loop_left [where quote = "peek c" and out = "[]" and p = d] q moved_trans [OF moved_trans [OF c(2) d(3)], of q]
      by (auto split: option.splits prod.splits)
    have "at_pStr p = (r, q)" using True c(1) d(1) q by (elim disjE) (simp_all add: at_pStr_def)
    moreover have "pStr (left p) = (r, left q)"
      unfolding pStr_def c(3) [symmetric] Let_def d(2) list.case if_P [OF True] using m(2)
      by (cases "str_body (peek c) (left d)") (auto split: prod.splits)
    ultimately show ?thesis using m(1) by simp
  next
    case False
    have "left c = [] \<or> hd (left c) = peek c"
      using peek_next(1) [of c] left_step [of c] left_end [of c] by (cases "p_pos c < length (p_input c)") auto
    then have "pStr (left p) = (None, left c)"
      unfolding pStr_def c(3) [symmetric] Let_def using False by (cases "left c") auto
    then show ?thesis using False c by (simp add: at_pStr_def)
  qed
qed

section \<open>Properties\<close>

text \<open>C16. The parser's position in its input and the input that is left are two views of one state: from every position, reading
  keywords, a name, a number, a string, or the text of an error message gives what the functions on the input that is left
  give; afterwards the position is still inside the same input, what is left is what they leave, and a keyword that is not
  there moves nothing.\<close>

theorem words_refine:
  assumes "p_pos p \<le> length (p_input p)" "\<forall>kw \<in> set kws. CHR 0x00 \<notin> set kw"
  shows "(case at_pKeyword p kws of (ok, q) \<Rightarrow> p_input q = p_input p \<and> p_pos q \<le> length (p_input q) \<and>
      (if ok then pKeyword (left p) kws = Some (left q) else pKeyword (left p) kws = None \<and> q = p)) \<and>
    (case at_pMustSym p of (x, q) \<Rightarrow> p_input q = p_input p \<and> p_pos q \<le> length (p_input q) \<and> pMustSym (left p) = (x, left q)) \<and>
    (case at_pNum p of (n, q) \<Rightarrow> p_input q = p_input p \<and> p_pos q \<le> length (p_input q) \<and> pNum (left p) = (n, left q)) \<and>
    (case at_pStr p of (s, q) \<Rightarrow> p_input q = p_input p \<and> p_pos q \<le> length (p_input q) \<and> pStr (left p) = (s, left q)) \<and>
    at_rest p = rest_text (left p)"
proof (intro conjI)
  have ok: "moved p q \<Longrightarrow> p_input q = p_input p \<and> p_pos q \<le> length (p_input q)" for q
    using assms(1) by (auto simp: moved_def p_ok_def)
  show "case at_pKeyword p kws of (ok, q) \<Rightarrow> p_input q = p_input p \<and> p_pos q \<le> length (p_input q) \<and>
      (if ok then pKeyword (left p) kws = Some (left q) else pKeyword (left p) kws = None \<and> q = p)"
    using at_pKeyword_left [OF assms(2), of p] ok [of "snd (at_pKeyword p kws)"] unfolding split_beta by blast
  show "case at_pMustSym p of (x, q) \<Rightarrow> p_input q = p_input p \<and> p_pos q \<le> length (p_input q) \<and> pMustSym (left p) = (x, left q)"
    using at_pMustSym_left [of p] ok [of "snd (at_pMustSym p)"] unfolding split_beta by blast
  show "case at_pNum p of (n, q) \<Rightarrow> p_input q = p_input p \<and> p_pos q \<le> length (p_input q) \<and> pNum (left p) = (n, left q)"
    using at_pNum_left [of p] ok [of "snd (at_pNum p)"] unfolding split_beta by blast
  show "case at_pStr p of (s, q) \<Rightarrow> p_input q = p_input p \<and> p_pos q \<le> length (p_input q) \<and> pStr (left p) = (s, left q)"
    using at_pStr_left [of p] ok [of "snd (at_pStr p)"] unfolding split_beta by blast
  show "at_rest p = rest_text (left p)" by (simp add: at_rest_def rest_text_def left_def Let_def)
qed

theorem words_refine_witness:
  "at_pNum \<lparr>p_input = ''limit -12;'', p_pos = 5\<rparr> = (Some (ParseInt True ''12''), \<lparr>p_input = ''limit -12;'', p_pos = 9\<rparr>) \<and>
   pNum '' -12;'' = (Some (ParseInt True ''12''), '';'')"
proof -
  have v: "at_pNum \<lparr>p_input = ''limit -12;'', p_pos = 5\<rparr> = (Some (ParseInt True ''12''), \<lparr>p_input = ''limit -12;'', p_pos = 9\<rparr>)"
    by code_simp
  have l: "left \<lparr>p_input = ''limit -12;'', p_pos = 5\<rparr> = '' -12;''" "left \<lparr>p_input = ''limit -12;'', p_pos = 9\<rparr> = '';''" by code_simp+
  have "case at_pNum \<lparr>p_input = ''limit -12;'', p_pos = 5\<rparr> of (n, q) \<Rightarrow> pNum (left \<lparr>p_input = ''limit -12;'', p_pos = 5\<rparr>) = (n, left q)"
    using words_refine [of "\<lparr>p_input = ''limit -12;'', p_pos = 5\<rparr>" "[]"] by (simp split: prod.splits)
  then have "pNum '' -12;'' = (Some (ParseInt True ''12''), '';'')" unfolding v l prod.case .
  with v show ?thesis by (rule conjI)
qed

end
