(* ===== verification/Sql_Print.thy ===== *)
theory Sql_Print
  imports SqlParser
begin

text \<open>
  The text of expressions and of \<^verbatim>\<open>INSERT\<close> statements, and that the parser reads it back. Every operand is printed
  with its own parentheses, so that one rule per operator covers all of them.
\<close>

datatype binop = OpOr | OpAnd | OpLE | OpGE | OpNE | OpEQ | OpLT | OpGT | OpLike | OpAdd | OpSub | OpMul | OpDiv | OpMod

fun op_text :: "binop \<Rightarrow> string" where
  "op_text OpOr = ''or''"
| "op_text OpAnd = ''and''"
| "op_text OpLE = ''<=''"
| "op_text OpGE = ''>=''"
| "op_text OpNE = ''!=''"
| "op_text OpEQ = ''=''"
| "op_text OpLT = ''<''"
| "op_text OpGT = ''>''"
| "op_text OpLike = ''like''"
| "op_text OpAdd = ''+''"
| "op_text OpSub = ''-''"
| "op_text OpMul = ''*''"
| "op_text OpDiv = ''/''"
| "op_text OpMod = ''%''"

fun op_node :: "binop \<Rightarrow> nat" where
  "op_node OpOr = QLOr"
| "op_node OpAnd = QLAnd"
| "op_node OpLE = QLLE"
| "op_node OpGE = QLGE"
| "op_node OpNE = QLNE"
| "op_node OpEQ = QLEQ"
| "op_node OpLT = QLLT"
| "op_node OpGT = QLGT"
| "op_node OpLike = QLLike"
| "op_node OpAdd = QLAdd"
| "op_node OpSub = QLSub"
| "op_node OpMul = QLMul"
| "op_node OpDiv = QLDiv"
| "op_node OpMod = QLMod"

text \<open>The precedence of an operator: the function whose loop takes it.\<close>

definition level :: "binop \<Rightarrow> nat" where
  "level b = (if b \<in> {OpMul, OpDiv, OpMod} then 1 else if b \<in> {OpAdd, OpSub} then 2 else if b = OpAnd then 4 else if b = OpOr then 5 else 3)"

datatype sexpr = Num bool string | Lit string | Name string | Negate sexpr | Bin binop sexpr sexpr | Call string "sexpr list"

fun node_of :: "sexpr \<Rightarrow> QLNode" where
  "node_of (Num neg ds) = QLNode QLI64 (ParseInt neg ds) [] []"
| "node_of (Lit s) = QLNode QLStr 0 s []"
| "node_of (Name x) = QLNode QLIdent 0 x []"
| "node_of (Negate e) = QLNode QLNot 0 [] [node_of e]"
| "node_of (Bin b l r) = binary (op_node b) (node_of l) (node_of r)"
| "node_of (Call f es) = QLNode QLFunc 0 (map lower f) (map node_of es)"

fun escape :: "string \<Rightarrow> string" where
  "escape [] = []"
| "escape (c # cs) = (if c = CHR 0x27 \<or> c = CHR 0x5C then [CHR 0x5C, c] else [c]) @ escape cs"

fun commas :: "string list \<Rightarrow> string" where
  "commas [] = []"
| "commas [x] = x"
| "commas (x # y # ys) = x @ '','' @ commas (y # ys)"

fun text_of :: "sexpr \<Rightarrow> string" where
  "text_of (Num neg ds) = (if neg then ''-'' else []) @ ds"
| "text_of (Lit s) = [CHR 0x27] @ escape s @ [CHR 0x27]"
| "text_of (Name x) = x"
| "text_of (Negate e) = ''not '' @ text_of e"
| "text_of (Bin b l r) = ''('' @ text_of l @ '' '' @ op_text b @ '' '' @ text_of r @ '')''"
| "text_of (Call f es) = f @ ''('' @ commas (map text_of es) @ '')''"

text \<open>A name an expression can hold: it does not start with a digit, nor with \<^verbatim>\<open>not\<close>, which the parser takes for the operator.\<close>

definition plain_name :: "string \<Rightarrow> bool" where
  "plain_name x \<longleftrightarrow> x \<noteq> [] \<and> list_all is_sym x \<and> \<not> is_digit (hd x) \<and> map lower (take 3 x) \<noteq> ''not''"

fun printable :: "sexpr \<Rightarrow> bool" where
  "printable (Num neg ds) = (ds \<noteq> [] \<and> list_all is_digit ds)"
| "printable (Lit s) = True"
| "printable (Name x) = plain_name x"
| "printable (Negate e) = printable e"
| "printable (Bin b l r) = (printable l \<and> printable r)"
| "printable (Call f es) = (plain_name f \<and> list_all printable es)"

section \<open>Single words\<close>

lemma skip_comments_other: "\<not> (1 < length inp \<and> inp ! 0 = CHR ''-'' \<and> inp ! 1 = CHR ''-'') \<Longrightarrow> skip_comments inp = inp"
  by (subst skip_comments.simps) (simp only: if_False)

lemma skipComments_ws [simp]: "skipComments (CHR '' '' # inp) = skipComments inp"
  by (simp add: skipComments_def skipWS_def is_ws_def)

lemma skipComments_Nil [simp]: "skipComments [] = []"
  by (simp add: skipComments_def skipWS_def skip_comments_other)

lemma skipComments_Cons [simp]:
  "\<not> is_ws c \<Longrightarrow> c \<noteq> CHR ''-'' \<or> inp = [] \<or> hd inp \<noteq> CHR ''-'' \<Longrightarrow> skipComments (c # inp) = c # inp"
  by (cases inp) (auto simp: skipComments_def skipWS_def intro!: skip_comments_other)

lemma skipWS_Cons [simp]: "\<not> is_ws c \<Longrightarrow> skipWS (c # inp) = c # inp"
  by (simp add: skipWS_def)

lemma skipWS_Nil [simp]: "skipWS [] = []"
  by (simp add: skipWS_def)

lemma lower_simps [simp]:
  "lower CHR '' '' = CHR '' ''" "lower CHR '','' = CHR '',''" "lower CHR ''('' = CHR ''(''" "lower CHR '')'' = CHR '')''"
  "lower CHR ''+'' = CHR ''+''" "lower CHR ''-'' = CHR ''-''" "lower CHR ''*'' = CHR ''*''" "lower CHR ''/'' = CHR ''/''"
  "lower CHR ''%'' = CHR ''%''" "lower CHR ''='' = CHR ''=''" "lower CHR ''<'' = CHR ''<''" "lower CHR ''>'' = CHR ''>''"
  "lower CHR ''!'' = CHR ''!''" "lower CHR 0x27 = CHR 0x27"
  "lower CHR ''o'' = CHR ''o''" "lower CHR ''r'' = CHR ''r''" "lower CHR ''a'' = CHR ''a''" "lower CHR ''n'' = CHR ''n''"
  "lower CHR ''d'' = CHR ''d''" "lower CHR ''l'' = CHR ''l''" "lower CHR ''i'' = CHR ''i''" "lower CHR ''k'' = CHR ''k''"
  "lower CHR ''e'' = CHR ''e''" "lower CHR ''t'' = CHR ''t''"
  by (simp_all add: lower_def)

lemma is_ws_simps [simp]:
  "is_ws CHR '' ''" "\<not> is_ws CHR '',''" "\<not> is_ws CHR ''(''" "\<not> is_ws CHR '')''" "\<not> is_ws CHR ''+''" "\<not> is_ws CHR ''-''"
  "\<not> is_ws CHR ''*''" "\<not> is_ws CHR ''/''" "\<not> is_ws CHR ''%''" "\<not> is_ws CHR ''=''" "\<not> is_ws CHR ''<''" "\<not> is_ws CHR ''>''"
  "\<not> is_ws CHR ''!''" "\<not> is_ws CHR 0x27" "\<not> is_ws CHR ''o''" "\<not> is_ws CHR ''a''" "\<not> is_ws CHR ''l''" "\<not> is_ws CHR ''n''"
  by (simp_all add: is_ws_def)

text \<open>The first operator of the text after an operand.\<close>

definition tail :: "binop \<Rightarrow> string \<Rightarrow> string" where
  "tail b inp = '' '' @ op_text b @ '' '' @ inp"

lemma ops_tail:
  "pMulOp (tail b inp) = (if level b = 1 then Some (op_node b, CHR '' '' # inp) else None)"
  "pAddOp (tail b inp) = (if level b = 2 then Some (op_node b, CHR '' '' # inp) else None)"
  "pCmpOp (tail b inp) = (if level b = 3 then Some (op_node b, CHR '' '' # inp) else None)"
  "pAndOp (tail b inp) = (if level b = 4 then Some (op_node b, CHR '' '' # inp) else None)"
  "pOrOp (tail b inp) = (if level b = 5 then Some (op_node b, CHR '' '' # inp) else None)"
  by (cases b; simp add: tail_def op_defs level_def pKeyword_def)+

text \<open>The end of an operand: no operator follows.\<close>

definition stop :: "string \<Rightarrow> bool" where
  "stop inp \<longleftrightarrow> inp = [] \<or> hd inp = CHR '')'' \<or> hd inp = CHR '',''"

lemma ops_stop:
  assumes "stop inp"
  shows "pMulOp inp = None" "pAddOp inp = None" "pCmpOp inp = None" "pAndOp inp = None" "pOrOp inp = None"
  using assms by (cases inp; auto simp: stop_def op_defs pKeyword_def)+

section \<open>Operands\<close>

text \<open>What may follow an operand.\<close>

definition follow :: "string \<Rightarrow> bool" where
  "follow inp \<longleftrightarrow> inp = [] \<or> (hd inp \<in> {CHR '' '', CHR '')'', CHR '',''} \<and> pKeyword inp [''(''] = None)"

lemma follow_tail [simp]: "follow (tail b inp)"
  by (cases b) (simp_all add: follow_def tail_def pKeyword_def)

lemma follow_stop: "stop inp \<Longrightarrow> follow inp"
  by (cases inp) (auto simp: follow_def stop_def pKeyword_def)

lemma is_sym_not_ws: "is_sym c \<Longrightarrow> \<not> is_ws c \<and> c \<noteq> CHR ''-'' \<and> c \<noteq> CHR ''('' \<and> c \<noteq> CHR '')'' \<and> c \<noteq> CHR 0x27 \<and> c \<noteq> CHR 0x22"
  by (auto simp: is_sym_def is_ws_def)

lemma is_digit_sym: "is_digit c \<Longrightarrow> is_sym c"
  by (simp add: is_sym_def is_digit_def)

lemma follow_no_sym: "follow inp \<Longrightarrow> inp = [] \<or> \<not> is_sym (hd inp)"
  by (auto simp: follow_def is_sym_def)

lemma lower_paren [simp]: "lower c = CHR ''('' \<longleftrightarrow> c = CHR ''(''" "lower c = CHR '')'' \<longleftrightarrow> c = CHR '')''"
  "lower c = CHR '','' \<longleftrightarrow> c = CHR '',''"
  by (auto simp: lower_def char_of_eq_iff take_bit_nat_eq_self split: if_splits)

lemma match_not:
  assumes "map lower (take 3 x) \<noteq> ''not''" "inp = [] \<or> hd inp \<in> {CHR '' '', CHR '')'', CHR '','', CHR ''(''}"
  shows "match_word ''not'' (x @ inp) = None"
proof -
  have head: "match_word (c # cs) inp = None" if "c \<in> set ''not''" for c cs
    using assms(2) that by (cases inp) auto
  show ?thesis
  proof (cases x)
    case (Cons a as)
    then show ?thesis using assms(1) head
      by (cases as; cases "tl as") (auto simp: head split: list.splits)
  qed (use head in simp)
qed

text \<open>Leading blanks do not matter to an operand.\<close>

lemma pKeyword_ws [simp]: "pKeyword (CHR '' '' # inp) kws = pKeyword inp kws"
  by (simp add: pKeyword_def)

lemma pExprAtom_ws [simp]: "pExprAtom n (CHR '' '' # inp) = pExprAtom n inp"
  by (cases n) (simp_all add: pNum_def split: option.split)

lemma takeWhile_follow:
  assumes "list_all P xs" "inp = [] \<or> \<not> P (hd inp)"
  shows "takeWhile P (xs @ inp) = xs" "dropWhile P (xs @ inp) = inp"
  using assms by (induction xs) (auto, (cases inp; simp)+)

lemma atom_Num:
  assumes "printable (Num neg ds)" "follow inp"
  shows "pExprAtom (Suc n) (text_of (Num neg ds) @ inp) = Some (node_of (Num neg ds), inp)"
proof -
  obtain d ds' where ds: "ds = d # ds'" "is_digit d" using assms(1) by (cases ds) auto
  have d: "\<not> is_ws d" "d \<noteq> CHR ''-''" "d \<noteq> CHR ''(''" using is_sym_not_ws [OF is_digit_sym [OF ds(2)]] by auto
  have skip: "skipComments (text_of (Num neg ds) @ inp) = text_of (Num neg ds) @ inp" using ds d by simp
  have no: "lower (hd (text_of (Num neg ds))) \<noteq> CHR ''n''" using ds by (auto simp: lower_def is_digit_def)
  have "inp = [] \<or> \<not> is_digit (hd inp)" using follow_no_sym [OF assms(2)] is_digit_sym by blast
  then have tw: "takeWhile is_digit (ds @ inp) = ds" "dropWhile is_digit (ds @ inp) = inp"
    using takeWhile_follow [of is_digit ds inp] assms(1) by simp_all
  have "pNum (text_of (Num neg ds) @ inp) = (Some (ParseInt neg ds), inp)"
    unfolding pNum_def skip Let_def using tw ds(1) d by (cases neg) simp_all
  moreover have "pKeyword (text_of (Num neg ds) @ inp) [''not''] = None" "pKeyword (text_of (Num neg ds) @ inp) [''(''] = None"
    unfolding pKeyword_def skip using ds d no by (cases neg; simp)+
  ultimately show ?thesis by simp
qed

lemma str_body_escape: "str_body CHR 0x27 (escape s @ CHR 0x27 # inp) = Some (s, inp)"
  by (induction s) auto

lemma atom_Lit: "pExprAtom (Suc n) (text_of (Lit s) @ inp) = Some (node_of (Lit s), inp)"
  using str_body_escape [of s inp] by (simp add: pKeyword_def pNum_def pStr_def is_digit_def)

lemma plain_name_scan:
  assumes "plain_name x" "inp = [] \<or> hd inp \<in> {CHR '' '', CHR '')'', CHR '','', CHR ''(''}"
  shows "pKeyword (x @ inp) [''not''] = None" "pKeyword (x @ inp) [''(''] = None" "pNum (x @ inp) = (None, x @ inp)"
    "pStr (x @ inp) = (None, x @ inp)" "pMustSym (x @ inp) = (x, inp)"
proof -
  obtain c cs where x: "x = c # cs" "is_sym c" "\<not> is_digit c" using assms(1) by (cases x) (auto simp: plain_name_def)
  note c = is_sym_not_ws [OF x(2)]
  have skip: "skipComments (x @ inp) = x @ inp" using x c by simp
  have "match_word ''not'' (x @ inp) = None" using match_not [of x inp] assms by (auto simp: plain_name_def)
  then show "pKeyword (x @ inp) [''not''] = None" unfolding pKeyword_def skip using x c by simp
  show "pKeyword (x @ inp) [''(''] = None" unfolding pKeyword_def skip using x c by simp
  show "pNum (x @ inp) = (None, x @ inp)" unfolding pNum_def skip Let_def using x c by simp
  show "pStr (x @ inp) = (None, x @ inp)" unfolding pStr_def skip Let_def using x c by simp
  have "inp = [] \<or> \<not> is_sym (hd inp)" using assms(2) by (auto simp: is_sym_def)
  then show "pMustSym (x @ inp) = (x, inp)"
    unfolding pMustSym_def skip Let_def using takeWhile_follow [of is_sym x inp] assms(1) by (simp add: plain_name_def)
qed

lemma atom_Name:
  assumes "plain_name x" "follow inp"
  shows "pExprAtom (Suc n) (x @ inp) = Some (QLNode QLIdent 0 x [], inp)"
proof -
  have i: "inp = [] \<or> hd inp \<in> {CHR '' '', CHR '')'', CHR '','', CHR ''(''}" "pKeyword inp [''(''] = None"
    using assms(2) by (auto simp: follow_def pKeyword_def)
  have "x \<noteq> []" using assms(1) by (simp add: plain_name_def)
  then show ?thesis using plain_name_scan [OF assms(1) i(1)] i(2) by (simp add: pName_def)
qed

text \<open>An operand on its own is an expression at every precedence.\<close>

lemma chain_none [simp]: "operator inp = None \<Longrightarrow> 0 < n \<Longrightarrow> chain operator f n left inp = Some (left, inp)"
  by (cases n) auto

lemma operand_or:
  assumes "atom inp = Some (e, r)" "stop r" "0 < n"
  shows "pExprOr atom n inp = Some (e, r)"
  using assms ops_stop [OF assms(2)]
  by (simp add: pExprOr_def pExprAnd_def pExprCmp_def pExprAdd_def pExprMul_def)

text \<open>Two operands and an operator of any precedence.\<close>

lemma binary_or:
  assumes "atom inp = Some (l, tail b i)" "atom (CHR '' '' # i) = Some (r, q)" "stop q" "1 < n"
  shows "pExprOr atom n inp = Some (binary (op_node b) l r, q)"
proof -
  obtain m where n: "n = Suc (Suc m)"
  proof
    show "n = Suc (Suc (n - 2))" using assms(4) by simp
  qed
  consider "level b = 1" | "level b = 2" | "level b = 3" | "level b = 4" | "level b = 5"
    by (cases b) (simp_all add: level_def)
  then show ?thesis unfolding n using assms(1-3) ops_stop [OF assms(3)] ops_tail [of b i]
    by cases (simp_all add: pExprOr_def pExprAnd_def pExprCmp_def pExprAdd_def pExprMul_def)
qed

lemma text_of_head:
  assumes "printable e"
  shows "\<exists>c cs. text_of e = c # cs \<and> c \<noteq> CHR '')'' \<and> \<not> is_ws c \<and> (c \<noteq> CHR ''-'' \<or> cs = [] \<or> hd cs \<noteq> CHR ''-'')"
proof (cases e)
  case (Num neg ds)
  then show ?thesis using assms is_sym_not_ws is_digit_sym by (cases ds) auto
next
  case (Name x)
  then show ?thesis using assms is_sym_not_ws by (cases x) (auto simp: plain_name_def)
next
  case (Call f es)
  then show ?thesis using assms is_sym_not_ws by (cases f) (auto simp: plain_name_def)
qed auto

text \<open>Arguments separated by commas.\<close>

lemma pArgs_commas:
  assumes "es \<noteq> []" "length es \<le> n" "stop inp" "pKeyword inp ['',''] = None"
    "\<And>e i. e \<in> set es \<Longrightarrow> stop i \<Longrightarrow> f (text_of e @ i) = Some (node_of e, i)"
  shows "pArgs f n (commas (map text_of es) @ inp) = Some (map node_of es, inp)"
  using assms
proof (induction es arbitrary: n rule: induct_list012)
  case (2 e)
  then show ?case by (cases n) auto
next
  case (3 e e' es)
  obtain m where n: "n = Suc m" using "3.prems"(2) by (cases n) auto
  have "pArgs f m (commas (map text_of (e' # es)) @ inp) = Some (map node_of (e' # es), inp)"
    using 3 n by (intro "3.IH"(2)) auto
  moreover have "f (text_of e @ '','' @ commas (map text_of (e' # es)) @ inp) =
      Some (node_of e, '','' @ commas (map text_of (e' # es)) @ inp)"
    using "3.prems"(5) [of e "'','' @ commas (map text_of (e' # es)) @ inp"] by (simp add: stop_def)
  ultimately show ?case unfolding n by (simp add: pKeyword_def)
qed simp

lemma commas_length: "x \<in> set xs \<Longrightarrow> length x \<le> length (commas xs)"
  by (induction xs rule: commas.induct) auto

lemma commas_count: "(\<forall>x \<in> set xs. x \<noteq> []) \<Longrightarrow> length xs \<le> length (commas xs)"
proof (induction xs rule: commas.induct)
  case (3 x y ys)
  then show ?case by (cases x) auto
next
  case (2 x)
  then show ?case by (cases x) auto
qed simp

section \<open>Expressions read back\<close>

lemma pExpect_paren [simp]: "pExpect (CHR '')'' # inp) '')'' = (True, inp)"
  by (simp add: pExpect_def pKeyword_def)

lemma atom_text:
  assumes "printable e" "follow inp" "length (text_of e) \<le> n"
  shows "pExprAtom n (text_of e @ inp) = Some (node_of e, inp)"
  using assms
proof (induction e arbitrary: n inp)
  case (Num neg ds)
  then obtain m where "n = Suc m" by (cases n) (auto split: if_splits)
  then show ?case using atom_Num [OF Num.prems(1,2)] by simp
next
  case (Lit s)
  then obtain m where "n = Suc m" by (cases n) auto
  then show ?case using atom_Lit by simp
next
  case (Name x)
  then obtain m where "n = Suc m" by (cases n) (auto simp: plain_name_def)
  then show ?case using atom_Name [of x inp m] Name.prems by simp
next
  case (Negate e)
  then obtain m where n: "n = Suc m" "length (text_of e) \<le> m" by (cases n) auto
  have "pExprAtom m (text_of e @ inp) = Some (node_of e, inp)" using Negate n by simp
  then show ?case unfolding n(1) by (simp add: pKeyword_def)
next
  case (Bin b l r)
  then obtain m where n: "n = Suc m" "length (text_of l) \<le> m" "length (text_of r) \<le> m" "1 < m" by (cases n) auto
  let ?q = "CHR '')'' # inp"
  have "pExprAtom m (text_of l @ tail b (text_of r @ ?q)) = Some (node_of l, tail b (text_of r @ ?q))"
    using Bin n by simp
  moreover have "pExprAtom m (CHR '' '' # text_of r @ ?q) = Some (node_of r, ?q)"
    using Bin n follow_stop [of ?q] by (simp add: stop_def)
  ultimately have "pExprOr (pExprAtom m) m (text_of l @ tail b (text_of r @ ?q)) = Some (node_of (Bin b l r), ?q)"
    using n(4) by (simp add: binary_or stop_def)
  then show ?case unfolding n(1) by (simp add: pKeyword_def tail_def)
next
  case (Call f es)
  then obtain m where n: "n = Suc m" "length (commas (map text_of es)) \<le> m" "0 < m" by (cases n) (auto simp: plain_name_def)
  let ?i = "commas (map text_of es) @ CHR '')'' # inp"
  note scan = plain_name_scan [of f "CHR ''('' # ?i"]
  have f: "plain_name f" "f \<noteq> []" using Call.prems(1) by (simp_all add: plain_name_def)
  have paren: "pKeyword (CHR ''('' # ?i) [''(''] = Some ?i" by (simp add: pKeyword_def)
  show ?case
  proof (cases "es = []")
    case True
    then have "pKeyword ?i ['')''] = Some inp" by (simp add: pKeyword_def)
    then show ?thesis unfolding n(1) using scan f paren True by (simp add: pName_def)
  next
    case False
    have pr: "\<forall>e \<in> set es. printable e" using Call.prems(1) by (simp add: list_all_iff)
    have "length es \<le> m"
      using commas_count [of "map text_of es"] n(2) text_of_head pr by fastforce
    moreover have "pExprOr (pExprAtom m) m (text_of e @ i) = Some (node_of e, i)" if "e \<in> set es" "stop i" for e i
    proof (rule operand_or [OF _ that(2) n(3)])
      have "length (text_of e) \<le> m" using commas_length [of "text_of e" "map text_of es"] that(1) n(2) by simp
      then show "pExprAtom m (text_of e @ i) = Some (node_of e, i)"
        using Call.IH [of e i m] that pr follow_stop by blast
    qed
    ultimately have args: "pArgs (pExprOr (pExprAtom m) m) m ?i = Some (map node_of es, CHR '')'' # inp)"
      using False by (intro pArgs_commas) (simp_all add: stop_def pKeyword_def)
    obtain e es' where "es = e # es'" using False by (cases es) auto
    then obtain c cs where "?i = c # cs" "c \<noteq> CHR '')''" "\<not> is_ws c" "c \<noteq> CHR ''-'' \<or> cs = [] \<or> hd cs \<noteq> CHR ''-''"
      using text_of_head [of e] pr by (cases es') (fastforce simp: hd_append)+
    then have "pKeyword ?i ['')''] = None" by (simp add: pKeyword_def)
    then show ?thesis unfolding n(1) using scan f paren args by (simp add: pName_def)
  qed
qed

lemma or_text:
  assumes "printable e" "stop inp" "length (text_of e) \<le> n"
  shows "pExprOr (pExprAtom n) n (text_of e @ inp) = Some (node_of e, inp)"
proof (rule operand_or [OF _ assms(2)])
  show "pExprAtom n (text_of e @ inp) = Some (node_of e, inp)" using assms follow_stop by (intro atom_text)
  show "0 < n" using assms(3) text_of_head [OF assms(1)] by auto
qed

lemma parse_or_text:
  assumes "printable e" "stop inp"
  shows "parse_or (text_of e @ inp) = Some (node_of e, inp)"
  unfolding parse_or_def using assms by (intro or_text) simp_all

section \<open>Statements read back\<close>

definition symbol :: "string \<Rightarrow> bool" where
  "symbol x \<longleftrightarrow> x \<noteq> [] \<and> list_all is_sym x"

definition insert_text :: "string \<Rightarrow> string list \<Rightarrow> sexpr list \<Rightarrow> string" where
  "insert_text t cols es =
     ''insert into '' @ t @ '' ('' @ commas cols @ '') values ('' @ commas (map text_of es) @ '')''"

lemma pMustSym_symbol:
  assumes "symbol x" "inp = [] \<or> \<not> is_sym (hd inp)"
  shows "pMustSym (x @ inp) = (x, inp)"
proof -
  obtain c cs where x: "x = c # cs" "is_sym c" using assms(1) by (cases x) (auto simp: symbol_def)
  have "skipComments (x @ inp) = x @ inp" using x is_sym_not_ws [OF x(2)] by simp
  then show ?thesis
    unfolding pMustSym_def Let_def using takeWhile_follow [of is_sym x inp] assms by (simp add: symbol_def)
qed

lemma pMustSym_ws [simp]: "pMustSym (CHR '' '' # inp) = pMustSym inp"
  by (simp add: pMustSym_def)

lemma pExpect_ws: "pExpect (CHR '' '' # inp) kw = (case pKeyword inp [kw] of Some inp \<Rightarrow> (True, inp) | None \<Rightarrow> (False, CHR '' '' # inp))"
  by (simp add: pExpect_def)

lemma sym_list_commas:
  assumes "xs \<noteq> []" "\<forall>x \<in> set xs. symbol x"
  shows "sym_list (commas xs @ CHR '')'' # inp) = (xs, CHR '')'' # inp)"
  using assms
proof (induction xs rule: induct_list012)
  case (2 x)
  have "pMustSym (x @ CHR '')'' # inp) = (x, CHR '')'' # inp)" using 2 by (intro pMustSym_symbol) (auto simp: is_sym_def)
  then show ?case by (subst sym_list.simps) (simp add: pKeyword_def)
next
  case (3 x y ys)
  let ?r = "'','' @ commas (y # ys) @ CHR '')'' # inp"
  have "pMustSym (x @ ?r) = (x, ?r)" using "3.prems" by (intro pMustSym_symbol) (auto simp: is_sym_def)
  moreover have "sym_list (commas (y # ys) @ CHR '')'' # inp) = (y # ys, CHR '')'' # inp)" using 3 by simp
  moreover have "pKeyword ?r ['',''] = Some (commas (y # ys) @ CHR '')'' # inp)" by (simp add: pKeyword_def)
  ultimately show ?case by (subst sym_list.simps) simp
qed simp

lemma heads_insert: "first_kws (''insert into '' @ inp) heads = Some (HInsert, CHR '' '' # inp)"
  by (simp add: heads_def pKeyword_def lower_def is_ws_def skipWS_def)

lemma expect_values:
  "snd (pExpect (snd (pExpect ('' values ('' @ inp) ''values'')) ''('') = inp"
  by (simp add: pExpect_ws pKeyword_def lower_def is_ws_def)

lemma pInsert_text:
  assumes "symbol t" "cols \<noteq> []" "\<forall>x \<in> set cols. symbol x" "es \<noteq> []" "\<forall>e \<in> set es. printable e"
  shows "pInsert (CHR '' '' # t @ '' ('' @ commas cols @ '') values ('' @ commas (map text_of es) @ '')'') =
    Some (\<lparr>ins_Table = t, ins_Names = cols, ins_Values = map node_of es\<rparr>, [])"
proof -
  let ?args = "commas (map text_of es) @ '')''"
  let ?vals = "'' values ('' @ ?args"
  let ?r = "'' ('' @ commas cols @ CHR '')'' # ?vals"
  have 1: "pMustSym (t @ ?r) = (t, ?r)" using assms(1) by (intro pMustSym_symbol) (auto simp: is_sym_def)
  have 2: "pKeyword ?r [''(''] = Some (commas cols @ CHR '')'' # ?vals)" by (simp add: pKeyword_def)
  note 3 = sym_list_commas [OF assms(2,3), of ?vals]
  note 4 = expect_values [of ?args]
  have "\<forall>x \<in> set (map text_of es). x \<noteq> []" using assms(5) text_of_head by fastforce
  then have "length es \<le> Suc (length ?args)" using commas_count [of "map text_of es"] by simp
  then have 5: "pArgs parse_or (Suc (length ?args)) ?args = Some (map node_of es, '')'')"
    using assms(4,5) parse_or_text by (intro pArgs_commas) (auto simp: stop_def pKeyword_def)
  have "pInsert (CHR '' '' # t @ ?r) = Some (\<lparr>ins_Table = t, ins_Names = cols, ins_Values = map node_of es\<rparr>, [])"
    by (simp only: pInsert_def Let_def pMustSym_ws 1 2 3 4 5 prod.case option.case snd_conv pExpect_paren Option.bind.bind_lunit)
  then show ?thesis by simp
qed

section \<open>Properties\<close>

text \<open>C18. The parser returns on every input: its loops and its recursion always end, and the statement it returns is followed
  by an error only where input is left over.\<close>

theorem Parse_returns:
  "\<exists>s r. pStmt inp = Some (s, r) \<and> Parse inp = Some (if skipWS r = [] then Inr s else Inl (rest_text (skipWS r)))"
proof -
  obtain s r where "pStmt inp = Some (s, r)" using pStmt_total by blast
  then show ?thesis by (intro exI [of _ s] exI [of _ r]) (simp add: Parse_def)
qed

text \<open>C17. Printing and parsing expressions: the text of every expression built from numbers, strings, names, function calls,
  \<^verbatim>\<open>not\<close> and the fourteen binary operators, with an operand in parentheses wherever one is nested, is parsed into the
  syntax tree it was printed from, and what follows it is left.\<close>

theorem expression_roundtrip:
  assumes "printable e" "stop inp"
  shows "parse_or (text_of e @ inp) = Some (node_of e, inp)"
  using assms by (rule parse_or_text)

theorem expression_roundtrip_witness:
  "parse_or ''((a + -12) * not f(b,'x'))'' = Some (binary QLMul (binary QLAdd (ident ''a'') (QLNode QLI64 (-12) [] []))
     (QLNode QLNot 0 [] [QLNode QLFunc 0 ''f'' [ident ''b'', QLNode QLStr 0 ''x'' []]]), [])"
  using expression_roundtrip [of "Bin OpMul (Bin OpAdd (Name ''a'') (Num True ''12'')) (Negate (Call ''f'' [Name ''b'', Lit ''x'']))" "[]"]
  by (simp add: stop_def plain_name_def is_sym_def is_digit_def lower_def ParseInt_def digits_val_def ident_def)

text \<open>An \<^verbatim>\<open>INSERT\<close> statement with its columns and values is parsed into exactly that table, those columns and the syntax
  trees of those values.\<close>

theorem insert_roundtrip:
  assumes "symbol t" "cols \<noteq> []" "\<forall>x \<in> set cols. symbol x" "es \<noteq> []" "\<forall>e \<in> set es. printable e"
  shows "Parse (insert_text t cols es) = Some (Inr (SInsert \<lparr>ins_Table = t, ins_Names = cols, ins_Values = map node_of es\<rparr>))"
proof -
  have "first_kws (insert_text t cols es) heads =
    Some (HInsert, CHR '' '' # t @ '' ('' @ commas cols @ '') values ('' @ commas (map text_of es) @ '')'')"
    unfolding insert_text_def by (rule heads_insert)
  then show ?thesis using pInsert_text [OF assms] by (simp add: Parse_def pStmt_def)
qed

theorem insert_roundtrip_witness:
  "Parse ''insert into t (id,v) values (7,'x')'' = Some (Inr (SInsert \<lparr>ins_Table = ''t'', ins_Names = [''id'', ''v''],
     ins_Values = [QLNode QLI64 7 [] [], QLNode QLStr 0 ''x'' []]\<rparr>))"
  using insert_roundtrip [of "''t''" "[''id'', ''v'']" "[Num False ''7'', Lit ''x'']"]
  by (simp add: symbol_def is_sym_def is_digit_def insert_text_def ParseInt_def digits_val_def)

end
