(* ===== verification/Transaction.thy ===== *)
theory Transaction
  imports KV "HOL-Library.AList" "HOL-Library.Multiset"
begin

text \<open>
  The transaction manager of \<^verbatim>\<open>internal/transaction/tx.go\<close>, over the \<open>Storage\<close> interface of
  \<^verbatim>\<open>internal/kvstore/interface.go\<close>. An interface value is a record of operations on a state. A map is an association
  list; the order in which Go iterates it is a parameter of \<open>Commit\<close>, any permutation. The contract of a storage is the
  locale \<open>storage_spec\<close>; the tree over the in-memory page store satisfies it. Interleavings of transactions are the
  step relation \<open>reach\<close>.
\<close>

record 's storage =
  s_Get :: "'s \<Rightarrow> bytes \<Rightarrow> bytes option option"
  s_Set :: "'s \<Rightarrow> bytes \<Rightarrow> bytes \<Rightarrow> (bool \<times> 's) option"
  s_Del :: "'s \<Rightarrow> bytes \<Rightarrow> (bool \<times> bool \<times> 's) option"
  s_Seek :: "'s \<Rightarrow> bytes \<Rightarrow> BIter option"
  s_TreeRoot :: "'s \<Rightarrow> u64"
  s_PageRead :: "'s \<Rightarrow> u64 \<Rightarrow> bytes option"

text \<open>The key-value store as a \<open>Storage\<close>; the flag of \<open>s_Set\<close> and the second of \<open>s_Del\<close> is the error.\<close>

definition kv_storage :: "kv_env \<Rightarrow> KV storage" where
  "kv_storage E = \<lparr>s_Get = kv_Get, s_Set = (\<lambda>db k v. map_option (\<lambda>(e, db). (e \<noteq> None, db)) (kv_Set E db k v)),
     s_Del = (\<lambda>db k. map_option (\<lambda>(d, e, db). (d, e \<noteq> None, db)) (kv_Del E db k)),
     s_Seek = kv_Seek, s_TreeRoot = TreeRoot, s_PageRead = PageRead\<rparr>"

definition ReadCommitted :: int where "ReadCommitted = 1"
definition SnapshotIsolation :: int where "SnapshotIsolation = 2"
definition Serializable :: int where "Serializable = 3"

record KeyRange =
  Start :: bytes
  Stop :: bytes

record CommittedTX =
  Version :: u64
  Writes :: "KeyRange list"

text \<open>A pending value is \<open>None\<close> where the source has \<^verbatim>\<open>nil\<close>: the key is to be deleted.\<close>

record Tx =
  tx_version :: u64
  isolation :: int
  pending_writes :: "(bytes \<times> bytes option) list"
  reads :: "KeyRange list"
  snapshot_Root :: u64
  committed :: bool
  aborted :: bool

record 's Manager =
  mgr_kv :: 's
  mgr_version :: u64
  ongoing :: "u64 list"
  history :: "CommittedTX list"
  minVer :: u64

datatype tx_error = TxFinished | SerializationConflict | CommitDel | CommitSet

definition NewManager :: "'s \<Rightarrow> 's Manager" where
  "NewManager kv = \<lparr>mgr_kv = kv, mgr_version = 0, ongoing = [], history = [], minVer = 0\<rparr>"

definition Begin :: "'s storage \<Rightarrow> 's Manager \<Rightarrow> int \<Rightarrow> Tx \<times> 's Manager" where
  "Begin S m lvl =
     (let m = m\<lparr>mgr_version := mgr_version m + 1\<rparr>;
          ver = mgr_version m;
          m = m\<lparr>ongoing := List.insert ver (ongoing m)\<rparr>
      in (\<lparr>tx_version = ver, isolation = lvl, pending_writes = [], reads = [], snapshot_Root = s_TreeRoot S (mgr_kv m),
           committed = False, aborted = False\<rparr>, m))"

section \<open>Operations of a transaction\<close>

definition Tx_Get :: "'s storage \<Rightarrow> 's \<Rightarrow> Tx \<Rightarrow> bytes \<Rightarrow> (bytes option \<times> Tx) option" where
  "Tx_Get S kv tx key =
     (let tx = tx\<lparr>reads := reads tx @ [\<lparr>Start = key, Stop = key\<rparr>]\<rparr> in
      case map_of (pending_writes tx) key of
        Some val \<Rightarrow> Some (val, tx)
      | None \<Rightarrow> do { v \<leftarrow> s_Get S kv key; Some (v, tx) })"

definition Tx_Set :: "Tx \<Rightarrow> bytes \<Rightarrow> bytes option \<Rightarrow> Tx" where
  "Tx_Set tx key val = tx\<lparr>pending_writes := AList.update key val (pending_writes tx)\<rparr>"

definition Tx_Del :: "Tx \<Rightarrow> bytes \<Rightarrow> Tx" where
  "Tx_Del tx key = tx\<lparr>pending_writes := AList.update key None (pending_writes tx)\<rparr>"

definition Tx_Seek :: "'s storage \<Rightarrow> 's \<Rightarrow> Tx \<Rightarrow> bytes \<Rightarrow> (BIter \<times> Tx) option" where
  "Tx_Seek S kv tx key =
     (let tx = tx\<lparr>reads := reads tx @ [\<lparr>Start = key, Stop = []\<rparr>]\<rparr> in
      do { it \<leftarrow> s_Seek S kv key; Some (it, tx) })"

section \<open>Conflicts and history\<close>

definition versionBefore :: "u64 \<Rightarrow> u64 \<Rightarrow> bool" where
  "versionBefore a b \<longleftrightarrow> a < b"

definition keyRangeOverlap :: "KeyRange \<Rightarrow> KeyRange \<Rightarrow> bool" where
  "keyRangeOverlap a b =
     (if length (Stop b) > 0 \<and> CompareKeys (Start a) (Stop b) > 0 then False
      else if length (Stop a) > 0 \<and> CompareKeys (Start b) (Stop a) > 0 then False
      else True)"

fun rangesOverlap :: "KeyRange list \<Rightarrow> KeyRange list \<Rightarrow> bool" where
  "rangesOverlap [] ws = False"
| "rangesOverlap (r # rs) ws = (if list_ex (keyRangeOverlap r) ws then True else rangesOverlap rs ws)"

text \<open>The loop of \<open>detectConflicts\<close> over the history, newest commit first.\<close>

fun detectConflicts_loop :: "Tx \<Rightarrow> CommittedTX list \<Rightarrow> bool" where
  "detectConflicts_loop tx [] = False"
| "detectConflicts_loop tx (h # hs) =
     (if \<not> versionBefore (tx_version tx) (Version h) then False
      else if rangesOverlap (reads tx) (Writes h) then True
      else detectConflicts_loop tx hs)"

definition detectConflicts :: "'s Manager \<Rightarrow> Tx \<Rightarrow> bool" where
  "detectConflicts m tx = detectConflicts_loop tx (rev (history m))"

definition updateMinVer :: "'s Manager \<Rightarrow> 's Manager" where
  "updateMinVer m = m\<lparr>minVer := fold (\<lambda>v mn. if v < mn then v else mn) (ongoing m) (mgr_version m)\<rparr>"

text \<open>The index of the first entry that is kept: 0 also where no entry qualifies.\<close>

fun trim_cut :: "u64 \<Rightarrow> nat \<Rightarrow> CommittedTX list \<Rightarrow> nat" where
  "trim_cut mv i [] = 0"
| "trim_cut mv i (h # hs) = (if Version h \<ge> mv then i else trim_cut mv (Suc i) hs)"

definition trimHistory :: "'s Manager \<Rightarrow> 's Manager" where
  "trimHistory m = m\<lparr>history := drop (trim_cut (minVer m) 0 (history m)) (history m)\<rparr>"

section \<open>Commit and abort\<close>

text \<open>The loop that applies the pending writes: the error and the store after it.\<close>

fun commit_writes :: "'s storage \<Rightarrow> 's \<Rightarrow> (bytes \<times> bytes option) list \<Rightarrow> (tx_error option \<times> 's) option" where
  "commit_writes S kv [] = Some (None, kv)"
| "commit_writes S kv ((k, None) # ws) = do {
     (_, err, kv) \<leftarrow> s_Del S kv k;
     (if err then Some (Some CommitDel, kv) else commit_writes S kv ws)
   }"
| "commit_writes S kv ((k, Some v) # ws) = do {
     (err, kv) \<leftarrow> s_Set S kv k v;
     (if err then Some (Some CommitSet, kv) else commit_writes S kv ws)
   }"

abbreviation finish :: "'s Manager \<Rightarrow> Tx \<Rightarrow> 's Manager" where
  "finish m tx \<equiv> m\<lparr>ongoing := filter (\<lambda>v. v \<noteq> tx_version tx) (ongoing m)\<rparr>"

type_synonym map_iter = "(bytes \<times> bytes option) list \<Rightarrow> (bytes \<times> bytes option) list"

definition Commit ::
  "'s storage \<Rightarrow> map_iter \<Rightarrow> map_iter \<Rightarrow> 's Manager \<Rightarrow> Tx \<Rightarrow> (tx_error option \<times> 's Manager \<times> Tx) option" where
  "Commit S iter1 iter2 m tx =
     (if committed tx \<or> aborted tx then Some (Some TxFinished, m, tx)
      else if isolation tx \<ge> Serializable \<and> detectConflicts m tx then
        (let tx = tx\<lparr>aborted := True\<rparr> in Some (Some SerializationConflict, finish m tx, tx))
      else if pending_writes tx = [] then
        (let tx = tx\<lparr>committed := True\<rparr> in Some (None, updateMinVer (finish m tx), tx))
      else do {
        let writes = map (\<lambda>(k, _). \<lparr>Start = k, Stop = k\<rparr>) (iter1 (pending_writes tx));
        let m = m\<lparr>history := history m @ [\<lparr>Version = tx_version tx, Writes = writes\<rparr>]\<rparr>;
        (err, kv) \<leftarrow> commit_writes S (mgr_kv m) (iter2 (pending_writes tx));
        let m = m\<lparr>mgr_kv := kv\<rparr>;
        (if err \<noteq> None then Some (err, m, tx)
         else
           let tx = tx\<lparr>committed := True\<rparr> in
           Some (None, trimHistory (updateMinVer (finish m tx)), tx))
      })"

definition Abort :: "'s Manager \<Rightarrow> Tx \<Rightarrow> 's Manager \<times> Tx" where
  "Abort m tx =
     (if committed tx \<or> aborted tx then (m, tx)
      else
        let tx = tx\<lparr>aborted := True\<rparr> in (updateMinVer (finish m tx), tx))"

section \<open>A transaction as a client runs it\<close>

datatype tx_op = OpGet bytes | OpSet bytes bytes | OpDel bytes

text \<open>The calls of a client on a transaction, with the values its reads return.\<close>

fun tx_ops :: "'s storage \<Rightarrow> 's \<Rightarrow> Tx \<Rightarrow> tx_op list \<Rightarrow> (bytes option list \<times> Tx) option" where
  "tx_ops S kv tx [] = Some ([], tx)"
| "tx_ops S kv tx (OpGet k # ops) = do {
     (v, tx) \<leftarrow> Tx_Get S kv tx k;
     (vs, tx) \<leftarrow> tx_ops S kv tx ops;
     Some (v # vs, tx)
   }"
| "tx_ops S kv tx (OpSet k v # ops) = tx_ops S kv (Tx_Set tx k (Some v)) ops"
| "tx_ops S kv tx (OpDel k # ops) = tx_ops S kv (Tx_Del tx k) ops"

text \<open>What the same calls do on a map.\<close>

fun spec_ops :: "tx_op list \<Rightarrow> (bytes \<Rightarrow> bytes option) \<Rightarrow> bytes option list \<times> (bytes \<Rightarrow> bytes option)" where
  "spec_ops [] c = ([], c)"
| "spec_ops (OpGet k # ops) c = (let (vs, c') = spec_ops ops c in (c k # vs, c'))"
| "spec_ops (OpSet k v # ops) c = spec_ops ops (c(k \<mapsto> v))"
| "spec_ops (OpDel k # ops) c = spec_ops ops (c(k := None))"

fun fit_op :: "(bytes \<Rightarrow> bytes option \<Rightarrow> bool) \<Rightarrow> tx_op \<Rightarrow> bool" where
  "fit_op fit (OpGet k) = True"
| "fit_op fit (OpSet k v) = fit k (Some v)"
| "fit_op fit (OpDel k) = fit k None"

text \<open>A whole transaction with no other step in between.\<close>

definition tx_alone ::
  "'s storage \<Rightarrow> map_iter \<Rightarrow> map_iter \<Rightarrow> 's Manager \<Rightarrow> int \<Rightarrow> tx_op list \<Rightarrow>
   (bytes option list \<times> tx_error option \<times> 's Manager) option" where
  "tx_alone S iter1 iter2 m lvl ops =
     (let (tx, m) = Begin S m lvl in do {
        (vs, tx) \<leftarrow> tx_ops S (mgr_kv m) tx ops;
        (err, m, tx) \<leftarrow> Commit S iter1 iter2 m tx;
        Some (vs, err, m)
      })"

text \<open>Two transactions that read and write the same key; the one that began first commits first.\<close>

definition two_writers ::
  "'s storage \<Rightarrow> map_iter \<Rightarrow> map_iter \<Rightarrow> 's Manager \<Rightarrow> bytes \<Rightarrow> bytes \<Rightarrow> bytes \<Rightarrow>
   (bytes option list \<times> tx_error option \<times> bytes option list \<times> tx_error option \<times> 's Manager) option" where
  "two_writers S iter1 iter2 m k v w =
     (let (t1, m) = Begin S m Serializable; (t2, m) = Begin S m Serializable in do {
        (r1, t1) \<leftarrow> tx_ops S (mgr_kv m) t1 [OpGet k, OpSet k v];
        (r2, t2) \<leftarrow> tx_ops S (mgr_kv m) t2 [OpGet k, OpSet k w];
        (e1, m, t1) \<leftarrow> Commit S iter1 iter2 m t1;
        (e2, m, t2) \<leftarrow> Commit S iter1 iter2 m t2;
        Some (r1, e1, r2, e2, m)
      })"

section \<open>The contract of a storage\<close>

text \<open>
  \<open>content\<close> is the map the storage stands for, \<open>ready n\<close> says that it can take \<open>n\<close> more updates, and \<open>fit\<close> which
  updates it can take.
\<close>

fun fit_write :: "(bytes \<Rightarrow> bytes option \<Rightarrow> bool) \<Rightarrow> bytes \<times> bytes option \<Rightarrow> bool" where
  "fit_write fit (k, v) = fit k v"

definition apply_writes :: "(bytes \<times> bytes option) list \<Rightarrow> (bytes \<Rightarrow> bytes option) \<Rightarrow> bytes \<Rightarrow> bytes option" where
  "apply_writes ws c k = (case map_of ws k of None \<Rightarrow> c k | Some v \<Rightarrow> v)"

lemma apply_writes_Nil [simp]: "apply_writes [] c = c"
  by (rule ext) (simp add: apply_writes_def)

locale storage_spec =
  fixes S :: "'s storage"
    and content :: "'s \<Rightarrow> bytes \<Rightarrow> bytes option"
    and ready :: "nat \<Rightarrow> 's \<Rightarrow> bool"
    and fit :: "bytes \<Rightarrow> bytes option \<Rightarrow> bool"
  assumes fewer: "ready n s \<Longrightarrow> i \<le> n \<Longrightarrow> ready i s"
    and get: "ready n s \<Longrightarrow> s_Get S s k = Some (content s k)"
    and set: "ready (Suc n) s \<Longrightarrow> fit k (Some v) \<Longrightarrow>
      \<exists>s'. s_Set S s k v = Some (False, s') \<and> ready n s' \<and> content s' = (content s)(k \<mapsto> v)"
    and del: "ready (Suc n) s \<Longrightarrow> fit k None \<Longrightarrow>
      \<exists>s'. s_Del S s k = Some (content s k \<noteq> None, False, s') \<and> ready n s' \<and> content s' = (content s)(k := None)"
begin

lemma commit_writes_content:
  assumes "ready (n + length ws) s" "\<forall>w \<in> set ws. fit_write fit w" "distinct (map fst ws)"
  shows "\<exists>s'. commit_writes S s ws = Some (None, s') \<and> ready n s' \<and> content s' = apply_writes ws (content s)"
  using assms
proof (induction ws arbitrary: s)
  case Nil
  then show ?case by (auto simp: apply_writes_def)
next
  case (Cons w ws)
  obtain k v where w: "w = (k, v)" by (cases w)
  have r: "ready (Suc (n + length ws)) s" "fit k v" using Cons.prems w by simp_all
  have upd: "apply_writes (w # ws) c = apply_writes ws (c(k := v))" for c
    using Cons.prems(3) w by (auto simp: apply_writes_def fun_eq_iff map_of_eq_None_iff [symmetric] split: option.splits)
  obtain s1 where s1: "ready (n + length ws) s1" "content s1 = (content s)(k := v)"
    "commit_writes S s (w # ws) = commit_writes S s1 ws"
  proof (cases v)
    case None
    then show thesis using del [OF r(1), of k] r(2) w that by auto
  next
    case (Some x)
    then show thesis using set [OF r(1), of k x] r(2) w that by auto
  qed
  obtain s' where "commit_writes S s1 ws = Some (None, s')" "ready n s'" "content s' = apply_writes ws (content s1)"
    using Cons.IH [OF s1(1)] Cons.prems(2,3) by auto
  then show ?case unfolding upd s1(2,3) by blast
qed

text \<open>\<open>Commit\<close> leaves the content a transaction saw, whatever the order in which its writes are taken.\<close>

lemma Commit_content:
  assumes "ready (n + length (pending_writes tx)) (mgr_kv m)" "\<forall>w \<in> set (pending_writes tx). fit_write fit w"
    "distinct (map fst (pending_writes tx))" "mset (iter2 (pending_writes tx)) = mset (pending_writes tx)"
    "\<not> (committed tx \<or> aborted tx)" "\<not> (isolation tx \<ge> Serializable \<and> detectConflicts m tx)"
  shows "\<exists>m'. Commit S iter1 iter2 m tx = Some (None, m', tx\<lparr>committed := True\<rparr>) \<and> ready n (mgr_kv m') \<and>
    content (mgr_kv m') = apply_writes (pending_writes tx) (content (mgr_kv m))"
proof (cases "pending_writes tx = []")
  case True
  then show ?thesis using assms by (auto simp: Commit_def Let_def updateMinVer_def apply_writes_def)
next
  case False
  let ?ws = "iter2 (pending_writes tx)"
  have ws: "set ?ws = set (pending_writes tx)" "length ?ws = length (pending_writes tx)" "distinct (map fst ?ws)"
    using assms(3,4) mset_eq_setD mset_eq_length mset_eq_imp_distinct_iff [of "map fst ?ws" "map fst (pending_writes tx)"]
    by (simp_all add: mset_map)
  obtain kv where kv: "commit_writes S (mgr_kv m) ?ws = Some (None, kv)" "ready n kv" "content kv = apply_writes ?ws (content (mgr_kv m))"
    using commit_writes_content [of n ?ws "mgr_kv m"] assms(1,2) ws by auto
  have "map_of ?ws = map_of (pending_writes tx)" using map_of_inject_set [OF ws(3) assms(3)] ws(1) by simp
  then have "apply_writes ?ws (content (mgr_kv m)) = apply_writes (pending_writes tx) (content (mgr_kv m))"
    by (simp add: apply_writes_def fun_eq_iff)
  then show ?thesis using False kv assms(5,6) by (auto simp: Commit_def Let_def updateMinVer_def trimHistory_def)
qed

lemma Tx_Get_view:
  assumes "ready n kv"
  shows "Tx_Get S kv tx k =
    Some (apply_writes (pending_writes tx) (content kv) k, tx\<lparr>reads := reads tx @ [\<lparr>Start = k, Stop = k\<rparr>]\<rparr>)"
  using get [OF assms, of k] by (auto simp: Tx_Get_def apply_writes_def Let_def split: option.split)

lemma tx_ops_view:
  assumes "ready n kv" "\<forall>q \<in> set ops. fit_op fit q" "\<forall>w \<in> set (pending_writes tx). fit_write fit w"
    "distinct (map fst (pending_writes tx))"
  shows "\<exists>vs tx'. tx_ops S kv tx ops = Some (vs, tx') \<and>
    spec_ops ops (apply_writes (pending_writes tx) (content kv)) = (vs, apply_writes (pending_writes tx') (content kv)) \<and>
    tx_version tx' = tx_version tx \<and> isolation tx' = isolation tx \<and> committed tx' = committed tx \<and> aborted tx' = aborted tx \<and>
    (\<forall>w \<in> set (pending_writes tx'). fit_write fit w) \<and> distinct (map fst (pending_writes tx')) \<and>
    length (pending_writes tx') \<le> length (pending_writes tx) + length ops"
  using assms(2-)
proof (induction ops arbitrary: tx)
  case Nil
  then show ?case by simp
next
  case (Cons q ops)
  have upd: "apply_writes (AList.update k v ws) c = (apply_writes ws c)(k := v)" for k v ws and c :: "bytes \<Rightarrow> bytes option"
    by (auto simp: apply_writes_def fun_eq_iff update_conv')
  have keep: "\<forall>w \<in> set (AList.update k v ws). fit_write fit w" if "\<forall>w \<in> set ws. fit_write fit w" "fit k v" for k v ws
    using that by (induction ws) auto
  have len: "length (AList.update k v ws) \<le> Suc (length ws)" for k v and ws :: "(bytes \<times> bytes option) list"
    by (induction ws) auto
  show ?case
  proof (cases q)
    case (OpGet k)
    then show ?thesis using Cons.IH [of "tx\<lparr>reads := reads tx @ [\<lparr>Start = k, Stop = k\<rparr>]\<rparr>"] Cons.prems Tx_Get_view [OF assms(1)]
      by (auto simp: split_beta)
  next
    case (OpSet k v)
    then show ?thesis using Cons.IH [of "Tx_Set tx k (Some v)"] Cons.prems keep [of "pending_writes tx" k "Some v"]
        len [of k "Some v" "pending_writes tx"]
      by (auto simp: Tx_Set_def upd distinct_update fun_upd_def)
  next
    case (OpDel k)
    then show ?thesis using Cons.IH [of "Tx_Del tx k"] Cons.prems keep [of "pending_writes tx" k None]
        len [of k None "pending_writes tx"]
      by (auto simp: Tx_Del_def upd distinct_update fun_upd_def)
  qed
qed

end

section \<open>The tree as a storage\<close>

definition mem_storage :: "memTest storage" where
  "mem_storage = \<lparr>s_Get = mem_get, s_Set = (\<lambda>c k v. map_option (\<lambda>c. (False, c)) (mem_add c k v)),
     s_Del = (\<lambda>c k. map_option (\<lambda>(d, c). (d, False, c)) (mem_del c k)),
     s_Seek = (\<lambda>c k. SeekLE mem_pager (store c) (tree_Root c) k), s_TreeRoot = tree_Root,
     s_PageRead = (\<lambda>c p. mem_GetPage (store c) p)\<rparr>"

definition mem_ready :: "nat \<Rightarrow> nat \<Rightarrow> memTest \<Rightarrow> bool" where
  "mem_ready L n c \<longleftrightarrow> (\<exists>h. mem_inv h L c \<and> n * (2 * (h + n) + 3) \<le> mem_cap (store c))"

text \<open>Keys have one length \<open>L\<close> where keys may be deleted. For \<open>L = 0\<close> their lengths are free, and there are insertions only.\<close>

definition mem_fit :: "nat \<Rightarrow> bytes \<Rightarrow> bytes option \<Rightarrow> bool" where
  "mem_fit L k v \<longleftrightarrow> (0 < L \<longrightarrow> length k = L) \<and> (case v of None \<Rightarrow> 0 < L | Some x \<Rightarrow> usual (k, x))"

interpretation mst: storage_spec mem_storage ref "mem_ready L" "mem_fit L" for L
proof
  fix n i :: nat and s
  assume "mem_ready L n s" "i \<le> n"
  moreover from this(2) have "i * (2 * (h + i) + 3) \<le> n * (2 * (h + n) + 3)" for h by (intro mult_le_mono) simp_all
  ultimately show "mem_ready L i s" unfolding mem_ready_def by (meson le_trans)
next
  fix n s k
  show "mem_ready L n s \<Longrightarrow> s_Get mem_storage s k = Some (ref s k)"
    using mem_inv_get by (auto simp: mem_ready_def mem_storage_def)
next
  fix n s k v
  assume r: "mem_ready L (Suc n) s"
  then obtain h where h: "mem_inv h L s" "Suc n * (2 * (h + Suc n) + 3) \<le> mem_cap (store s)" by (auto simp: mem_ready_def)
  then have cap: "2 * h + 3 + n * (2 * (Suc h + n) + 3) \<le> mem_cap (store s)" by (simp add: algebra_simps)
  show "\<exists>s'. s_Set mem_storage s k v = Some (False, s') \<and> mem_ready L n s' \<and> ref s' = (ref s)(k \<mapsto> v)" if fit: "mem_fit L k (Some v)"
  proof -
    obtain c where "mem_add s k v = Some c" "mem_inv (Suc h) L c" "ref c = (ref s)(k \<mapsto> v)"
      "mem_cap (store s) \<le> mem_cap (store c) + (2 * h + 3)"
      using mem_add_inv [OF h(1), of k v] cap fit by (auto simp: mem_fit_def)
    then show ?thesis using cap by (auto simp: mem_storage_def mem_ready_def intro!: exI [of _ "Suc h"])
  qed
  show "\<exists>s'. s_Del mem_storage s k = Some (ref s k \<noteq> None, False, s') \<and> mem_ready L n s' \<and> ref s' = (ref s)(k := None)" if fit: "mem_fit L k None"
  proof -
    obtain c where c: "mem_del s k = Some (ref s k \<noteq> None, c)" "mem_inv h L c" "ref c = (ref s)(k := None)"
      "mem_cap (store s) \<le> mem_cap (store c) + Suc h"
      using mem_del_inv [OF h(1), of k] cap fit by (auto simp: mem_fit_def)
    have "n * (2 * (h + n) + 3) \<le> n * (2 * (Suc h + n) + 3)" by (intro mult_le_mono) simp_all
    then have "n * (2 * (h + n) + 3) + Suc h \<le> mem_cap (store s)" using cap by linarith
    then have "mem_inv h L c \<and> n * (2 * (h + n) + 3) \<le> mem_cap (store c)" using c by linarith
    then show ?thesis using c by (auto simp: mem_storage_def mem_ready_def simp del: mult_Suc_right)
  qed
qed

lemma mem_ready_new:
  assumes "n \<le> 2 ^ 30"
  shows "mem_ready L n newMemTest"
proof -
  have "n * (2 * (0 + n) + 3) \<le> 2 ^ 30 * (2 * 2 ^ 30 + 3)"
    using assms by (intro mult_le_mono add_le_mono) simp_all
  moreover have "(2 ^ 30 * (2 * 2 ^ 30 + 3) :: nat) \<le> mem_cap (store newMemTest)"
    by (simp add: mem_cap_def newMemTest_def)
  ultimately have "n * (2 * (0 + n) + 3) \<le> mem_cap (store newMemTest)" by (rule le_trans)
  then show ?thesis using mem_inv_new by (auto simp only: mem_ready_def)
qed

section \<open>Conflict detection\<close>

lemma rangesOverlap_iff: "rangesOverlap rs ws \<longleftrightarrow> (\<exists>r \<in> set rs. \<exists>w \<in> set ws. keyRangeOverlap r w)"
  by (induction rs) (auto simp: list_ex_iff)

lemma point_overlap:
  "k \<noteq> [] \<Longrightarrow> k' \<noteq> [] \<Longrightarrow>
   keyRangeOverlap \<lparr>Start = k, Stop = k\<rparr> \<lparr>Start = k', Stop = k'\<rparr> \<longleftrightarrow> k = k'"
  by (auto simp: keyRangeOverlap_def CompareKeys_def)

lemma detectConflicts_loop_iff:
  "detectConflicts_loop tx hs \<longleftrightarrow>
   (\<exists>h \<in> set (takeWhile (\<lambda>h. tx_version tx < Version h) hs). rangesOverlap (reads tx) (Writes h))"
  by (induction hs) (auto simp: versionBefore_def)

lemma takeWhile_sorted:
  assumes "sorted_wrt (\<lambda>a b. Version b \<le> Version a) hs"
  shows "set (takeWhile (\<lambda>h. v < Version h) hs) = {h \<in> set hs. v < Version h}"
  using assms by (induction hs) (auto dest: order_less_le_trans)

text \<open>Entries that are trimmed away are older than every transaction that is still running.\<close>

lemma trim_cut_old:
  "\<forall>h \<in> set (take (trim_cut mv i hs - i) hs). Version h < mv"
proof (induction hs arbitrary: i)
  case Nil
  then show ?case by simp
next
  case (Cons h hs)
  show ?case
  proof (cases "Version h \<ge> mv \<or> trim_cut mv (Suc i) hs \<le> i")
    case True
    then show ?thesis by auto
  next
    case False
    then have "trim_cut mv i (h # hs) - i = Suc (trim_cut mv (Suc i) hs - Suc i)" by (simp add: Suc_diff_Suc not_le)
    then show ?thesis using Cons.IH [of "Suc i"] False by auto
  qed
qed

lemma detectConflicts_old:
  assumes "\<forall>h \<in> set old. Version h \<le> tx_version tx"
  shows "detectConflicts_loop tx (rev (old @ hs)) = detectConflicts_loop tx (rev hs)"
proof -
  let ?P = "\<lambda>h. tx_version tx < Version h"
  have "takeWhile ?P (rev old) = []" using assms unfolding takeWhile_eq_Nil_iff by (metis hd_in_set set_rev not_le)
  then have "takeWhile ?P (rev hs @ rev old) = takeWhile ?P (rev hs)"
    by (cases "\<forall>x \<in> set (rev hs). ?P x") (auto simp: takeWhile_append takeWhile_eq_all_conv [THEN iffD2])
  then show ?thesis by (simp add: detectConflicts_loop_iff)
qed

lemma updateMinVer_le:
  fixes b :: u64
  shows "fold (\<lambda>v mn. if v < mn then v else mn) vs b \<le> b \<and>
    (\<forall>v \<in> set vs. fold (\<lambda>v mn. if v < mn then v else mn) vs b \<le> v)"
proof (induction vs arbitrary: b)
  case Nil
  then show ?case by simp
next
  case (Cons v vs)
  have "fold (\<lambda>v mn. if v < mn then v else mn) vs v \<le> b" if "v < b"
    using Cons.IH [of v] that by (meson less_imp_le order_trans)
  moreover have "fold (\<lambda>v mn. if v < mn then v else mn) vs b \<le> v" if "b \<le> v"
    using Cons.IH [of b] that by (meson order_trans)
  ultimately show ?case using Cons.IH by (auto simp: not_less)
qed

section \<open>Interleavings\<close>

text \<open>
  The manager and every transaction it has handed out. \<open>reach n hist\<close> are the states after \<open>n\<close> calls of \<open>Begin\<close>,
  interleaved in any way with reads, writes, commits (with and without errors) and aborts; \<open>hist\<close> is the history as it
  would be if it were never trimmed. The operations of the manager hold its mutex, so each of them is one step.
\<close>

abbreviation finished :: "Tx \<Rightarrow> bool" where
  "finished tx \<equiv> committed tx \<or> aborted tx"

abbreviation conflicting :: "'s Manager \<Rightarrow> Tx \<Rightarrow> bool" where
  "conflicting m tx \<equiv> isolation tx \<ge> Serializable \<and> detectConflicts m tx"

definition commit_entry :: "map_iter \<Rightarrow> 's Manager \<Rightarrow> Tx \<Rightarrow> CommittedTX list" where
  "commit_entry iter m tx =
     (if finished tx \<or> conflicting m tx \<or> pending_writes tx = [] then []
      else [\<lparr>Version = tx_version tx, Writes = map (\<lambda>(k, _). \<lparr>Start = k, Stop = k\<rparr>) (iter (pending_writes tx))\<rparr>])"

inductive reach :: "'s storage \<Rightarrow> 's \<Rightarrow> nat \<Rightarrow> CommittedTX list \<Rightarrow> 's Manager \<Rightarrow> Tx list \<Rightarrow> bool" for S kv where
  init: "reach S kv 0 [] (NewManager kv) []"
| start: "reach S kv n H m ts \<Longrightarrow> Begin S m lvl = (tx, m') \<Longrightarrow> reach S kv (Suc n) H m' (ts @ [tx])"
| get: "reach S kv n H m ts \<Longrightarrow> i < length ts \<Longrightarrow> Tx_Get S (mgr_kv m) (ts ! i) k = Some (v, tx) \<Longrightarrow>
    reach S kv n H m (ts[i := tx])"
| seek: "reach S kv n H m ts \<Longrightarrow> i < length ts \<Longrightarrow> Tx_Seek S (mgr_kv m) (ts ! i) k = Some (it, tx) \<Longrightarrow>
    reach S kv n H m (ts[i := tx])"
| put: "reach S kv n H m ts \<Longrightarrow> i < length ts \<Longrightarrow> reach S kv n H m (ts[i := Tx_Set (ts ! i) k v])"
| del: "reach S kv n H m ts \<Longrightarrow> i < length ts \<Longrightarrow> reach S kv n H m (ts[i := Tx_Del (ts ! i) k])"
| commit: "reach S kv n H m ts \<Longrightarrow> i < length ts \<Longrightarrow>
    mset (iter1 (pending_writes (ts ! i))) = mset (pending_writes (ts ! i)) \<Longrightarrow>
    mset (iter2 (pending_writes (ts ! i))) = mset (pending_writes (ts ! i)) \<Longrightarrow>
    Commit S iter1 iter2 m (ts ! i) = Some (err, m', tx) \<Longrightarrow>
    reach S kv n (H @ commit_entry iter1 m (ts ! i)) m' (ts[i := tx])"
| abort: "reach S kv n H m ts \<Longrightarrow> i < length ts \<Longrightarrow> Abort m (ts ! i) = (m', tx) \<Longrightarrow> reach S kv n H m' (ts[i := tx])"


inductive_cases reach_zeroE: "reach S kv 0 H m ts"

subsection \<open>The invariant of the manager\<close>

text \<open>Every version a present or a later transaction can compare with the history.\<close>

abbreviation live :: "'s Manager \<Rightarrow> u64 set" where
  "live m \<equiv> insert (mgr_version m) (set (ongoing m))"

definition min_ok :: "'s Manager \<Rightarrow> bool" where
  "min_ok m \<longleftrightarrow> (\<forall>v \<in> live m. minVer m \<le> v)"

definition hist_ok :: "CommittedTX list \<Rightarrow> 's Manager \<Rightarrow> bool" where
  "hist_ok H m \<longleftrightarrow>
     (\<exists>old. H = old @ history m \<and> (\<forall>h \<in> set old. \<forall>v \<in> live m. Version h \<le> v)) \<and>
     (\<forall>h \<in> set H. Version h \<le> mgr_version m)"

definition txs_ok :: "nat \<Rightarrow> 's Manager \<Rightarrow> Tx list \<Rightarrow> bool" where
  "txs_ok n m ts \<longleftrightarrow> length ts = n \<and> mgr_version m = of_nat n \<and>
     (\<forall>i < n. tx_version (ts ! i) = of_nat (Suc i) \<and> distinct (map fst (pending_writes (ts ! i)))) \<and>
     set (ongoing m) = {of_nat (Suc i) |i. i < n \<and> \<not> finished (ts ! i)}"

definition mgr_inv :: "nat \<Rightarrow> CommittedTX list \<Rightarrow> 's Manager \<Rightarrow> Tx list \<Rightarrow> bool" where
  "mgr_inv n H m ts \<longleftrightarrow> txs_ok n m ts \<and> min_ok m \<and> hist_ok H m"

lemmas mgr_defs = mgr_inv_def txs_ok_def min_ok_def hist_ok_def

lemma updateMinVer_min_ok: "min_ok (updateMinVer m)"
  using updateMinVer_le [of "ongoing m" "mgr_version m"] by (auto simp: min_ok_def updateMinVer_def)

lemma updateMinVer_hist_ok [simp]: "hist_ok H (updateMinVer m) = hist_ok H m"
  by (simp add: hist_ok_def updateMinVer_def)

lemma trimHistory_min_ok [simp]: "min_ok (trimHistory m) = min_ok m"
  by (simp add: min_ok_def trimHistory_def)

lemma trimHistory_hist_ok:
  assumes "min_ok m" "hist_ok H m"
  shows "hist_ok H (trimHistory m)"
proof -
  let ?c = "trim_cut (minVer m) 0 (history m)"
  obtain old where old: "H = old @ history m" "\<forall>h \<in> set old. \<forall>v \<in> live m. Version h \<le> v"
    using assms(2) by (auto simp: hist_ok_def)
  have "\<forall>h \<in> set (take ?c (history m)). \<forall>v \<in> live m. Version h \<le> v"
    using trim_cut_old [of "minVer m" 0 "history m"] assms(1) by (auto simp: min_ok_def dest: less_imp_le intro: order_trans)
  then have "H = (old @ take ?c (history m)) @ drop ?c (history m) \<and>
      (\<forall>h \<in> set (old @ take ?c (history m)). \<forall>v \<in> live m. Version h \<le> v)"
    using old by auto
  then have "\<exists>old. H = old @ drop ?c (history m) \<and> (\<forall>h \<in> set old. \<forall>v \<in> live m. Version h \<le> v)" by blast
  then show ?thesis using assms(2) by (simp add: hist_ok_def trimHistory_def)
qed

lemma finish_hist_ok: "hist_ok H m \<Longrightarrow> hist_ok H (finish m tx)"
  by (fastforce simp: hist_ok_def)

lemma finish_min_ok: "min_ok m \<Longrightarrow> min_ok (finish m tx)"
  by (auto simp: min_ok_def)

lemma txs_ok_same:
  assumes "txs_ok n m ts" "i < n" "mgr_version m' = mgr_version m" "ongoing m' = ongoing m"
    "tx_version tx = tx_version (ts ! i)" "finished tx = finished (ts ! i)" "distinct (map fst (pending_writes tx))"
  shows "txs_ok n m' (ts[i := tx])"
  using assms by (auto simp: txs_ok_def nth_list_update)

lemma of_nat_Suc_inj:
  assumes "n < 2 ^ 64" "i < n" "j < n" "(of_nat (Suc i) :: u64) = of_nat (Suc j)"
  shows "i = j"
proof -
  have "unat (of_nat (Suc i) :: u64) = Suc i" "unat (of_nat (Suc j) :: u64) = Suc j"
    using assms(1-3) by (simp_all add: unat_of_nat_u64 del: of_nat_Suc)
  then show ?thesis unfolding assms(4) by simp
qed

lemma txs_ok_finish:
  assumes "n < 2 ^ 64" "txs_ok n m ts" "i < n" "mgr_version m' = mgr_version m" "ongoing m' = ongoing (finish m (ts ! i))"
    "tx_version tx = tx_version (ts ! i)" "finished tx" "distinct (map fst (pending_writes tx))"
  shows "txs_ok n m' (ts[i := tx])"
proof -
  have "set (ongoing m') = {of_nat (Suc j) |j. j < n \<and> \<not> finished (ts ! j)} - {of_nat (Suc i)}"
    using assms(2,3,5) by (auto simp: txs_ok_def)
  also have "\<dots> = {of_nat (Suc j) |j. j < n \<and> \<not> finished (ts[i := tx] ! j)}"
    using assms(2,3,7) of_nat_Suc_inj [OF assms(1)] by (auto simp: txs_ok_def nth_list_update simp del: of_nat_Suc)
  finally show ?thesis using assms by (auto simp: txs_ok_def nth_list_update)
qed

lemma of_nat_u64_mono: "i \<le> n \<Longrightarrow> n < 2 ^ 64 \<Longrightarrow> (of_nat i :: u64) \<le> of_nat n"
  by (simp add: word_le_nat_alt unat_of_nat_u64)

lemma txs_ok_version_le:
  assumes "n < 2 ^ 64" "txs_ok n m ts" "i < n"
  shows "tx_version (ts ! i) \<le> mgr_version m"
  using assms of_nat_u64_mono [of "Suc i" n] by (simp add: txs_ok_def)

lemma hist_ok_append:
  assumes "hist_ok H m" "Version e \<le> mgr_version m"
  shows "hist_ok (H @ [e]) (m\<lparr>history := history m @ [e]\<rparr>)"
  using assms by (auto simp: hist_ok_def)

lemma txs_ok_kv [simp]: "txs_ok n (m\<lparr>mgr_kv := kv\<rparr>) ts = txs_ok n m ts"
  by (simp add: txs_ok_def)

lemma min_ok_kv [simp]: "min_ok (m\<lparr>mgr_kv := kv\<rparr>) = min_ok m" "min_ok (m\<lparr>history := hs\<rparr>) = min_ok m"
  by (simp_all add: min_ok_def)

lemma hist_ok_kv [simp]: "hist_ok H (m\<lparr>mgr_kv := kv\<rparr>) = hist_ok H m"
  by (simp add: hist_ok_def)

lemma Begin_inv:
  assumes "Suc n < 2 ^ 64" "mgr_inv n H m ts" "Begin S m lvl = (tx, m')"
  shows "mgr_inv (Suc n) H m' (ts @ [tx])"
proof -
  have t: "txs_ok n m ts" "min_ok m" "hist_ok H m" using assms(2) by (simp_all add: mgr_inv_def)
  have m': "mgr_version m' = of_nat (Suc n)" "set (ongoing m') = insert (of_nat (Suc n)) (set (ongoing m))"
    "history m' = history m" "minVer m' = minVer m"
    "tx_version tx = of_nat (Suc n)" "\<not> finished tx" "pending_writes tx = []"
    using assms(3) t(1) by (auto simp: Begin_def txs_ok_def Let_def)
  have le: "mgr_version m \<le> of_nat (Suc n)" using of_nat_u64_mono [of n "Suc n"] assms(1) t(1) by (simp add: txs_ok_def)
  have "txs_ok (Suc n) m' (ts @ [tx])" using t(1) m' by (auto simp: txs_ok_def nth_append less_Suc_eq)
  moreover have "min_ok m'" using t(2) m' le by (auto simp: min_ok_def intro: order_trans)
  moreover have "hist_ok H m'"
  proof -
    have le': "a \<le> of_nat (Suc n)" if "a \<le> mgr_version m" for a using that le by (rule order_trans)
    obtain old where "H = old @ history m" "\<forall>h \<in> set old. \<forall>v \<in> live m. Version h \<le> v"
      "\<forall>h \<in> set H. Version h \<le> mgr_version m" using t(3) by (auto simp: hist_ok_def)
    then show ?thesis unfolding hist_ok_def m' using le' by blast
  qed
  ultimately show ?thesis by (simp add: mgr_inv_def)
qed

lemma Commit_inv:
  assumes n: "n < 2 ^ 64" and inv: "mgr_inv n H m ts" and i: "i < n"
    and c: "Commit S iter1 iter2 m (ts ! i) = Some (err, m', tx)"
  shows "mgr_inv n (H @ commit_entry iter1 m (ts ! i)) m' (ts[i := tx])"
proof -
  let ?t = "ts ! i"
  let ?e = "\<lparr>Version = tx_version ?t, Writes = map (\<lambda>(k, _). \<lparr>Start = k, Stop = k\<rparr>) (iter1 (pending_writes ?t))\<rparr>"
  have t: "txs_ok n m ts" "min_ok m" "hist_ok H m" using inv by (simp_all add: mgr_inv_def)
  have d: "distinct (map fst (pending_writes ?t))" using t(1) i by (simp add: txs_ok_def)
  have he: "hist_ok (H @ [?e]) (m\<lparr>history := history m @ [?e]\<rparr>)"
    using t txs_ok_version_le [OF n t(1) i] by (intro hist_ok_append) simp_all
  consider (over) "finished ?t" | (conflict) "\<not> finished ?t" "conflicting m ?t"
    | (empty) "\<not> finished ?t" "\<not> conflicting m ?t" "pending_writes ?t = []"
    | (writes) "\<not> finished ?t" "\<not> conflicting m ?t" "pending_writes ?t \<noteq> []" by blast
  then show ?thesis
  proof cases
    case over
    then show ?thesis using c t i by (auto simp: Commit_def commit_entry_def mgr_inv_def)
  next
    case conflict
    then have r: "m' = finish m ?t" "tx = ?t\<lparr>aborted := True\<rparr>" "commit_entry iter1 m ?t = []"
      using c by (auto simp: Commit_def commit_entry_def Let_def)
    then show ?thesis using t txs_ok_finish [OF n t(1) i, of m' tx] d finish_min_ok finish_hist_ok by (auto simp: mgr_inv_def)
  next
    case empty
    then have r: "m' = updateMinVer (finish m ?t)" "tx = ?t\<lparr>committed := True\<rparr>" "commit_entry iter1 m ?t = []"
      using c by (auto simp: Commit_def commit_entry_def Let_def)
    have "txs_ok n m' (ts[i := tx])" using r d by (intro txs_ok_finish [OF n t(1) i]) (simp_all add: updateMinVer_def)
    then show ?thesis using r t updateMinVer_min_ok finish_hist_ok by (auto simp: mgr_inv_def)
  next
    case writes
    let ?m = "m\<lparr>history := history m @ [?e]\<rparr>"
    obtain kv where kv: "commit_writes S (mgr_kv m) (iter2 (pending_writes ?t)) = Some (err, kv)"
      and r: "(m', tx) = (if err \<noteq> None then (?m\<lparr>mgr_kv := kv\<rparr>, ?t)
        else (trimHistory (updateMinVer (finish (?m\<lparr>mgr_kv := kv\<rparr>) ?t)), ?t\<lparr>committed := True\<rparr>))"
      using c writes by (auto simp: Commit_def Let_def bind_eq_Some_conv split: if_splits)
    have e: "commit_entry iter1 m ?t = [?e]" using writes by (auto simp: commit_entry_def)
    show ?thesis
    proof (cases err)
      case None
      then have "txs_ok n m' (ts[i := tx])"
        using r d by (intro txs_ok_finish [OF n t(1) i]) (simp_all add: updateMinVer_def trimHistory_def)
      moreover have "hist_ok (H @ [?e]) (finish (?m\<lparr>mgr_kv := kv\<rparr>) ?t)" using he by (intro finish_hist_ok) simp
      then have "hist_ok (H @ [?e]) m'" using None r by (simp add: trimHistory_hist_ok updateMinVer_min_ok)
      ultimately show ?thesis using None r e updateMinVer_min_ok by (auto simp: mgr_inv_def)
    next
      case (Some x)
      have "txs_ok n ?m (ts[i := ?t])" using d i by (intro txs_ok_same [OF t(1) i]) simp_all
      then show ?thesis using Some r e t he by (auto simp: mgr_inv_def)
    qed
  qed
qed

lemma Abort_inv:
  assumes n: "n < 2 ^ 64" and inv: "mgr_inv n H m ts" and i: "i < n" and c: "Abort m (ts ! i) = (m', tx)"
  shows "mgr_inv n H m' (ts[i := tx])"
proof (cases "finished (ts ! i)")
  case True
  then show ?thesis using c inv i by (auto simp: Abort_def)
next
  case False
  have t: "txs_ok n m ts" "hist_ok H m" using inv by (simp_all add: mgr_inv_def)
  have r: "m' = updateMinVer (finish m (ts ! i))" "tx = (ts ! i)\<lparr>aborted := True\<rparr>"
    using False c by (auto simp: Abort_def Let_def)
  have "txs_ok n m' (ts[i := tx])"
    using r t i by (intro txs_ok_finish [OF n t(1) i]) (simp_all add: updateMinVer_def txs_ok_def)
  then show ?thesis using r t updateMinVer_min_ok finish_hist_ok by (auto simp: mgr_inv_def)
qed

lemma reach_inv: "reach S kv n H m ts \<Longrightarrow> n < 2 ^ 64 \<Longrightarrow> mgr_inv n H m ts"
proof (induction rule: reach.induct)
  case init
  then show ?case by (auto simp: mgr_defs NewManager_def)
next
  case (start n H m ts lvl tx m')
  then show ?case by (intro Begin_inv) simp_all
next
  case (get n H m ts i k v tx)
  then have "txs_ok n m (ts[i := tx])"
    by (intro txs_ok_same) (auto simp: mgr_inv_def txs_ok_def Tx_Get_def Let_def bind_eq_Some_conv split: option.splits)
  then show ?case using get by (auto simp: mgr_inv_def)
next
  case (seek n H m ts i k it tx)
  then have "txs_ok n m (ts[i := tx])"
    by (intro txs_ok_same) (auto simp: mgr_inv_def txs_ok_def Tx_Seek_def Let_def bind_eq_Some_conv)
  then show ?case using seek by (auto simp: mgr_inv_def)
next
  case (put n H m ts i k v)
  then have "txs_ok n m (ts[i := Tx_Set (ts ! i) k v])"
    by (intro txs_ok_same) (auto simp: mgr_inv_def txs_ok_def Tx_Set_def distinct_update)
  then show ?case using put by (auto simp: mgr_inv_def)
next
  case (del n H m ts i k)
  then have "txs_ok n m (ts[i := Tx_Del (ts ! i) k])"
    by (intro txs_ok_same) (auto simp: mgr_inv_def txs_ok_def Tx_Del_def distinct_update)
  then show ?case using del by (auto simp: mgr_inv_def)
next
  case (commit n H m ts i iter1 iter2 err m' tx)
  then show ?case by (intro Commit_inv) (auto simp: mgr_inv_def txs_ok_def)
next
  case (abort n H m ts i m' tx)
  then show ?case by (intro Abort_inv) (auto simp: mgr_inv_def txs_ok_def)
qed

lemma detectConflicts_none:
  "\<forall>h \<in> set (history m). Version h \<le> tx_version tx \<Longrightarrow> \<not> detectConflicts m tx"
  using detectConflicts_old [of "history m" tx "[]"] by (simp add: detectConflicts_def)

lemma reach_history_le:
  assumes "reach S kv n H m ts" "n < 2 ^ 64"
  shows "\<forall>h \<in> set (history m). Version h \<le> of_nat n"
  using reach_inv [OF assms] by (auto simp: mgr_defs)

lemma running_detect:
  assumes "reach S kv n H m ts" "n < 2 ^ 64" "i < length ts" "\<not> finished (ts ! i)"
  shows "detectConflicts m (ts ! i) = detectConflicts_loop (ts ! i) (rev H)"
proof -
  have inv: "txs_ok n m ts" "hist_ok H m" using reach_inv [OF assms(1,2)] by (simp_all add: mgr_inv_def)
  have "tx_version (ts ! i) \<in> live m" using inv(1) assms(3,4) by (auto simp: txs_ok_def)
  then obtain old where "H = old @ history m" "\<forall>h \<in> set old. Version h \<le> tx_version (ts ! i)"
    using inv(2) unfolding hist_ok_def by blast
  then show ?thesis using detectConflicts_old [of old "ts ! i" "history m"] by (simp add: detectConflicts_def)
qed

context storage_spec
begin

lemma tx_alone_map:
  assumes "reach S kv n H m ts" "Suc n < 2 ^ 64" "ready (j + length ops) (mgr_kv m)"
    "\<forall>q \<in> set ops. fit_op fit q" "\<forall>xs. mset (iter2 xs) = mset xs"
  shows "\<exists>m'. tx_alone S iter1 iter2 m lvl ops = Some (fst (spec_ops ops (content (mgr_kv m))), None, m') \<and>
    content (mgr_kv m') = snd (spec_ops ops (content (mgr_kv m))) \<and> ready j (mgr_kv m')"
proof -
  obtain tx m1 where b: "Begin S m lvl = (tx, m1)" by (cases "Begin S m lvl")
  have r1: "reach S kv (Suc n) H m1 (ts @ [tx])" using assms(1) b by (rule reach.start)
  have tx: "pending_writes tx = []" "\<not> finished tx" "mgr_kv m1 = mgr_kv m" "tx_version tx = of_nat (Suc n)"
    using b reach_inv [OF assms(1)] assms(2) by (auto simp: Begin_def Let_def mgr_defs)
  obtain vs tx' where t: "tx_ops S (mgr_kv m) tx ops = Some (vs, tx')"
    "spec_ops ops (content (mgr_kv m)) = (vs, apply_writes (pending_writes tx') (content (mgr_kv m)))"
    "tx_version tx' = of_nat (Suc n)" "\<not> finished tx'" "\<forall>w \<in> set (pending_writes tx'). fit_write fit w"
    "distinct (map fst (pending_writes tx'))" "length (pending_writes tx') \<le> length ops"
    using tx_ops_view [OF assms(3,4), of tx] tx by auto
  have "\<not> detectConflicts m1 tx'" using reach_history_le [OF r1 assms(2)] t(3) by (intro detectConflicts_none) simp
  moreover have "ready (j + length (pending_writes tx')) (mgr_kv m1)"
    using fewer [OF assms(3)] t(7) tx(3) by simp
  ultimately obtain m' where "Commit S iter1 iter2 m1 tx' = Some (None, m', tx'\<lparr>committed := True\<rparr>)"
    "ready j (mgr_kv m')" "content (mgr_kv m') = apply_writes (pending_writes tx') (content (mgr_kv m1))"
    using Commit_content [of j tx' m1 iter2 iter1] t(4-6) assms(5) by auto
  then show ?thesis using b t tx by (auto simp: tx_alone_def)
qed

end

text \<open>A state in which a running transaction has read a key that a later one has since written.\<close>

lemma reach_conflict:
  assumes "mem_fit L k (Some v)"
  shows "\<exists>m ts. reach mem_storage newMemTest 2 [\<lparr>Version = 2, Writes = [\<lparr>Start = k, Stop = k\<rparr>]\<rparr>] m ts \<and> length ts = 2 \<and>
    \<not> finished (ts ! 0) \<and> tx_version (ts ! 0) = 1 \<and> reads (ts ! 0) = [\<lparr>Start = k, Stop = k\<rparr>] \<and> committed (ts ! 1) \<and>
    mem_ready L 1 (mgr_kv m)"
proof -
  obtain t1 m1 where b1: "Begin mem_storage (NewManager newMemTest) Serializable = (t1, m1)" by fastforce
  obtain t2 m2 where b2: "Begin mem_storage m1 Serializable = (t2, m2)" by fastforce
  have tx: "mgr_kv m2 = newMemTest" "history m2 = []" "tx_version t1 = 1" "tx_version t2 = 2" "reads t1 = []"
    "\<not> finished t1" "\<not> finished t2" "pending_writes t1 = []" "pending_writes t2 = []"
    using b1 b2 by (auto simp: Begin_def NewManager_def Let_def)
  have rdy: "mem_ready L (Suc (Suc 0)) newMemTest" by (rule mem_ready_new) simp
  let ?t1 = "t1\<lparr>reads := [\<lparr>Start = k, Stop = k\<rparr>]\<rparr>"
  let ?t2 = "t2\<lparr>pending_writes := [(k, Some v)]\<rparr>"
  have "reach mem_storage newMemTest 2 [] m2 [t1, t2]"
    using reach.start [OF reach.start [OF reach.init b1] b2] by (simp add: numeral_2_eq_2)
  from reach.get [OF this, of 0 k None ?t1] have "reach mem_storage newMemTest 2 [] m2 [?t1, t2]"
    using mst.Tx_Get_view [OF rdy, of t1 k] tx by (simp add: ref_new)
  from reach.put [OF this, of 1 k "Some v"] have r: "reach mem_storage newMemTest 2 [] m2 [?t1, ?t2]"
    using tx by (simp add: Tx_Set_def)
  have nc: "\<not> detectConflicts m2 ?t2" using tx by (intro detectConflicts_none) simp
  obtain m3 where m3: "Commit mem_storage id id m2 ?t2 = Some (None, m3, ?t2\<lparr>committed := True\<rparr>)" "mem_ready L 1 (mgr_kv m3)"
    using mst.Commit_content [of L 1 ?t2 m2 id id] rdy tx assms nc by auto
  have "commit_entry id m2 ?t2 = [\<lparr>Version = 2, Writes = [\<lparr>Start = k, Stop = k\<rparr>]\<rparr>]" using tx nc by (simp add: commit_entry_def)
  with reach.commit [OF r, of 1 id id None m3 "?t2\<lparr>committed := True\<rparr>"]
  have "reach mem_storage newMemTest 2 [\<lparr>Version = 2, Writes = [\<lparr>Start = k, Stop = k\<rparr>]\<rparr>] m3 [?t1, ?t2\<lparr>committed := True\<rparr>]"
    using m3 by simp
  then show ?thesis using tx m3 by (intro exI [of _ m3] exI [of _ "[?t1, ?t2\<lparr>committed := True\<rparr>]"]) simp
qed

abbreviation key_x :: bytes where
  "key_x \<equiv> replicate 12 1"

lemma mem_fit_x: "mem_fit 12 key_x (Some [b])"
  by (simp add: mem_fit_def usual_def)

section \<open>Properties\<close>

text \<open>In every state the manager can reach, under any interleaving of calls with fewer than \<open>2 ^ 64\<close> transactions and
  including commits that fail half way, the \<open>ongoing\<close> map holds the versions of the transactions that are neither
  committed nor aborted and no others, and \<open>minVer\<close> is at most each of them.\<close>

theorem ongoing_exact:
  assumes "reach S kv n H m ts" "n < 2 ^ 64"
  shows "set (ongoing m) = tx_version ` {tx \<in> set ts. \<not> finished tx} \<and> (\<forall>v \<in> set (ongoing m). minVer m \<le> v)"
proof -
  have inv: "txs_ok n m ts" "min_ok m" using reach_inv [OF assms] by (simp_all add: mgr_inv_def)
  have "{of_nat (Suc i) |i. i < n \<and> \<not> finished (ts ! i)} = tx_version ` {tx \<in> set ts. \<not> finished tx}"
    using inv(1) by (auto simp: txs_ok_def in_set_conv_nth image_iff simp del: of_nat_Suc) metis
  then show ?thesis using inv by (simp add: txs_ok_def min_ok_def)
qed

theorem ongoing_exact_witness:
  "\<exists>H m ts. reach mem_storage newMemTest 2 H m ts \<and> length ts = 2 \<and> committed (ts ! 1) \<and>
    set (ongoing m) = tx_version ` {tx \<in> set ts. \<not> finished tx} \<and> (\<forall>v \<in> set (ongoing m). minVer m \<le> v)"
proof -
  obtain H m ts where r: "reach mem_storage newMemTest 2 H m ts" "length ts = 2" "committed (ts ! 1)"
    using reach_conflict [OF mem_fit_x] by blast
  show ?thesis using r ongoing_exact [OF r(1)] by auto
qed

text \<open>C14. \<open>trimHistory\<close> never forgets a commit that matters: in every reachable state and for every transaction that is still
  running, \<open>detectConflicts\<close> on the trimmed history gives what it would give on the history of all commits since the
  manager was created.\<close>

theorem trimming_transparent:
  assumes "reach S kv n H m ts" "n < 2 ^ 64" "i < length ts" "\<not> finished (ts ! i)"
  shows "detectConflicts m (ts ! i) = detectConflicts_loop (ts ! i) (rev H)"
  using assms by (rule running_detect)

theorem trimming_transparent_witness:
  "\<exists>H m ts. reach mem_storage newMemTest 2 H m ts \<and> \<not> finished (ts ! 0) \<and> H \<noteq> [] \<and>
    detectConflicts m (ts ! 0) = detectConflicts_loop (ts ! 0) (rev H)"
proof -
  obtain h m ts where r: "reach mem_storage newMemTest 2 [h] m ts" "length ts = 2" "\<not> finished (ts ! 0)"
    using reach_conflict [OF mem_fit_x] by blast
  show ?thesis using r trimming_transparent [OF r(1) _ _ r(3)] by (intro exI [of _ "[h]"] exI [of _ m] exI [of _ ts]) simp
qed

text \<open>C15. Where transactions commit in the order in which they began, \<open>detectConflicts\<close> reports a running transaction exactly
  when a transaction that began after it has committed a write to a range it has read.\<close>

theorem conflict_iff_later_write:
  assumes "reach S kv n H m ts" "n < 2 ^ 64" "i < length ts" "\<not> finished (ts ! i)"
    and "sorted_wrt (\<lambda>a b. Version a \<le> Version b) H"
  shows "detectConflicts m (ts ! i) \<longleftrightarrow>
    (\<exists>h \<in> set H. tx_version (ts ! i) < Version h \<and> (\<exists>r \<in> set (reads (ts ! i)). \<exists>w \<in> set (Writes h). keyRangeOverlap r w))"
proof -
  have "sorted_wrt (\<lambda>a b. Version b \<le> Version a) (rev H)" using assms(5) by (simp add: sorted_wrt_rev)
  then show ?thesis using running_detect [OF assms(1-4)]
    by (auto simp: detectConflicts_loop_iff takeWhile_sorted rangesOverlap_iff)
qed

theorem conflict_iff_later_write_witness:
  "\<exists>H m ts. reach mem_storage newMemTest 2 H m ts \<and> \<not> finished (ts ! 0) \<and> detectConflicts m (ts ! 0)"
proof -
  obtain m ts where r: "reach mem_storage newMemTest 2 [\<lparr>Version = 2, Writes = [\<lparr>Start = key_x, Stop = key_x\<rparr>]\<rparr>] m ts"
      "length ts = 2" "\<not> finished (ts ! 0)" "tx_version (ts ! 0) = 1" "reads (ts ! 0) = [\<lparr>Start = key_x, Stop = key_x\<rparr>]"
    using reach_conflict [OF mem_fit_x] by blast
  have "detectConflicts m (ts ! 0)"
    using conflict_iff_later_write [OF r(1) _ _ r(3)] r by (simp add: point_overlap)
  then show ?thesis using r by blast
qed

text \<open>C9. From every reachable state a transaction that runs alone makes progress and is a sequential program on the map: its
  reads return what they would return on the map, \<open>Commit\<close> reports no conflict and no error at any isolation level,
  and the stored map afterwards is the one the calls lead to, whatever order Go iterates its pending writes in. A
  client that was refused can therefore retry.\<close>

theorem serial_transaction:
  assumes "reach mem_storage kv n H m ts" "Suc n < 2 ^ 64" "mem_ready L (j + length ops) (mgr_kv m)"
    "\<forall>q \<in> set ops. fit_op (mem_fit L) q" "\<forall>xs. mset (iter2 xs) = mset xs"
  shows "\<exists>m'. tx_alone mem_storage iter1 iter2 m lvl ops = Some (fst (spec_ops ops (ref (mgr_kv m))), None, m') \<and>
    ref (mgr_kv m') = snd (spec_ops ops (ref (mgr_kv m))) \<and> mem_ready L j (mgr_kv m')"
  using assms by (rule mst.tx_alone_map)

theorem serial_transaction_witness:
  "\<exists>H m ts m'. reach mem_storage newMemTest 2 H m ts \<and>
    tx_alone mem_storage rev rev m Serializable [OpSet key_x [3]] = Some ([], None, m') \<and> ref (mgr_kv m') key_x = Some [3]"
proof -
  obtain H m ts where r: "reach mem_storage newMemTest 2 H m ts" "mem_ready 12 1 (mgr_kv m)"
    using reach_conflict [OF mem_fit_x] by blast
  show ?thesis using r mem_fit_x serial_transaction [OF r(1), of 12 0 "[OpSet key_x [3]]" rev rev Serializable]
    by fastforce
qed

text \<open>C35. Two serializable transactions that read a key and then write it both commit when the one that began first commits
  first, although the second read the value from before the first one's write: the first update is lost, and no serial
  order of the two gives both reads.\<close>

theorem lost_update:
  assumes "mem_fit L k (Some v)" "mem_fit L k (Some w)" "\<forall>xs. mset (iter2 xs) = mset xs"
  shows "\<exists>m. two_writers mem_storage iter1 iter2 (NewManager newMemTest) k v w = Some ([None], None, [None], None, m) \<and>
    ref (mgr_kv m) = [k \<mapsto> w]"
proof -
  obtain t1 m1 where b1: "Begin mem_storage (NewManager newMemTest) Serializable = (t1, m1)" by fastforce
  obtain t2 m2 where b2: "Begin mem_storage m1 Serializable = (t2, m2)" by fastforce
  have tx: "mgr_kv m2 = newMemTest" "history m2 = []" "tx_version t1 = 1" "tx_version t2 = 2"
    "\<not> finished t1" "\<not> finished t2" "pending_writes t1 = []" "pending_writes t2 = []"
    using b1 b2 by (auto simp: Begin_def NewManager_def Let_def)
  have rdy: "mem_ready L (Suc (Suc 0)) newMemTest" by (rule mem_ready_new) simp
  let ?g = "\<lambda>t x. t\<lparr>reads := reads t @ [\<lparr>Start = k, Stop = k\<rparr>], pending_writes := [(k, Some x)]\<rparr>"
  have ops: "tx_ops mem_storage newMemTest t [OpGet k, OpSet k x] = Some ([None], ?g t x)" if "pending_writes t = []" for t x
    using that mst.Tx_Get_view [OF rdy] by (simp add: Tx_Set_def ref_new)
  obtain m3 where m3: "Commit mem_storage iter1 iter2 m2 (?g t1 v) = Some (None, m3, (?g t1 v)\<lparr>committed := True\<rparr>)"
    "mem_ready L 1 (mgr_kv m3)" "ref (mgr_kv m3) = apply_writes [(k, Some v)] (ref newMemTest)"
    using mst.Commit_content [of L 1 "?g t1 v" m2 iter2 iter1] rdy tx assms detectConflicts_none [of m2 "?g t1 v"] by auto
  have "\<forall>h \<in> set (history m3). Version h \<le> 2"
    using m3(1) tx by (auto simp: Commit_def Let_def bind_eq_Some_conv updateMinVer_def trimHistory_def dest!: in_set_dropD split: if_splits)
  then have "\<not> detectConflicts m3 (?g t2 w)" using tx by (intro detectConflicts_none) simp
  then obtain m4 where "Commit mem_storage iter1 iter2 m3 (?g t2 w) = Some (None, m4, (?g t2 w)\<lparr>committed := True\<rparr>)"
    "ref (mgr_kv m4) = apply_writes [(k, Some w)] (ref (mgr_kv m3))"
    using mst.Commit_content [of L 0 "?g t2 w" m3 iter2 iter1] m3(2) tx assms by auto
  moreover have "apply_writes [(k, Some w)] (apply_writes [(k, Some v)] (ref newMemTest)) = [k \<mapsto> w]"
    by (auto simp: apply_writes_def ref_new)
  ultimately show ?thesis using b1 b2 ops m3 tx by (simp add: two_writers_def del: tx_ops.simps)
qed

theorem lost_update_witness:
  "\<exists>m. two_writers mem_storage rev rev (NewManager newMemTest) key_x [2] [3] = Some ([None], None, [None], None, m) \<and>
    ref (mgr_kv m) = [key_x \<mapsto> [3]]"
  using lost_update [of 12 key_x "[2]" "[3]" rev rev] mem_fit_x by simp

end
