(* ===== verification/Encoding.thy ===== *)
theory Encoding
  imports Prelude
begin

text \<open>
  The value encoding of \<^verbatim>\<open>internal/kvstore/encoding.go\<close> and the value type of
  \<^verbatim>\<open>types.go\<close>. A \<^verbatim>\<open>float64\<close> is its bit pattern; \<open>F64_ge_0\<close> is the comparison of
  the source on it. The encoding is shown to round-trip, and to turn the order of
  values into the byte order of keys; the exceptions are negative zero and NaNs.
\<close>

section \<open>Values\<close>

definition TypeInt64 :: byte where "TypeInt64 = 1"
definition TypeBytes :: byte where "TypeBytes = 2"
definition TypeBool :: byte where "TypeBool = 3"
definition TypeFloat64 :: byte where "TypeFloat64 = 4"

lemmas Type_defs = TypeInt64_def TypeBytes_def TypeBool_def TypeFloat64_def

record Val =
  Type :: byte
  I64 :: u64
  Str :: bytes
  Bool :: bool
  F64 :: u64

definition zero_Value :: Val where
  "zero_Value = \<lparr>Type = 0, I64 = 0, Str = [], Bool = False, F64 = 0\<rparr>"

definition TypeByColType :: "byte \<Rightarrow> byte" where
  "TypeByColType ct =
     (if ct = 1 then TypeInt64 else if ct = 2 then TypeBytes else if ct = 3 then TypeBool
      else if ct = 4 then TypeFloat64 else 0)"

section \<open>Encoding\<close>

definition sign_bit :: u64 where
  "sign_bit = push_bit 63 1"

text \<open>IEEE 754: NaN has the maximal exponent and a nonzero fraction.\<close>

definition is_NaN :: "u64 \<Rightarrow> bool" where
  "is_NaN u \<longleftrightarrow> 0x7FF0000000000000 < u AND 0x7FFFFFFFFFFFFFFF"

definition F64_ge_0 :: "u64 \<Rightarrow> bool" where
  "F64_ge_0 u \<longleftrightarrow> \<not> is_NaN u \<and> (u AND sign_bit = 0 \<or> u = sign_bit)"

fun escapeBytes :: "bytes \<Rightarrow> bytes" where
  "escapeBytes [] = []"
| "escapeBytes (b # bs) =
     (if b = 0 then [1, 1] else if b = 1 then [1, 2] else [b]) @ escapeBytes bs"

fun unescapeBytes :: "bytes \<Rightarrow> bytes" where
  "unescapeBytes [] = []"
| "unescapeBytes [b] = [b]"
| "unescapeBytes (b # c # bs) =
     (if b = 1 then
        (if c = 1 then 0 # unescapeBytes bs
         else if c = 2 then 1 # unescapeBytes bs
         else b # unescapeBytes (c # bs))
      else b # unescapeBytes (c # bs))"

text \<open>One iteration of the loop of \<open>EncodeValues\<close>: what it appends to \<open>out\<close>.\<close>

definition EncodeValue :: "Val \<Rightarrow> bytes option" where
  "EncodeValue v =
     (if Type v = TypeInt64 then Some (Type v # be_bytes 8 (I64 v XOR sign_bit))
      else if Type v = TypeBytes then Some (Type v # escapeBytes (Str v) @ [0])
      else if Type v = TypeBool then Some [Type v, if Bool v then 1 else 0]
      else if Type v = TypeFloat64 then
        Some (Type v # be_bytes 8 (if F64_ge_0 (F64 v) then F64 v XOR sign_bit else NOT (F64 v)))
      else None)"

fun EncodeValues :: "bytes \<Rightarrow> Val list \<Rightarrow> bytes option" where
  "EncodeValues out [] = Some out"
| "EncodeValues out (v # vals) = do {
     e \<leftarrow> EncodeValue v;
     EncodeValues (out @ e) vals
   }"

definition EncodeKey :: "bytes \<Rightarrow> u32 \<Rightarrow> Val list \<Rightarrow> bytes option" where
  "EncodeKey out prefix vals = EncodeValues (out @ be_bytes 4 prefix) vals"

definition CmpLT :: int where "CmpLT = -1"
definition CmpLE :: int where "CmpLE = -2"
definition CmpEQ :: int where "CmpEQ = 0"
definition CmpGE :: int where "CmpGE = 1"
definition CmpGT :: int where "CmpGT = 2"
definition CmpNE :: int where "CmpNE = 3"

definition EncodeKeyPartial :: "bytes \<Rightarrow> u32 \<Rightarrow> Val list \<Rightarrow> int \<Rightarrow> bytes option" where
  "EncodeKeyPartial out prefix vals cmp = do {
     out \<leftarrow> EncodeKey out prefix vals;
     Some (if cmp = 1 \<or> cmp = -3 then out @ [0xff] else out)
   }"

section \<open>Decoding\<close>

text \<open>
  One iteration of the loop of \<open>DecodeValues\<close>, on a nonempty input: the value and the
  rest of the input. \<^verbatim>\<open>bytes.IndexByte(in, 0)\<close> is the length of the zero-free
  prefix, or negative where there is no zero.
\<close>

definition DecodeValue :: "byte \<Rightarrow> bytes \<Rightarrow> (Val \<times> bytes) option" where
  "DecodeValue t inp =
     (let v = zero_Value\<lparr>Type := t\<rparr> in
      if t = TypeInt64 then do {
        b \<leftarrow> slice_to inp 8;
        u \<leftarrow> be_get 8 b;
        inp \<leftarrow> slice_from inp 8;
        Some (v\<lparr>I64 := u XOR sign_bit\<rparr>, inp)
      }
      else if t = TypeBytes then
        (let idx = length (takeWhile (\<lambda>b. b \<noteq> 0) inp) in
         if idx = length inp then None
         else Some (v\<lparr>Str := unescapeBytes (take idx inp)\<rparr>, drop (idx + 1) inp))
      else if t = TypeBool then do {
        b \<leftarrow> index inp 0;
        inp \<leftarrow> slice_from inp 1;
        Some (v\<lparr>Bool := (b \<noteq> 0)\<rparr>, inp)
      }
      else if t = TypeFloat64 then do {
        b \<leftarrow> slice_to inp 8;
        u \<leftarrow> be_get 8 b;
        inp \<leftarrow> slice_from inp 8;
        Some (v\<lparr>F64 := (if drop_bit 63 u = 0 then NOT u else u XOR sign_bit)\<rparr>, inp)
      }
      else None)"

lemma DecodeValue_length:
  "DecodeValue t inp = Some (v, rest) \<Longrightarrow> length rest \<le> length inp"
  by (auto simp: DecodeValue_def Let_def slice_from_def bind_eq_Some_conv split: if_splits)

function DecodeValues :: "bytes \<Rightarrow> Val list \<Rightarrow> Val list option" where
  "DecodeValues [] out = Some out"
| "DecodeValues (t # inp) out =
     (case DecodeValue t inp of
        None \<Rightarrow> None
      | Some (v, rest) \<Rightarrow> DecodeValues rest (out @ [v]))"
  by pat_completeness auto
termination
  by (relation "measure (\<lambda>(inp, out). length inp)") (auto dest: DecodeValue_length intro: le_imp_less_Suc)

section \<open>Round trip\<close>

text \<open>
  The values that survive: only the field of the type is set, and a float is neither
  negative zero nor a NaN with a clear sign bit.
\<close>

definition canonical :: "Val \<Rightarrow> bool" where
  "canonical v \<longleftrightarrow>
     (Type v = TypeInt64 \<and> v = zero_Value\<lparr>Type := TypeInt64, I64 := I64 v\<rparr> \<or>
      Type v = TypeBytes \<and> v = zero_Value\<lparr>Type := TypeBytes, Str := Str v\<rparr> \<or>
      Type v = TypeBool \<and> v = zero_Value\<lparr>Type := TypeBool, Bool := Bool v\<rparr> \<or>
      Type v = TypeFloat64 \<and> v = zero_Value\<lparr>Type := TypeFloat64, F64 := F64 v\<rparr> \<and>
        F64 v \<noteq> sign_bit \<and> (is_NaN (F64 v) \<longrightarrow> F64 v AND sign_bit \<noteq> 0))"

lemma escapeBytes_no_zero: "0 \<notin> set (escapeBytes bs)"
  by (induction bs) auto

lemma unescape_escape: "unescapeBytes (escapeBytes bs) = bs"
proof (induction bs)
  case Nil
  then show ?case by simp
next
  case (Cons b bs)
  then show ?case by (cases "escapeBytes bs") auto
qed

lemma takeWhile_escape: "takeWhile (\<lambda>b. b \<noteq> 0) (escapeBytes bs @ 0 # xs) = escapeBytes bs"
  using escapeBytes_no_zero [of bs] by (subst takeWhile_append2) auto

lemma xor_sign_bit [simp]: "(u XOR sign_bit) XOR sign_bit = u"
  by (simp add: xor.assoc)

lemma be_get_append [simp]: "be_get 8 (be_bytes 8 (u :: u64)) = Some u"
  by (simp add: be_get_def)

lemma bit_sign_bit [simp]: "bit sign_bit n \<longleftrightarrow> n = 63"
  by (simp only: sign_bit_def bit_push_bit_iff) (auto simp: bit_1_iff)

lemma drop_bit_63: "drop_bit 63 (u :: u64) = 0 \<longleftrightarrow> \<not> bit u 63"
proof -
  have eq: "bit u (63 + n) \<longleftrightarrow> n = 0 \<and> bit u 63" for n
    using bit_imp_le_length [of u "63 + n"] by (cases n) auto
  have "drop_bit 63 u = (if bit u 63 then 1 else 0)"
    by (rule bit_word_eqI) (simp add: bit_drop_bit_eq eq bit_1_iff)
  then show ?thesis by simp
qed

lemma and_sign_bit: "u AND sign_bit = 0 \<longleftrightarrow> \<not> bit u 63"
proof -
  have "u AND sign_bit = (if bit u 63 then sign_bit else 0)"
    by (rule bit_word_eqI) (auto simp: bit_simps)
  moreover have "sign_bit \<noteq> 0" by (simp add: sign_bit_def)
  ultimately show ?thesis by simp
qed

lemma float_code_inverse:
  assumes "u \<noteq> sign_bit" "is_NaN u \<longrightarrow> u AND sign_bit \<noteq> 0"
  defines "c \<equiv> (if F64_ge_0 u then u XOR sign_bit else NOT u)"
  shows "(if drop_bit 63 c = 0 then NOT c else c XOR sign_bit) = u"
  using assms by (auto simp: F64_ge_0_def drop_bit_63 and_sign_bit bit_xor_iff bit_not_iff)

lemma DecodeValue_EncodeValue:
  assumes "canonical v" "EncodeValue v = Some e"
  shows "\<exists>t inp. e = t # inp \<and> DecodeValue t (inp @ xs) = Some (v, xs)"
proof -
  consider "Type v = TypeInt64" | "Type v = TypeBytes" | "Type v = TypeBool" | "Type v = TypeFloat64"
    using assms(1) by (auto simp: canonical_def)
  then show ?thesis
  proof cases
    case 1
    then show ?thesis using assms
      by (auto simp: canonical_def EncodeValue_def DecodeValue_def Type_defs byte_simps)
  next
    case 2
    then show ?thesis using assms
      by (auto simp: canonical_def EncodeValue_def DecodeValue_def Type_defs takeWhile_escape unescape_escape)
  next
    case 3
    then show ?thesis using assms
      by (auto simp: canonical_def EncodeValue_def DecodeValue_def Type_defs byte_simps)
  next
    case 4
    then have "F64 v \<noteq> sign_bit" "is_NaN (F64 v) \<longrightarrow> F64 v AND sign_bit \<noteq> 0"
      "v = zero_Value\<lparr>Type := TypeFloat64, F64 := F64 v\<rparr>"
      using assms(1) by (auto simp: canonical_def Type_defs)
    moreover define c where "c = (if F64_ge_0 (F64 v) then F64 v XOR sign_bit else NOT (F64 v))"
    ultimately have c: "(if drop_bit 63 c = 0 then NOT c else c XOR sign_bit) = F64 v"
      "v = zero_Value\<lparr>Type := TypeFloat64, F64 := F64 v\<rparr>"
      unfolding c_def by (blast intro: float_code_inverse)+
    have e: "e = TypeFloat64 # be_bytes 8 c" using 4 assms(2) by (simp add: EncodeValue_def Type_defs c_def)
    have "DecodeValue TypeFloat64 (be_bytes 8 c @ xs) =
        Some (zero_Value\<lparr>Type := TypeFloat64, F64 := if drop_bit 63 c = 0 then NOT c else c XOR sign_bit\<rparr>, xs)"
      by (simp add: DecodeValue_def Type_defs byte_simps)
    then show ?thesis using e c by simp
  qed
qed

lemma EncodeValues_append:
  "EncodeValues out vals = map_option (\<lambda>e. out @ e) (EncodeValues [] vals)"
proof (induction vals arbitrary: out)
  case Nil
  then show ?case by simp
next
  case (Cons v vals)
  show ?case
  proof (cases "EncodeValue v")
    case (Some e)
    then show ?thesis using Cons [of "out @ e"] Cons [of e] by (simp add: option.map_comp comp_def)
  qed simp
qed

lemma EncodeValues_Cons:
  "EncodeValues [] (v # vs) = Some e \<longleftrightarrow>
   (\<exists>e1 e2. EncodeValue v = Some e1 \<and> EncodeValues [] vs = Some e2 \<and> e = e1 @ e2)"
proof (cases "EncodeValue v")
  case (Some e1)
  then show ?thesis using EncodeValues_append [of e1 vs] by auto
qed simp

lemma canonical_EncodeValue: "canonical v \<Longrightarrow> \<exists>e. EncodeValue v = Some e"
  by (auto simp: canonical_def EncodeValue_def)

lemma DecodeValues_EncodeValues:
  assumes "list_all canonical vals"
  shows "\<exists>e. EncodeValues [] vals = Some e \<and> DecodeValues e out = Some (out @ vals)"
  using assms
proof (induction vals arbitrary: out)
  case Nil
  then show ?case by simp
next
  case (Cons v vals)
  obtain e es where e: "EncodeValue v = Some e" "EncodeValues [] vals = Some es"
    "DecodeValues es (out @ [v]) = Some ((out @ [v]) @ vals)"
    using Cons.IH [of "out @ [v]"] Cons.prems canonical_EncodeValue [of v] by auto
  obtain t inp where t: "e = t # inp" "DecodeValue t (inp @ es) = Some (v, es)"
    using DecodeValue_EncodeValue [OF _ e(1), of es] Cons.prems by auto
  have "EncodeValues [] (v # vals) = Some (e @ es)"
    using e by (simp add: EncodeValues_append [of e])
  then show ?case using e(3) t by simp
qed

section \<open>Order\<close>

text \<open>Byte strings of equal length are compared before what follows them.\<close>

lemma append_less_append:
  fixes u z :: bytes
  assumes "length xs = length ys"
  shows "xs @ u < ys @ z \<longleftrightarrow> xs < ys \<or> xs = ys \<and> u < z"
  using assms by (induction xs ys rule: list_induct2) auto

lemma unat_low_byte: "unat (w :: u64) = 256 * unat (drop_bit 8 w) + unat (ucast w :: byte)"
proof -
  have "unat (drop_bit 8 w) = unat w div 256" unfolding unat_drop_bit_eq by (simp add: drop_bit_eq_div)
  moreover have "unat (ucast w :: byte) = unat w mod 256" by (simp add: unsigned_ucast_eq take_bit_eq_mod)
  ultimately show ?thesis by simp
qed

lemma be_bytes_less:
  "unat v < 256 ^ n \<Longrightarrow> unat w < 256 ^ n \<Longrightarrow> be_bytes n (v :: u64) < be_bytes n w \<longleftrightarrow> v < w"
proof (induction n arbitrary: v w)
  case 0
  then show ?case by (simp add: be_bytes_def word_less_nat_alt)
next
  case (Suc n)
  let ?v = "drop_bit 8 v" and ?w = "drop_bit 8 w" and ?a = "ucast v :: byte" and ?b = "ucast w :: byte"
  note dec = unat_low_byte [of v] unat_low_byte [of w]
  have "be_bytes n ?v < be_bytes n ?w \<longleftrightarrow> ?v < ?w" "be_bytes n ?w < be_bytes n ?v \<longleftrightarrow> ?w < ?v"
    using Suc.prems dec by (auto intro!: Suc.IH)
  then have eq: "be_bytes n ?v = be_bytes n ?w \<longleftrightarrow> ?v = ?w"
    by (metis less_irrefl linorder_less_linear)
  have "be_bytes (Suc n) v < be_bytes (Suc n) w \<longleftrightarrow> ?v < ?w \<or> ?v = ?w \<and> ?a < ?b"
    using \<open>be_bytes n ?v < be_bytes n ?w \<longleftrightarrow> ?v < ?w\<close> eq append_less_append [of "be_bytes n ?v" "be_bytes n ?w" "[?a]" "[?b]"]
    by (simp add: be_bytes_def)
  also have "\<dots> \<longleftrightarrow> v < w"
  proof -
    have "unat ?a < 256" "unat ?b < 256" using unsigned_less [of ?a] unsigned_less [of ?b] by simp_all
    then show ?thesis using dec by (simp add: word_less_nat_alt word_unat_eq_iff) linarith
  qed
  finally show ?case .
qed

lemma be_bytes_8_less: "be_bytes 8 (v :: u64) < be_bytes 8 w \<longleftrightarrow> v < w"
  using be_bytes_less [of v 8 w] unsigned_less [of v] unsigned_less [of w] by simp

lemma be_bytes_8_eq: "be_bytes 8 (v :: u64) = be_bytes 8 w \<longleftrightarrow> v = w"
  by (metis be_val_u64)

lemma escape_less:
  "escapeBytes a @ 0 # u < escapeBytes b @ 0 # z \<longleftrightarrow> a < b \<or> a = b \<and> (u :: bytes) < z"
proof (induction a arbitrary: b)
  case Nil
  show ?case by (cases b) (auto simp: word_less_nat_alt unat_gt_0)
next
  case (Cons x a)
  show ?case
  proof (cases b)
    case Nil
    then show ?thesis by (auto simp: word_less_nat_alt)
  next
    case (Cons y b')
    have cx: "x = 0 \<or> x = 1 \<or> 1 < x" and cy: "y = 0 \<or> y = 1 \<or> 1 < y"
      by (auto simp: word_less_nat_alt word_unat_eq_iff)
    have less: "0 < y" if "1 < y" for y :: byte using that by (rule less_trans [rotated]) simp
    show ?thesis
      using cx cy less [of x] less [of y] Cons.IH [of b'] unfolding Cons
      by (elim disjE) auto
  qed
qed

text \<open>Flipping the sign bit maps the signed order to the unsigned one.\<close>

lemma xor_sign_bit_plus: "u XOR sign_bit = u + sign_bit"
proof -
  have plus: "w XOR sign_bit = w + sign_bit" if "\<not> bit w 63" for w :: u64
  proof -
    have "w AND sign_bit = 0" using that by (simp add: and_sign_bit)
    then show ?thesis by (simp add: disjunctive_add_eq_xor)
  qed
  show ?thesis
  proof (cases "bit u 63")
    case True
    then have u: "u = (u XOR sign_bit) + sign_bit"
      using plus [of "u XOR sign_bit"] by (simp add: bit_xor_iff)
    have "sign_bit + sign_bit = 0" by (simp add: sign_bit_def)
    then show ?thesis using arg_cong [OF u, of "\<lambda>w. w + sign_bit"] by (simp only: add.assoc add_0_right)
  qed (rule plus)
qed

lemma sint_order: "u XOR sign_bit < v XOR sign_bit \<longleftrightarrow> sint u < sint v"
proof -
  have "uint (w XOR sign_bit) = sint w + 2 ^ 63" for w :: u64
    unfolding xor_sign_bit_plus
    by (simp add: sint_uint signed_take_bit_eq_take_bit_shift uint_word_ariths sign_bit_def take_bit_eq_mod)
  then show ?thesis by (simp add: word_less_def)
qed

text \<open>
  The order of values of one type. IEEE 754 compares by sign and magnitude; both zeros
  are equal. Integers are signed, byte strings lexicographic, and false is below true.
\<close>

definition float_key :: "u64 \<Rightarrow> int" where
  "float_key u = (if bit u 63 then - int (unat (u XOR sign_bit)) else int (unat u))"

definition val_less :: "Val \<Rightarrow> Val \<Rightarrow> bool" where
  "val_less v w \<longleftrightarrow>
     (if Type v = TypeInt64 then sint (I64 v) < sint (I64 w)
      else if Type v = TypeBytes then Str v < Str w
      else if Type v = TypeBool then \<not> Bool v \<and> Bool w
      else float_key (F64 v) < float_key (F64 w))"

fun vals_less :: "Val list \<Rightarrow> Val list \<Rightarrow> bool" where
  "vals_less (v # vs) (w # ws) \<longleftrightarrow> val_less v w \<or> v = w \<and> vals_less vs ws"
| "vals_less _ _ \<longleftrightarrow> False"

text \<open>A value an index may hold: canonical, and not a NaN.\<close>

definition orderable :: "Val \<Rightarrow> bool" where
  "orderable v \<longleftrightarrow> canonical v \<and> (Type v = TypeFloat64 \<longrightarrow> \<not> is_NaN (F64 v))"

definition float_code :: "u64 \<Rightarrow> u64" where
  "float_code u = (if F64_ge_0 u then u XOR sign_bit else NOT u)"

lemma unat_sign_bit: "unat sign_bit = 2 ^ 63"
  by (simp add: sign_bit_def)

lemma bit_63_iff: "bit (u :: u64) 63 \<longleftrightarrow> 2 ^ 63 \<le> unat u"
proof -
  have lt: "unat u < 2 ^ 64" using unsigned_less [of u] by simp
  have "bit u 63 \<longleftrightarrow> bit (unat u) 63" by (simp add: bit_unsigned_iff)
  also have "\<dots> \<longleftrightarrow> odd (unat u div 2 ^ 63)" by (rule bit_iff_odd)
  also have "\<dots> \<longleftrightarrow> 2 ^ 63 \<le> unat u"
  proof (cases "2 ^ 63 \<le> unat u")
    case True
    then have "unat u div 2 ^ 63 = 1" using lt by (intro div_nat_eqI) simp_all
    then show ?thesis using True by simp
  qed simp
  finally show ?thesis .
qed

lemma unat_NOT: "unat (NOT (u :: u64)) = 2 ^ 64 - 1 - unat u"
proof -
  have "NOT u = -1 - u" by (simp add: not_eq_complement)
  moreover have "unat (-1 - u) = unat (-1 :: u64) - unat u" by (rule unat_sub) simp
  moreover have "unat (-1 :: u64) = 2 ^ 64 - 1" by (simp add: unsigned_minus_1_eq_mask mask_eq_exp_minus_1)
  ultimately show ?thesis by simp
qed

lemma float_code_unat:
  assumes "\<not> is_NaN u" "u \<noteq> sign_bit"
  shows "int (unat (float_code u)) = (if bit u 63 then 2 ^ 63 - 1 else 2 ^ 63) + float_key u"
    "bit u 63 \<longleftrightarrow> float_key u < 0"
proof -
  have lt: "unat u < 2 ^ 64" using unsigned_less [of u] by simp
  have ge: "F64_ge_0 u \<longleftrightarrow> \<not> bit u 63" using assms by (simp add: F64_ge_0_def and_sign_bit)
  have x: "unat (u XOR sign_bit) = (if bit u 63 then unat u - 2 ^ 63 else unat u + 2 ^ 63)"
  proof (cases "bit u 63")
    case False
    then have "unat u + unat sign_bit < 2 ^ 64" using bit_63_iff [of u] unat_sign_bit by simp
    then show ?thesis using False unat_sign_bit unfolding xor_sign_bit_plus
      by (simp add: unat_add_lem [THEN iffD1])
  next
    case True
    have "sign_bit = - sign_bit" by (simp add: sign_bit_def)
    then have m: "u + sign_bit = u - sign_bit" by (metis diff_minus_eq_add)
    have "unat (u - sign_bit) = unat u - unat sign_bit"
      using True bit_63_iff [of u] unat_sign_bit by (intro unat_sub) (simp add: word_le_nat_alt)
    then show ?thesis using True by (simp only: xor_sign_bit_plus m unat_sign_bit if_True)
  qed
  have ne: "bit u 63 \<Longrightarrow> 2 ^ 63 < unat u"
    using assms(2) bit_63_iff [of u] unat_sign_bit by (metis le_neq_implies_less word_unat_eq_iff)
  show "int (unat (float_code u)) = (if bit u 63 then 2 ^ 63 - 1 else 2 ^ 63) + float_key u"
  proof (cases "bit u 63")
    case True
    then have "int (unat (float_code u)) = int (2 ^ 64 - 1 - unat u)" "float_key u = - int (unat u - 2 ^ 63)"
      by (simp_all only: float_code_def ge float_key_def unat_NOT x if_True if_False not_True_eq_False)
    moreover have "int (2 ^ 64 - 1 - n) = 2 ^ 63 - 1 + - int (n - 2 ^ 63)" if "n < 2 ^ 64" "2 ^ 63 < n" for n :: nat
      using that by (simp add: of_nat_diff)
    ultimately show ?thesis using True lt ne by (simp only: if_True)
  next
    case False
    then have "int (unat (float_code u)) = int (unat u + 2 ^ 63)" "float_key u = int (unat u)"
      by (simp_all only: float_code_def ge float_key_def x if_True if_False not_False_eq_True)
    then show ?thesis using False by simp
  qed
  show "bit u 63 \<longleftrightarrow> float_key u < 0"
    using ne x by (simp add: float_key_def)
qed

lemma float_code_less:
  assumes "\<not> is_NaN u" "u \<noteq> sign_bit" "\<not> is_NaN v" "v \<noteq> sign_bit"
  shows "float_code u < float_code v \<longleftrightarrow> float_key u < float_key v"
proof -
  have "float_code u < float_code v \<longleftrightarrow> int (unat (float_code u)) < int (unat (float_code v))"
    by (simp only: word_less_nat_alt of_nat_less_iff)
  then show ?thesis using float_code_unat [OF assms(1,2)] float_code_unat [OF assms(3,4)] by auto
qed

lemma float_code_inj:
  assumes "\<not> is_NaN u" "u \<noteq> sign_bit" "\<not> is_NaN v" "v \<noteq> sign_bit"
  shows "float_code u = float_code v \<longleftrightarrow> u = v"
proof
  let ?d = "\<lambda>c. if drop_bit 63 c = 0 then NOT c else c XOR sign_bit :: u64"
  have d: "?d (float_code w) = w" if "\<not> is_NaN w" "w \<noteq> sign_bit" for w
    unfolding float_code_def by (rule float_code_inverse) (use that in simp_all)
  assume "float_code u = float_code v"
  then have "?d (float_code u) = ?d (float_code v)" by (rule arg_cong)
  then show "u = v" unfolding d [OF assms(1,2)] d [OF assms(3,4)] .
qed simp

lemma EncodeValue_less:
  assumes "orderable v" "orderable w" "Type v = Type w" "EncodeValue v = Some e" "EncodeValue w = Some f"
  shows "e @ u < f @ z \<longleftrightarrow> val_less v w \<or> v = w \<and> (u :: bytes) < z"
proof -
  consider "Type v = TypeInt64" | "Type v = TypeBytes" | "Type v = TypeBool" | "Type v = TypeFloat64"
    using assms(1) by (auto simp: orderable_def canonical_def)
  then show ?thesis
  proof cases
    case 1
    then have "v = w \<longleftrightarrow> I64 v = I64 w"
      using assms(1-3) by (auto simp: orderable_def canonical_def Type_defs)
    then show ?thesis using 1 assms(3-5)
        append_less_append [of "be_bytes 8 (I64 v XOR sign_bit)" "be_bytes 8 (I64 w XOR sign_bit)" u z]
      by (auto simp: EncodeValue_def val_less_def be_bytes_8_less be_bytes_8_eq sint_order xor_cancel_right)
  next
    case 2
    then have "v = w \<longleftrightarrow> Str v = Str w"
      using assms(1-3) by (auto simp: orderable_def canonical_def Type_defs)
    then show ?thesis using 2 assms(3-5)
      by (auto simp: EncodeValue_def val_less_def Type_defs escape_less)
  next
    case 3
    then have "v = w \<longleftrightarrow> Bool v = Bool w"
      using assms(1-3) by (auto simp: orderable_def canonical_def Type_defs)
    then show ?thesis using 3 assms(3-5)
      by (auto simp: EncodeValue_def val_less_def Type_defs)
  next
    case 4
    then have f: "\<not> is_NaN (F64 v)" "F64 v \<noteq> sign_bit" "\<not> is_NaN (F64 w)" "F64 w \<noteq> sign_bit"
      and eq: "v = w \<longleftrightarrow> F64 v = F64 w"
      using assms(1-3) by (auto simp: orderable_def canonical_def Type_defs)
    have inj: "float_code (F64 v) = float_code (F64 w) \<longleftrightarrow> F64 v = F64 w"
      by (rule float_code_inj [OF f])
    have "e = 4 # be_bytes 8 (float_code (F64 v))" "f = 4 # be_bytes 8 (float_code (F64 w))"
      using 4 assms(3-5) by (simp_all add: EncodeValue_def Type_defs float_code_def)
    then show ?thesis using 4 assms(3) eq inj float_code_less [OF f]
        append_less_append [of "be_bytes 8 (float_code (F64 v))" "be_bytes 8 (float_code (F64 w))" u z]
      by (simp add: val_less_def Type_defs be_bytes_8_less be_bytes_8_eq)
  qed
qed

lemma EncodeValues_less:
  assumes "list_all orderable vs" "list_all orderable ws" "map Type vs = map Type ws"
    "EncodeValues [] vs = Some e" "EncodeValues [] ws = Some f"
  shows "e < f \<longleftrightarrow> vals_less vs ws"
  using assms
proof (induction vs arbitrary: ws e f)
  case Nil
  then show ?case by simp
next
  case (Cons v vs)
  obtain w ws' where ws: "ws = w # ws'" using Cons.prems(3) by (cases ws) auto
  obtain e1 e2 where e: "EncodeValue v = Some e1" "EncodeValues [] vs = Some e2" "e = e1 @ e2"
    using Cons.prems(4) unfolding EncodeValues_Cons by blast
  obtain f1 f2 where f: "EncodeValue w = Some f1" "EncodeValues [] ws' = Some f2" "f = f1 @ f2"
    using Cons.prems(5) unfolding ws EncodeValues_Cons by blast
  have "e2 < f2 \<longleftrightarrow> vals_less vs ws'"
    using Cons.prems ws e(2) f(2) by (intro Cons.IH) simp_all
  then show ?case
    using EncodeValue_less [OF _ _ _ e(1) f(1), of e2 f2] Cons.prems ws e(3) f(3) by simp
qed

text \<open>
  Negative zero and the NaNs with a clear sign bit are the floats that come back as something else.
\<close>

definition float_value :: "u64 \<Rightarrow> Val" where
  "float_value u = zero_Value\<lparr>Type := TypeFloat64, F64 := u\<rparr>"

lemma EncodeValues_single:
  "EncodeValue v = Some e \<Longrightarrow> EncodeValues [] [v] = Some e"
  by simp

text \<open>C23. Every list of canonical values (integers, byte strings, booleans, floats other than negative
  zero and sign-clear NaNs) is encoded without panic, and decoding the bytes gives the list back.\<close>

theorem encode_decode_roundtrip:
  assumes "list_all canonical vals"
  shows "\<exists>e. EncodeValues [] vals = Some e \<and> DecodeValues e [] = Some vals"
  using DecodeValues_EncodeValues [OF assms, of "[]"] by simp

theorem encode_decode_roundtrip_witness:
  "\<exists>e. EncodeValues [] [zero_Value\<lparr>Type := TypeInt64, I64 := -5\<rparr>, zero_Value\<lparr>Type := TypeBytes, Str := [0, 1, 7]\<rparr>,
      zero_Value\<lparr>Type := TypeBool, Bool := True\<rparr>, float_value 0xC000000000000000] = Some e \<and>
    DecodeValues e [] = Some [zero_Value\<lparr>Type := TypeInt64, I64 := -5\<rparr>, zero_Value\<lparr>Type := TypeBytes, Str := [0, 1, 7]\<rparr>,
      zero_Value\<lparr>Type := TypeBool, Bool := True\<rparr>, float_value 0xC000000000000000]"
  by (rule encode_decode_roundtrip)
    (simp add: canonical_def float_value_def zero_Value_def Type_defs sign_bit_def is_NaN_def)

text \<open>C24. For two keys with the same column types, the byte order of the encodings is the order of the
  column values, column by column: signed integers, byte strings, booleans, floats.\<close>

theorem encoding_preserves_order:
  assumes "list_all orderable vs" "list_all orderable ws" "map Type vs = map Type ws"
    "EncodeKey [] p vs = Some e" "EncodeKey [] p ws = Some f"
  shows "e < f \<longleftrightarrow> vals_less vs ws"
proof -
  obtain e' f' where ef: "EncodeValues [] vs = Some e'" "e = be_bytes 4 p @ e'"
    "EncodeValues [] ws = Some f'" "f = be_bytes 4 p @ f'"
    using assms(4,5) EncodeValues_append [of "be_bytes 4 p" vs] EncodeValues_append [of "be_bytes 4 p" ws]
    by (auto simp: EncodeKey_def)
  have "e < f \<longleftrightarrow> e' < f'" using ef append_less_append [of "be_bytes 4 p" "be_bytes 4 p" e' f'] by simp
  then show ?thesis using EncodeValues_less [OF assms(1-3) ef(1,3)] by simp
qed

theorem encoding_preserves_order_witness:
  "\<exists>e f. EncodeKey [] 7 [zero_Value\<lparr>Type := TypeInt64, I64 := -5\<rparr>] = Some e \<and>
     EncodeKey [] 7 [zero_Value\<lparr>Type := TypeInt64, I64 := 3\<rparr>] = Some f \<and> e < f"
proof -
  let ?v = "zero_Value\<lparr>Type := TypeInt64, I64 := -5\<rparr>" and ?w = "zero_Value\<lparr>Type := TypeInt64, I64 := 3\<rparr>"
  obtain e f where ef: "EncodeKey [] 7 [?v] = Some e" "EncodeKey [] 7 [?w] = Some f"
    by (simp add: EncodeKey_def EncodeValue_def)
  have o: "list_all orderable [?v]" "list_all orderable [?w]" "map Type [?v] = map Type [?w]" "vals_less [?v] [?w]"
    by (simp_all add: orderable_def canonical_def zero_Value_def Type_defs val_less_def)
  show ?thesis using encoding_preserves_order [OF o(1-3) ef] o(4) ef by blast
qed

text \<open>Negative zero is the one number the encoding loses: it is written as the smallest key of all
  floats, and is read back as a NaN.\<close>

theorem negative_zero_not_preserved:
  "EncodeValues [] [float_value sign_bit] = Some (TypeFloat64 # replicate 8 0) \<and>
   DecodeValues (TypeFloat64 # replicate 8 0) [] = Some [float_value (-1)] \<and> is_NaN (-1)"
  by code_simp

text \<open>A value of one of the four types in which only the field of its type is set.\<close>

definition well_typed :: "Val \<Rightarrow> bool" where
  "well_typed v \<longleftrightarrow>
     (if Type v = TypeInt64 then v = zero_Value\<lparr>Type := TypeInt64, I64 := I64 v\<rparr>
      else if Type v = TypeBytes then v = zero_Value\<lparr>Type := TypeBytes, Str := Str v\<rparr>
      else if Type v = TypeBool then v = zero_Value\<lparr>Type := TypeBool, Bool := Bool v\<rparr>
      else Type v = TypeFloat64 \<and> v = zero_Value\<lparr>Type := TypeFloat64, F64 := F64 v\<rparr>)"

lemma DecodeValue_well_typed: "DecodeValue t inp = Some (v, rest) \<Longrightarrow> well_typed v \<and> Type v = t"
  by (auto simp: DecodeValue_def well_typed_def Let_def Type_defs zero_Value_def bind_eq_Some_conv split: if_splits)

lemma DecodeValues_well_typed: "DecodeValues data out = Some vs \<Longrightarrow> list_all well_typed out \<Longrightarrow> list_all well_typed vs"
  by (induction data out rule: DecodeValues.induct) (auto dest: DecodeValue_well_typed split: option.splits)



end
