(* ===== verification/Relational.thy ===== *)
theory Relational
  imports Transaction Encoding Iterator
begin

text \<open>
  Tables over a storage: \<^verbatim>\<open>internal/relational/types.go\<close> and \<^verbatim>\<open>internal/relational/table.go\<close>. A table definition is shared
  by reference, but only \<open>CreateTable\<close> and the executor's \<^verbatim>\<open>CREATE INDEX\<close> write to it, so it is a value here. A panic (an index out of range, a value of
  no type) is \<open>None\<close>, an error is a value of \<open>rel_error\<close>, and the state after an error is returned with it.
\<close>

definition TInt64 :: byte where "TInt64 = 1"
definition TBytes :: byte where "TBytes = 2"
definition TBool :: byte where "TBool = 3"
definition TFloat64 :: byte where "TFloat64 = 4"

record ColumnDef =
  col_Name :: string
  col_Type :: byte

record IndexDef =
  idx_Name :: string
  idx_Keys :: "string list"
  idx_Unique :: bool

record TableDef =
  tab_Name :: string
  Cols :: "ColumnDef list"
  PKeys :: int
  Indexes :: "IndexDef list"
  Prefix :: u32

record Record =
  rec_Cols :: "string list"
  rec_Vals :: "Val list"

datatype rel_error =
  ColumnNotFound string | MissingKey string | TableExists string | NoPrimaryKey | TableNotFound string | StoreError

text \<open>A slice or an index of type \<open>int\<close>: a negative one panics.\<close>

definition cut_to :: "'a list \<Rightarrow> int \<Rightarrow> 'a list option" where
  "cut_to xs n = (if n < 0 then None else slice_to xs (nat n))"

definition cut_from :: "'a list \<Rightarrow> int \<Rightarrow> 'a list option" where
  "cut_from xs n = (if n < 0 then None else slice_from xs (nat n))"

section \<open>Records\<close>

fun position :: "string \<Rightarrow> nat \<Rightarrow> string list \<Rightarrow> nat option" where
  "position x i [] = None"
| "position x i (y # ys) = (if y = x then Some i else position x (Suc i) ys)"

definition Record_Get :: "Record \<Rightarrow> string \<Rightarrow> (Val \<times> int) option" where
  "Record_Get r col =
     (case position col 0 (rec_Cols r) of
        Some i \<Rightarrow> do { v \<leftarrow> index (rec_Vals r) i; Some (v, int i) }
      | None \<Rightarrow> Some (zero_Value, -1))"

text \<open>The loop of \<open>checkRecord\<close> over the columns of a record, from the \<open>i\<close>-th on.\<close>

fun fill_vals :: "TableDef \<Rightarrow> Record \<Rightarrow> nat \<Rightarrow> string list \<Rightarrow> Val list \<Rightarrow> (rel_error + Val list) option" where
  "fill_vals tdef rec i [] vals = Some (Inr vals)"
| "fill_vals tdef rec i (col # cols) vals =
     (case position col 0 (map col_Name (Cols tdef)) of
        None \<Rightarrow> Some (Inl (ColumnNotFound col))
      | Some j \<Rightarrow> do { v \<leftarrow> index (rec_Vals rec) i; fill_vals tdef rec (Suc i) cols (vals[j := v]) })"

text \<open>The loop of \<open>checkRecord\<close> over the primary key: the first column without a value.\<close>

fun first_missing :: "TableDef \<Rightarrow> Val list \<Rightarrow> nat \<Rightarrow> nat \<Rightarrow> string option option" where
  "first_missing tdef vals i 0 = Some None"
| "first_missing tdef vals i (Suc n) = do {
     v \<leftarrow> index vals i;
     (if Type v = 0 then do { c \<leftarrow> index (Cols tdef) i; Some (Some (col_Name c)) }
      else first_missing tdef vals (Suc i) n)
   }"

definition checkRecord :: "TableDef \<Rightarrow> Record \<Rightarrow> int \<Rightarrow> (rel_error + Val list) option" where
  "checkRecord tdef rec n = do {
     let vals = map (\<lambda>c. zero_Value\<lparr>Type := TypeByColType (col_Type c)\<rparr>) (Cols tdef);
     r \<leftarrow> fill_vals tdef rec 0 (rec_Cols rec) vals;
     (case r of
        Inl e \<Rightarrow> Some (Inl e)
      | Inr vals \<Rightarrow>
          if n = PKeys tdef then do { ks \<leftarrow> cut_to vals (PKeys tdef); Some (Inr ks) }
          else do {
            m \<leftarrow> first_missing tdef vals 0 (nat (PKeys tdef));
            (case m of Some c \<Rightarrow> Some (Inl (MissingKey c)) | None \<Rightarrow> Some (Inr vals))
          })
   }"

section \<open>Tables\<close>

record 's rel_DB =
  rel_kv :: 's
  tables :: "string \<Rightarrow> TableDef option"

definition OpenDB :: "'s \<Rightarrow> 's rel_DB" where
  "OpenDB s = \<lparr>rel_kv = s, tables = (\<lambda>_. None)\<rparr>"

definition DB_TableDef :: "'s rel_DB \<Rightarrow> string \<Rightarrow> TableDef option" where
  "DB_TableDef db name = tables db name"

definition hashTableName :: "string \<Rightarrow> u32" where
  "hashTableName name = fold (\<lambda>c h. (push_bit 5 h + h) + ucast (of_char c :: byte)) name 5381"

definition CreateTable :: "'s rel_DB \<Rightarrow> TableDef \<Rightarrow> rel_error option \<times> 's rel_DB" where
  "CreateTable db tdef =
     (if tables db (tab_Name tdef) \<noteq> None then (Some (TableExists (tab_Name tdef)), db)
      else if PKeys tdef < 1 then (Some NoPrimaryKey, db)
      else
        let tdef = tdef\<lparr>Prefix := hashTableName (tab_Name tdef)\<rparr>
        in (None, db\<lparr>tables := (tables db)(tab_Name tdef \<mapsto> tdef)\<rparr>))"

definition dbGet :: "'s storage \<Rightarrow> 's rel_DB \<Rightarrow> TableDef \<Rightarrow> Record \<Rightarrow> (rel_error + bool \<times> Record) option" where
  "dbGet S db tdef rec = do {
     r \<leftarrow> checkRecord tdef rec (PKeys tdef);
     (case r of
        Inl e \<Rightarrow> Some (Inl e)
      | Inr vals \<Rightarrow> do {
          key \<leftarrow> EncodeKey [] (Prefix tdef) vals;
          v \<leftarrow> s_Get S (rel_kv db) key;
          (case v of
             None \<Rightarrow> Some (Inr (False, rec))
           | Some val \<Rightarrow> do {
               vs \<leftarrow> DecodeValues val [];
               Some (Inr (True, \<lparr>rec_Cols = map col_Name (Cols tdef), rec_Vals = vs\<rparr>))
             })
        })
   }"

definition DB_Get :: "'s storage \<Rightarrow> 's rel_DB \<Rightarrow> string \<Rightarrow> Record \<Rightarrow> (rel_error + bool \<times> Record) option" where
  "DB_Get S db table rec =
     (case tables db table of None \<Rightarrow> Some (Inl (TableNotFound table)) | Some tdef \<Rightarrow> dbGet S db tdef rec)"

subsection \<open>Indexes\<close>

fun indexKeyVals_loop :: "TableDef \<Rightarrow> Val list \<Rightarrow> string list \<Rightarrow> Val list option" where
  "indexKeyVals_loop tdef row [] = Some []"
| "indexKeyVals_loop tdef row (k # ks) =
     (case position k 0 (map col_Name (Cols tdef)) of
        None \<Rightarrow> indexKeyVals_loop tdef row ks
      | Some j \<Rightarrow> do { v \<leftarrow> index row j; vs \<leftarrow> indexKeyVals_loop tdef row ks; Some (v # vs) })"

definition indexKeyVals :: "TableDef \<Rightarrow> IndexDef \<Rightarrow> Val list \<Rightarrow> Val list option" where
  "indexKeyVals tdef idx row = indexKeyVals_loop tdef row (idx_Keys idx)"

definition index_key :: "TableDef \<Rightarrow> IndexDef \<Rightarrow> Val list \<Rightarrow> bytes option" where
  "index_key tdef idx vals = do {
     vs \<leftarrow> indexKeyVals tdef idx vals;
     EncodeKey [] (hashTableName (tab_Name tdef @ ''_'' @ idx_Name idx)) vs
   }"

definition updateIndex :: "'s storage \<Rightarrow> 's \<Rightarrow> TableDef \<Rightarrow> IndexDef \<Rightarrow> Val list \<Rightarrow> (bool \<times> 's) option" where
  "updateIndex S s tdef idx vals = do {
     ikey \<leftarrow> index_key tdef idx vals;
     pk \<leftarrow> cut_to vals (PKeys tdef);
     ival \<leftarrow> EncodeValues [] pk;
     s_Set S s ikey ival
   }"

definition deleteIndex :: "'s storage \<Rightarrow> 's \<Rightarrow> TableDef \<Rightarrow> IndexDef \<Rightarrow> Val list \<Rightarrow> (bool \<times> 's) option" where
  "deleteIndex S s tdef idx vals = do {
     ikey \<leftarrow> index_key tdef idx vals;
     (_, err, s) \<leftarrow> s_Del S s ikey;
     Some (err, s)
   }"

text \<open>The loops over the indexes of a table; the flag is the error of the first operation that fails.\<close>

fun updateIndexes :: "'s storage \<Rightarrow> 's \<Rightarrow> TableDef \<Rightarrow> IndexDef list \<Rightarrow> Val list \<Rightarrow> (bool \<times> 's) option" where
  "updateIndexes S s tdef [] vals = Some (False, s)"
| "updateIndexes S s tdef (idx # is) vals = do {
     (err, s) \<leftarrow> updateIndex S s tdef idx vals;
     (if err then Some (True, s) else updateIndexes S s tdef is vals)
   }"

fun deleteIndexes :: "'s storage \<Rightarrow> 's \<Rightarrow> TableDef \<Rightarrow> IndexDef list \<Rightarrow> Val list \<Rightarrow> (bool \<times> 's) option" where
  "deleteIndexes S s tdef [] vals = Some (False, s)"
| "deleteIndexes S s tdef (idx # is) vals = do {
     (err, s) \<leftarrow> deleteIndex S s tdef idx vals;
     (if err then Some (True, s) else deleteIndexes S s tdef is vals)
   }"

subsection \<open>Updates\<close>

definition dbUpdate ::
  "'s storage \<Rightarrow> 's rel_DB \<Rightarrow> TableDef \<Rightarrow> Record \<Rightarrow> int \<Rightarrow> ((rel_error + bool) \<times> 's rel_DB) option" where
  "dbUpdate S db tdef rec mode = do {
     r \<leftarrow> checkRecord tdef rec (int (length (Cols tdef)));
     (case r of
        Inl e \<Rightarrow> Some (Inl e, db)
      | Inr vals \<Rightarrow> do {
          pk \<leftarrow> cut_to vals (PKeys tdef);
          key \<leftarrow> EncodeKey [] (Prefix tdef) pk;
          rest \<leftarrow> cut_from vals (PKeys tdef);
          val \<leftarrow> EncodeValues [] rest;
          old \<leftarrow> (if mode = 0 then s_Get S (rel_kv db) key else Some None);
          (if old \<noteq> None then Some (Inr False, db)
           else do {
             (err, s) \<leftarrow> s_Set S (rel_kv db) key val;
             (if err then Some (Inl StoreError, db\<lparr>rel_kv := s\<rparr>)
              else do {
                (err, s) \<leftarrow> updateIndexes S s tdef (Indexes tdef) vals;
                Some (if err then Inl StoreError else Inr True, db\<lparr>rel_kv := s\<rparr>)
              })
           })
        })
   }"

definition DB_Insert :: "'s storage \<Rightarrow> 's rel_DB \<Rightarrow> string \<Rightarrow> Record \<Rightarrow> ((rel_error + bool) \<times> 's rel_DB) option" where
  "DB_Insert S db table rec =
     (case tables db table of None \<Rightarrow> Some (Inl (TableNotFound table), db) | Some tdef \<Rightarrow> dbUpdate S db tdef rec 0)"

definition DB_Update :: "'s storage \<Rightarrow> 's rel_DB \<Rightarrow> string \<Rightarrow> Record \<Rightarrow> ((rel_error + bool) \<times> 's rel_DB) option" where
  "DB_Update S db table rec =
     (case tables db table of None \<Rightarrow> Some (Inl (TableNotFound table), db) | Some tdef \<Rightarrow> dbUpdate S db tdef rec 1)"

text \<open>\<open>DecodeValues\<close> appends to the row that \<open>dbDelete\<close> has already made as long as the table is wide.\<close>

definition dbDelete ::
  "'s storage \<Rightarrow> 's rel_DB \<Rightarrow> TableDef \<Rightarrow> Record \<Rightarrow> ((rel_error + bool) \<times> 's rel_DB) option" where
  "dbDelete S db tdef rec = do {
     r \<leftarrow> checkRecord tdef rec (PKeys tdef);
     (case r of
        Inl e \<Rightarrow> Some (Inl e, db)
      | Inr vals \<Rightarrow> do {
          key \<leftarrow> EncodeKey [] (Prefix tdef) vals;
          old \<leftarrow> s_Get S (rel_kv db) key;
          (case old of
             None \<Rightarrow> Some (Inr False, db)
           | Some oldVal \<Rightarrow> do {
               (deleted, err, s) \<leftarrow> s_Del S (rel_kv db) key;
               (if err then Some (Inl StoreError, db\<lparr>rel_kv := s\<rparr>)
                else if \<not> deleted then Some (Inr False, db\<lparr>rel_kv := s\<rparr>)
                else if length (Indexes tdef) > 0 then do {
                  let oldVals = vals @ replicate (length (Cols tdef) - length vals) zero_Value;
                  oldVals \<leftarrow> DecodeValues oldVal oldVals;
                  (err, s) \<leftarrow> deleteIndexes S s tdef (Indexes tdef) oldVals;
                  Some (if err then Inl StoreError else Inr True, db\<lparr>rel_kv := s\<rparr>)
                }
                else Some (Inr True, db\<lparr>rel_kv := s\<rparr>))
             })
        })
   }"

definition DB_Delete :: "'s storage \<Rightarrow> 's rel_DB \<Rightarrow> string \<Rightarrow> Record \<Rightarrow> ((rel_error + bool) \<times> 's rel_DB) option" where
  "DB_Delete S db table rec =
     (case tables db table of None \<Rightarrow> Some (Inl (TableNotFound table), db) | Some tdef \<Rightarrow> dbDelete S db tdef rec)"

section \<open>Scans\<close>

record Scanner =
  sc_tdef :: TableDef
  sc_iter :: BIter
  sc_stop :: bytes

definition Scan ::
  "'s storage \<Rightarrow> 's rel_DB \<Rightarrow> TableDef \<Rightarrow> Val list \<Rightarrow> Val list \<Rightarrow> int \<Rightarrow> int \<Rightarrow> Scanner option" where
  "Scan S db tdef start stop cmp1 cmp2 = do {
     key1 \<leftarrow> (if length start > 0 then EncodeKeyPartial [] (Prefix tdef) start cmp1 else EncodeKey [] (Prefix tdef) []);
     key2 \<leftarrow> (if length stop > 0 then EncodeKeyPartial [] (Prefix tdef) stop cmp2 else Some []);
     it \<leftarrow> s_Seek S (rel_kv db) key1;
     Some \<lparr>sc_tdef = tdef, sc_iter = it, sc_stop = key2\<rparr>
   }"

text \<open>
  \<^verbatim>\<open>Key()[:4]\<close> takes four bytes from where the key starts in its page, also where the key is shorter: the capacity of the
  slice reaches to the end of the page.
\<close>

definition key_prefix :: "BIter \<Rightarrow> u32 option" where
  "key_prefix iter = do {
     (leaf, p) \<leftarrow> last_of iter;
     pos \<leftarrow> kvPos leaf p;
     rest \<leftarrow> slice_from leaf (unat (pos + 4));
     b \<leftarrow> slice_to rest 4;
     be_get 4 b
   }"

definition Scanner_Valid :: "Scanner \<Rightarrow> bool option" where
  "Scanner_Valid s = do {
     v \<leftarrow> Valid (sc_iter s);
     (if \<not> v then Some False
      else do {
        k \<leftarrow> Key (sc_iter s);
        (if length (sc_stop s) > 0 \<and> CompareKeys k (sc_stop s) > 0 then Some False
         else do {
           w \<leftarrow> key_prefix (sc_iter s);
           Some (w = Prefix (sc_tdef s))
         })
      })
   }"

text \<open>The iterator moves over the pages of the tree it came from.\<close>

definition Scanner_Next :: "'p pager \<Rightarrow> 'p \<Rightarrow> Scanner \<Rightarrow> Scanner option" where
  "Scanner_Next P pgs s = do { it \<leftarrow> Next P pgs (sc_iter s); Some (s\<lparr>sc_iter := it\<rparr>) }"

definition Scanner_Record :: "Scanner \<Rightarrow> Record option" where
  "Scanner_Record s = do {
     v \<leftarrow> Iterator.Val (sc_iter s);
     vs \<leftarrow> DecodeValues v [];
     Some \<lparr>rec_Cols = map col_Name (Cols (sc_tdef s)), rec_Vals = vs\<rparr>
   }"

lemma key_prefix_eq:
  assumes "Key iter = Some k" "4 \<le> length k"
  shows "key_prefix iter = be_get 4 k"
proof -
  obtain leaf p pos rest where "last_of iter = Some (leaf, p)" "kvPos leaf p = Some pos" "slice_from leaf (unat (pos + 4)) = Some rest"
    "k = take (length k) rest" "length k \<le> length rest"
    using assms(1) by (auto simp: Key_def getKey_def bind_eq_Some_conv slice_to_def split: if_splits)
  moreover from this(4,5) have "take 4 rest = take 4 k" using assms(2) by (metis min.absorb1 take_take)
  ultimately show ?thesis using assms(2) by (simp add: key_prefix_def byte_simps)
qed

section \<open>Keys and records\<close>

lemma EncodeKey_eq:
  "EncodeKey [] p vs = map_option (\<lambda>e. be_bytes 4 p @ e) (EncodeValues [] vs)"
  by (simp add: EncodeKey_def EncodeValues_append [of "be_bytes 4 p"])

text \<open>Keys of different tables, and of different rows of a table, differ.\<close>

lemma EncodeKey_inj:
  assumes "list_all canonical vs" "list_all canonical ws" "EncodeKey [] p vs = Some e" "EncodeKey [] q ws = Some e"
  shows "p = q \<and> vs = ws"
proof -
  obtain a where a: "EncodeValues [] vs = Some a" "DecodeValues a [] = Some vs"
    using DecodeValues_EncodeValues [OF assms(1), of "[]"] by auto
  obtain b where b: "EncodeValues [] ws = Some b" "DecodeValues b [] = Some ws"
    using DecodeValues_EncodeValues [OF assms(2), of "[]"] by auto
  have "be_bytes 4 p @ a = be_bytes 4 q @ b" using assms(3,4) a(1) b(1) by (simp add: EncodeKey_eq)
  then have "be_bytes 4 p = be_bytes 4 q" "a = b" by simp_all
  then show ?thesis using a(2) b(2) be_val_u32 by (metis option.inject)
qed

lemma position_nth: "distinct xs \<Longrightarrow> i < length xs \<Longrightarrow> position (xs ! i) n xs = Some (n + i)"
proof (induction xs arbitrary: i n)
  case (Cons x xs)
  then show ?case by (cases i) auto
qed simp

text \<open>A record that names the first columns of a table in order.\<close>

definition names :: "TableDef \<Rightarrow> string list" where
  "names tdef = map col_Name (Cols tdef)"

definition leading :: "TableDef \<Rightarrow> Val list \<Rightarrow> Record" where
  "leading tdef vs = \<lparr>rec_Cols = take (length vs) (names tdef), rec_Vals = vs\<rparr>"

lemma fill_vals_leading:
  assumes "distinct (names tdef)" "length vs \<le> length (names tdef)" "length vals = length (names tdef)"
  shows "fill_vals tdef (leading tdef vs) 0 (rec_Cols (leading tdef vs)) vals = Some (Inr (vs @ drop (length vs) vals))"
proof -
  have "i \<le> length vs \<Longrightarrow> take i vals' = take i vs \<Longrightarrow> drop i vals' = drop i vals \<Longrightarrow>
    fill_vals tdef (leading tdef vs) i (drop i (take (length vs) (names tdef))) vals' = Some (Inr (vs @ drop (length vs) vals))" for i vals'
  proof (induction "length vs - i" arbitrary: i vals')
    case 0
    then show ?case using assms(2) by (metis append_take_drop_id diff_is_0_eq drop_all fill_vals.simps(1) le_antisym length_take min.absorb2 take_all order_refl)
  next
    case (Suc n)
    then have i: "i < length vs" "i < length (names tdef)" using assms(2) by simp_all
    have len: "length vals' = length vals" using Suc.prems(2,3)
      by (metis append_take_drop_id length_append assms(2,3) i(1) length_take min.absorb2 less_imp_le order_trans)
    have "drop i (take (length vs) (names tdef)) = names tdef ! i # drop (Suc i) (take (length vs) (names tdef))"
      using i by (metis Cons_nth_drop_Suc length_take min.absorb2 assms(2) nth_take)
    moreover have "position (names tdef ! i) 0 (map col_Name (Cols tdef)) = Some i"
      using position_nth [OF assms(1) i(2), of 0] by (simp add: names_def)
    moreover have "take (Suc i) (vals'[i := vs ! i]) = take (Suc i) vs" "drop (Suc i) (vals'[i := vs ! i]) = drop (Suc i) vals"
      using i len assms(3) Suc.prems(2,3) by (simp_all add: take_Suc_conv_app_nth) (metis Suc_n_not_le_n drop_Suc tl_drop drop_update_cancel lessI)
    ultimately show ?case using i Suc by (simp add: leading_def index_def)
  qed
  from this [of 0 vals] show ?thesis by (simp add: leading_def)
qed

definition tab_ok :: "TableDef \<Rightarrow> bool" where
  "tab_ok tdef \<longleftrightarrow> distinct (names tdef) \<and> 1 \<le> PKeys tdef \<and> PKeys tdef \<le> int (length (Cols tdef))"

abbreviation nkeys_of :: "TableDef \<Rightarrow> nat" where
  "nkeys_of tdef \<equiv> nat (PKeys tdef)"

lemma tab_ok_nkeys: "tab_ok tdef \<Longrightarrow> nkeys_of tdef \<le> length (Cols tdef) \<and> \<not> PKeys tdef < 0"
  by (auto simp: tab_ok_def)

lemma length_names [simp]: "length (names tdef) = length (Cols tdef)"
  by (simp add: names_def)

lemma canonical_Type: "canonical v \<Longrightarrow> Type v \<noteq> 0"
  by (auto simp: canonical_def Type_defs)

lemma first_missing_none:
  "\<forall>v \<in> set vals. Type v \<noteq> 0 \<Longrightarrow> i + n \<le> length vals \<Longrightarrow> first_missing tdef vals i n = Some None"
  by (induction n arbitrary: i) (auto simp: index_def)

lemma checkRecord_key:
  assumes "tab_ok tdef" "length pk = nkeys_of tdef"
  shows "checkRecord tdef (leading tdef pk) (PKeys tdef) = Some (Inr pk)"
  using assms tab_ok_nkeys [OF assms(1)] fill_vals_leading [of tdef pk "map (\<lambda>c. zero_Value\<lparr>Type := TypeByColType (col_Type c)\<rparr>) (Cols tdef)"]
  by (simp add: checkRecord_def tab_ok_def cut_to_def slice_to_def Let_def)

lemma checkRecord_row:
  assumes "tab_ok tdef" "length vs = length (Cols tdef)" "list_all canonical vs"
  shows "checkRecord tdef (leading tdef vs) (int (length (Cols tdef))) = Some (Inr vs)"
proof -
  have "\<forall>v \<in> set vs. Type v \<noteq> 0" using assms(3) canonical_Type by (auto simp: list_all_iff)
  then have "first_missing tdef vs 0 (nkeys_of tdef) = Some None"
    using assms tab_ok_nkeys [OF assms(1)] by (intro first_missing_none) simp_all
  then show ?thesis
    using assms tab_ok_nkeys [OF assms(1)] fill_vals_leading [of tdef vs "map (\<lambda>c. zero_Value\<lparr>Type := TypeByColType (col_Type c)\<rparr>) (Cols tdef)"]
    by (simp add: checkRecord_def tab_ok_def cut_to_def slice_to_def Let_def)
qed

context storage_spec
begin

text \<open>The stored row of a key, decoded.\<close>

lemma dbGet_key:
  assumes "ready n (rel_kv db)" "tab_ok tdef" "length pk = nkeys_of tdef" "EncodeKey [] (Prefix tdef) pk = Some key"
  shows "dbGet S db tdef (leading tdef pk) =
    (case content (rel_kv db) key of
       None \<Rightarrow> Some (Inr (False, leading tdef pk))
     | Some val \<Rightarrow> map_option (\<lambda>vs. Inr (True, \<lparr>rec_Cols = names tdef, rec_Vals = vs\<rparr>)) (DecodeValues val []))"
  using assms get [OF assms(1), of key] checkRecord_key [OF assms(2,3)]
  by (auto simp: dbGet_def names_def map_conv_bind_option comp_def split: option.split)

lemma dbUpdate_row:
  assumes "ready (Suc n) (rel_kv db)" "tab_ok tdef" "Indexes tdef = []" "length vs = length (Cols tdef)" "list_all canonical vs"
    "EncodeKey [] (Prefix tdef) (take (nkeys_of tdef) vs) = Some key" "EncodeValues [] (drop (nkeys_of tdef) vs) = Some val"
    "fit key (Some val)"
  shows "\<exists>s. dbUpdate S db tdef (leading tdef vs) mode =
      Some (if mode = 0 \<and> content (rel_kv db) key \<noteq> None then (Inr False, db) else (Inr True, db\<lparr>rel_kv := s\<rparr>)) \<and>
    ready n s \<and> content s = (content (rel_kv db))(key \<mapsto> val)"
proof -
  obtain s where "s_Set S (rel_kv db) key val = Some (False, s)" "ready n s" "content s = (content (rel_kv db))(key \<mapsto> val)"
    using set [OF assms(1,8)] by blast
  then show ?thesis using assms get [OF assms(1), of key] checkRecord_row [OF assms(2,4,5)]
      tab_ok_nkeys [OF assms(2)]
    by (auto simp: dbUpdate_def cut_to_def slice_to_def cut_from_def slice_from_def)
qed

lemma dbDelete_key:
  assumes "ready (Suc n) (rel_kv db)" "tab_ok tdef" "Indexes tdef = []" "length pk = nkeys_of tdef"
    "EncodeKey [] (Prefix tdef) pk = Some key" "fit key None"
  shows "\<exists>s. dbDelete S db tdef (leading tdef pk) =
      Some (if content (rel_kv db) key = None then (Inr False, db) else (Inr True, db\<lparr>rel_kv := s\<rparr>)) \<and>
    ready n s \<and> content s = (content (rel_kv db))(key := None)"
proof -
  obtain s where "s_Del S (rel_kv db) key = Some (content (rel_kv db) key \<noteq> None, False, s)" "ready n s" "content s = (content (rel_kv db))(key := None)"
    using del [OF assms(1,6)] by blast
  then show ?thesis using assms get [OF assms(1), of key] checkRecord_key [OF assms(2,4)]
    by (auto simp: dbDelete_def split: option.split)
qed

lemma DB_Get_unchanged:
  assumes "ready n (rel_kv db)" "ready m s" "content s = (content (rel_kv db))(key := v)"
    "EncodeKey [] p vs = Some key" "list_all canonical vs"
    "tables db u = Some udef" "tab_ok udef" "length pk = nkeys_of udef" "list_all canonical pk" "(Prefix udef, pk) \<noteq> (p, vs)"
  shows "DB_Get S (db\<lparr>rel_kv := s\<rparr>) u (leading udef pk) = DB_Get S db u (leading udef pk)"
proof -
  obtain k where k: "EncodeKey [] (Prefix udef) pk = Some k" using DecodeValues_EncodeValues [OF assms(9), of "[]"] by (auto simp: EncodeKey_eq)
  have "k \<noteq> key" using EncodeKey_inj [OF assms(9,5) k, of p] assms(4,10) by auto
  then show ?thesis using dbGet_key [OF assms(1,7,8) k] dbGet_key [of m "db\<lparr>rel_kv := s\<rparr>", OF _ assms(7,8) k] assms(2,3,6)
    by (simp add: DB_Get_def)
qed

lemma table_Insert_map:
  assumes "ready (Suc n) (rel_kv db)" "tables db t = Some tdef" "tab_ok tdef" "Indexes tdef = []"
    "length vs = length (Cols tdef)" "list_all canonical vs"
    "EncodeKey [] (Prefix tdef) (take (nkeys_of tdef) vs) = Some key" "EncodeValues [] (drop (nkeys_of tdef) vs) = Some val"
    "fit key (Some val)" "content (rel_kv db) key = None"
  shows "\<exists>db'. DB_Insert S db t (leading tdef vs) = Some (Inr True, db') \<and> ready n (rel_kv db') \<and> tables db' = tables db \<and>
    content (rel_kv db') = (content (rel_kv db))(key \<mapsto> val) \<and>
    DB_Get S db' t (leading tdef (take (nkeys_of tdef) vs)) =
      Some (Inr (True, \<lparr>rec_Cols = names tdef, rec_Vals = drop (nkeys_of tdef) vs\<rparr>)) \<and>
    (\<forall>u udef pk. tables db u = Some udef \<longrightarrow> tab_ok udef \<longrightarrow> length pk = nkeys_of udef \<longrightarrow> list_all canonical pk \<longrightarrow>
       (Prefix udef, pk) \<noteq> (Prefix tdef, take (nkeys_of tdef) vs) \<longrightarrow>
       DB_Get S db' u (leading udef pk) = DB_Get S db u (leading udef pk))"
proof -
  obtain s where s: "dbUpdate S db tdef (leading tdef vs) 0 = Some (Inr True, db\<lparr>rel_kv := s\<rparr>)" "ready n s"
    "content s = (content (rel_kv db))(key \<mapsto> val)"
    using dbUpdate_row [OF assms(1,3,4,5,6,7,8,9), of 0] assms(10) by auto
  have can: "list_all canonical (take (nkeys_of tdef) vs)" "list_all canonical (drop (nkeys_of tdef) vs)"
    using assms(6) by (auto simp: list_all_iff dest: in_set_takeD in_set_dropD)
  have len: "length (take (nkeys_of tdef) vs) = nkeys_of tdef" using tab_ok_nkeys [OF assms(3)] assms(5) by simp
  have "DecodeValues val [] = Some (drop (nkeys_of tdef) vs)" using DecodeValues_EncodeValues [OF can(2), of "[]"] assms(8) by auto
  then have "DB_Get S (db\<lparr>rel_kv := s\<rparr>) t (leading tdef (take (nkeys_of tdef) vs)) =
      Some (Inr (True, \<lparr>rec_Cols = names tdef, rec_Vals = drop (nkeys_of tdef) vs\<rparr>))"
    using dbGet_key [of n "db\<lparr>rel_kv := s\<rparr>", OF _ assms(3) len assms(7)] s assms(2) by (simp add: DB_Get_def)
  then show ?thesis using s assms(2) DB_Get_unchanged [OF assms(1) s(2,3) assms(7) can(1)] by (auto simp: DB_Insert_def)
qed

lemma table_Delete_map:
  assumes "ready (Suc n) (rel_kv db)" "tables db t = Some tdef" "tab_ok tdef" "Indexes tdef = []"
    "length pk = nkeys_of tdef" "list_all canonical pk" "EncodeKey [] (Prefix tdef) pk = Some key" "fit key None"
  shows "\<exists>db'. DB_Delete S db t (leading tdef pk) = Some (Inr (content (rel_kv db) key \<noteq> None), db') \<and> ready n (rel_kv db') \<and>
    DB_Get S db' t (leading tdef pk) = Some (Inr (False, leading tdef pk)) \<and>
    (\<forall>u udef uk. tables db u = Some udef \<longrightarrow> tab_ok udef \<longrightarrow> length uk = nkeys_of udef \<longrightarrow> list_all canonical uk \<longrightarrow>
       (Prefix udef, uk) \<noteq> (Prefix tdef, pk) \<longrightarrow> DB_Get S db' u (leading udef uk) = DB_Get S db u (leading udef uk))"
proof -
  obtain s where s: "dbDelete S db tdef (leading tdef pk) =
      Some (if content (rel_kv db) key = None then (Inr False, db) else (Inr True, db\<lparr>rel_kv := s\<rparr>))" "ready n s"
    "content s = (content (rel_kv db))(key := None)"
    using dbDelete_key [OF assms(1,3,4,5,7,8)] by blast
  show ?thesis
  proof (cases "content (rel_kv db) key")
    case None
    then show ?thesis using s assms(2) dbGet_key [OF assms(1,3,5,7)] fewer [OF assms(1), of n] by (simp add: DB_Delete_def DB_Get_def)
  next
    case (Some x)
    then show ?thesis using s assms(2) dbGet_key [of n "db\<lparr>rel_kv := s\<rparr>", OF _ assms(3,5,7)]
        DB_Get_unchanged [OF assms(1) s(2,3) assms(7,6)]
      by (auto simp: DB_Delete_def DB_Get_def [of S "db\<lparr>rel_kv := s\<rparr>" t])
  qed
qed

text \<open>An index on a column outside the primary key: \<open>dbDelete\<close> takes its value from a column that was never filled.\<close>

lemma dbDelete_index_faults:
  assumes "ready (Suc n) (rel_kv db)" "tab_ok tdef" "length pk = nkeys_of tdef"
    "EncodeKey [] (Prefix tdef) pk = Some key" "fit key None" "content (rel_kv db) key \<noteq> None"
    "Indexes tdef = idx # ids" "idx_Keys idx = [col]" "position col 0 (names tdef) = Some j" "nkeys_of tdef \<le> j" "j < length (Cols tdef)"
  shows "dbDelete S db tdef (leading tdef pk) = None"
proof -
  obtain s where s: "s_Del S (rel_kv db) key = Some (True, False, s)" using del [OF assms(1,5)] assms(6) by auto
  have "indexKeyVals tdef idx (pk @ replicate (length (Cols tdef) - length pk) zero_Value @ xs) = Some [zero_Value]" for xs
    using assms(3,8-11) by (simp add: indexKeyVals_def names_def index_def nth_append)
  moreover have "EncodeKey [] p [zero_Value] = None" for p by (simp add: EncodeKey_def EncodeValue_def zero_Value_def Type_defs)
  ultimately have fault: "index_key tdef idx ((pk @ replicate (length (Cols tdef) - length pk) zero_Value) @ xs) = None" for xs
    by (simp add: index_key_def)
  have app: "DecodeValues v out = Some r \<Longrightarrow> \<exists>xs. r = out @ xs" for v out r
    by (induction v out rule: DecodeValues.induct) (fastforce split: option.splits)+
  obtain x where x: "content (rel_kv db) key = Some x" using assms(6) by blast
  show ?thesis
  proof (cases "DecodeValues x (pk @ replicate (length (Cols tdef) - length pk) zero_Value)")
    case None
    then show ?thesis using assms(4,7) s x get [OF assms(1), of key] checkRecord_key [OF assms(2,3)]
      by (simp add: dbDelete_def Let_def)
  next
    case (Some r)
    then obtain xs where "r = (pk @ replicate (length (Cols tdef) - length pk) zero_Value) @ xs" using app by blast
    then have "index_key tdef idx r = None" using fault by simp
    then show ?thesis using Some assms(4,7) s x get [OF assms(1), of key] checkRecord_key [OF assms(2,3)]
      by (simp add: dbDelete_def deleteIndex_def Let_def)
  qed
qed

end

section \<open>Properties\<close>

text \<open>Inserting a row under a new primary key succeeds and changes that row only: reading the key back finds the values of
  the other columns as they were given, and every other key of every table, also of tables that share the store, reads as
  before. (The table has no indexes; the record names its columns in order.)\<close>

theorem table_Insert:
  assumes "mem_ready L (Suc n) (rel_kv db)" "tables db t = Some tdef" "tab_ok tdef" "Indexes tdef = []"
    "length vs = length (Cols tdef)" "list_all canonical vs"
    "EncodeKey [] (Prefix tdef) (take (nkeys_of tdef) vs) = Some key" "EncodeValues [] (drop (nkeys_of tdef) vs) = Some val"
    "mem_fit L key (Some val)" "ref (rel_kv db) key = None"
  shows "\<exists>db'. DB_Insert mem_storage db t (leading tdef vs) = Some (Inr True, db') \<and> mem_ready L n (rel_kv db') \<and> tables db' = tables db \<and>
    ref (rel_kv db') = (ref (rel_kv db))(key \<mapsto> val) \<and>
    DB_Get mem_storage db' t (leading tdef (take (nkeys_of tdef) vs)) =
      Some (Inr (True, \<lparr>rec_Cols = names tdef, rec_Vals = drop (nkeys_of tdef) vs\<rparr>)) \<and>
    (\<forall>u udef pk. tables db u = Some udef \<longrightarrow> tab_ok udef \<longrightarrow> length pk = nkeys_of udef \<longrightarrow> list_all canonical pk \<longrightarrow>
       (Prefix udef, pk) \<noteq> (Prefix tdef, take (nkeys_of tdef) vs) \<longrightarrow>
       DB_Get mem_storage db' u (leading udef pk) = DB_Get mem_storage db u (leading udef pk))"
  using assms by (rule mst.table_Insert_map)

text \<open>A table with an integer key and one more column, and a row of it.\<close>

definition pair_table :: "string \<Rightarrow> TableDef" where
  "pair_table t = \<lparr>tab_Name = t, Cols = [\<lparr>col_Name = ''id'', col_Type = TInt64\<rparr>, \<lparr>col_Name = ''v'', col_Type = TBytes\<rparr>],
     PKeys = 1, Indexes = [], Prefix = hashTableName t\<rparr>"

definition pair_row :: "Val list" where
  "pair_row = [zero_Value\<lparr>Type := TypeInt64, I64 := 5\<rparr>, zero_Value\<lparr>Type := TypeBytes, Str := [7]\<rparr>]"

definition pair_db :: "string list \<Rightarrow> memTest rel_DB" where
  "pair_db ts = fold (\<lambda>t db. snd (CreateTable db (pair_table t))) ts (OpenDB newMemTest)"

lemma pair_table_ok: "tab_ok (pair_table t)" "Indexes (pair_table t) = []" "length pair_row = length (Cols (pair_table t))"
    "list_all canonical pair_row" "nkeys_of (pair_table t) = 1"
  by (simp_all add: tab_ok_def pair_table_def names_def pair_row_def canonical_def Type_defs zero_Value_def)

lemma pair_key:
  "EncodeKey [] p (take 1 pair_row) = Some (be_bytes 4 p @ TypeInt64 # be_bytes 8 (5 XOR sign_bit))"
  "EncodeValues [] (drop 1 pair_row) = Some [TypeBytes, 7, 0]"
  by (simp_all add: EncodeKey_def pair_row_def EncodeValue_def Type_defs)

lemma pair_fit: "mem_fit 13 (be_bytes 4 p @ TypeInt64 # be_bytes 8 (5 XOR sign_bit)) (Some [TypeBytes, 7, 0])"
  by (simp add: mem_fit_def usual_def)

theorem table_Insert_witness:
  "\<exists>db'. DB_Insert mem_storage (pair_db [''t'']) ''t'' (leading (pair_table ''t'') pair_row) = Some (Inr True, db') \<and>
    DB_Get mem_storage db' ''t'' (leading (pair_table ''t'') (take 1 pair_row)) =
      Some (Inr (True, \<lparr>rec_Cols = [''id'', ''v''], rec_Vals = drop 1 pair_row\<rparr>))"
proof -
  have db: "rel_kv (pair_db [''t'']) = newMemTest" "tables (pair_db [''t'']) ''t'' = Some (pair_table ''t'')"
    by (simp_all add: pair_db_def CreateTable_def OpenDB_def pair_table_def)
  have r: "mem_ready 13 (Suc 0) (rel_kv (pair_db [''t'']))" unfolding db by (rule mem_ready_new) simp
  show ?thesis
    using table_Insert [OF r db(2) pair_table_ok(1,2,3,4), unfolded pair_table_ok(5), OF pair_key pair_fit] db
    by (auto simp: ref_new names_def pair_table_def)
qed

text \<open>Deleting by primary key reports whether the row was there, after it the key is not found, and every other key of every
  table reads as before. (The table has no indexes.)\<close>

theorem table_Delete:
  assumes "mem_ready L (Suc n) (rel_kv db)" "tables db t = Some tdef" "tab_ok tdef" "Indexes tdef = []"
    "length pk = nkeys_of tdef" "list_all canonical pk" "EncodeKey [] (Prefix tdef) pk = Some key" "mem_fit L key None"
  shows "\<exists>db'. DB_Delete mem_storage db t (leading tdef pk) = Some (Inr (ref (rel_kv db) key \<noteq> None), db') \<and> mem_ready L n (rel_kv db') \<and>
    DB_Get mem_storage db' t (leading tdef pk) = Some (Inr (False, leading tdef pk)) \<and>
    (\<forall>u udef uk. tables db u = Some udef \<longrightarrow> tab_ok udef \<longrightarrow> length uk = nkeys_of udef \<longrightarrow> list_all canonical uk \<longrightarrow>
       (Prefix udef, uk) \<noteq> (Prefix tdef, pk) \<longrightarrow>
       DB_Get mem_storage db' u (leading udef uk) = DB_Get mem_storage db u (leading udef uk))"
  using assms by (rule mst.table_Delete_map)

theorem table_Delete_witness:
  "\<exists>db'. DB_Delete mem_storage (pair_db [''t'']) ''t'' (leading (pair_table ''t'') (take 1 pair_row)) = Some (Inr False, db')"
proof -
  have db: "rel_kv (pair_db [''t'']) = newMemTest" "tables (pair_db [''t'']) ''t'' = Some (pair_table ''t'')"
    by (simp_all add: pair_db_def CreateTable_def OpenDB_def pair_table_def)
  have r: "mem_ready 13 (Suc 0) (rel_kv (pair_db [''t'']))" unfolding db by (rule mem_ready_new) simp
  have c: "list_all canonical (take 1 pair_row)" "length (take 1 pair_row) = nkeys_of (pair_table ''t'')"
    by (simp_all add: pair_row_def pair_table_def canonical_def Type_defs zero_Value_def)
  have f: "mem_fit 13 (be_bytes 4 p @ TypeInt64 # be_bytes 8 (5 XOR sign_bit)) None" for p by (simp add: mem_fit_def)
  show ?thesis using table_Delete [OF r db(2) pair_table_ok(1,2) c(2,1) pair_key(1) f] db by (auto simp: ref_new)
qed

text \<open>Deleting a row of a table whose first index is on a column outside the primary key panics whenever the row exists: the
  values of the row are decoded behind the columns instead of into them, and the index key is built from a value that has
  no type.\<close>

theorem Delete_index_panics:
  assumes "mem_ready L (Suc n) (rel_kv db)" "tables db t = Some tdef" "tab_ok tdef" "length pk = nkeys_of tdef"
    "EncodeKey [] (Prefix tdef) pk = Some key" "mem_fit L key None" "ref (rel_kv db) key \<noteq> None"
    "Indexes tdef = idx # ids" "idx_Keys idx = [col]" "position col 0 (names tdef) = Some j" "nkeys_of tdef \<le> j" "j < length (Cols tdef)"
  shows "DB_Delete mem_storage db t (leading tdef pk) = None"
  using assms(2) mst.dbDelete_index_faults [OF assms(1,3-12)] by (simp add: DB_Delete_def)

definition indexed_table :: TableDef where
  "indexed_table = (pair_table ''t'')\<lparr>Indexes := [\<lparr>idx_Name = ''by_v'', idx_Keys = [''v''], idx_Unique = False\<rparr>]\<rparr>"

theorem Delete_index_panics_witness:
  "\<exists>s. mem_ready 13 1 s \<and> DB_Delete mem_storage \<lparr>rel_kv = s, tables = [''t'' \<mapsto> indexed_table]\<rparr> ''t'' (leading indexed_table (take 1 pair_row)) = None"
proof -
  have t: "tab_ok indexed_table" "length (take 1 pair_row) = nkeys_of indexed_table"
    "Indexes indexed_table = [\<lparr>idx_Name = ''by_v'', idx_Keys = [''v''], idx_Unique = False\<rparr>]"
    "position ''v'' 0 (names indexed_table) = Some 1" "nkeys_of indexed_table \<le> 1" "1 < length (Cols indexed_table)"
    by (simp_all add: tab_ok_def indexed_table_def names_def pair_table_def pair_row_def)
  let ?k = "be_bytes 4 (Prefix indexed_table) @ TypeInt64 # be_bytes 8 (5 XOR sign_bit)"
  have "mem_ready 13 (Suc 1) newMemTest" by (rule mem_ready_new) simp
  from mst.set [OF this pair_fit [of "Prefix indexed_table"]] obtain s where s: "mem_ready 13 (Suc 0) s" "ref s ?k \<noteq> None"
    by (auto simp del: be_bytes_def)
  have f: "mem_fit 13 ?k None" by (simp add: mem_fit_def)
  have "DB_Delete mem_storage \<lparr>rel_kv = s, tables = [''t'' \<mapsto> indexed_table]\<rparr> ''t'' (leading indexed_table (take 1 pair_row)) = None"
    by (rule Delete_index_panics [OF _ _ t(1,2) pair_key(1) f _ t(3) _ t(4-6)]) (use s in simp_all)
  then show ?thesis using s(1) by auto
qed

text \<open>Tables are kept apart by a 32-bit hash of their names only: the tables \<open>Az\<close> and \<open>BY\<close> can both be created, and a row
  inserted into one is then found in the other.\<close>

theorem tables_collide:
  "\<exists>db'. DB_Insert mem_storage (pair_db [''Az'', ''BY'']) ''Az'' (leading (pair_table ''Az'') pair_row) = Some (Inr True, db') \<and>
    DB_Get mem_storage db' ''BY'' (leading (pair_table ''BY'') (take 1 pair_row)) =
      Some (Inr (True, \<lparr>rec_Cols = [''id'', ''v''], rec_Vals = drop 1 pair_row\<rparr>))"
proof -
  let ?db = "pair_db [''Az'', ''BY'']"
  have db: "rel_kv ?db = newMemTest" "tables ?db ''Az'' = Some (pair_table ''Az'')" "tables ?db ''BY'' = Some (pair_table ''BY'')"
    by (simp_all add: pair_db_def CreateTable_def OpenDB_def pair_table_def)
  have p: "Prefix (pair_table ''BY'') = Prefix (pair_table ''Az'')" by code_simp
  have r: "mem_ready 13 (Suc 0) (rel_kv ?db)" unfolding db by (rule mem_ready_new) simp
  obtain db' where db': "DB_Insert mem_storage ?db ''Az'' (leading (pair_table ''Az'') pair_row) = Some (Inr True, db')"
    "mem_ready 13 0 (rel_kv db')" "tables db' = tables ?db"
    "ref (rel_kv db') (be_bytes 4 (Prefix (pair_table ''Az'')) @ TypeInt64 # be_bytes 8 (5 XOR sign_bit)) = Some [TypeBytes, 7, 0]"
    using mst.table_Insert_map [OF r db(2) pair_table_ok(1,2,3,4), unfolded pair_table_ok(5), OF pair_key pair_fit] db(1)
    by (auto simp: ref_new)
  have c: "length (take 1 pair_row) = nkeys_of (pair_table ''BY'')" "list_all canonical (drop 1 pair_row)"
    by (simp_all add: pair_row_def pair_table_def canonical_def Type_defs zero_Value_def)
  have "DecodeValues [TypeBytes, 7, 0] [] = Some (drop 1 pair_row)"
    using DecodeValues_EncodeValues [OF c(2), of "[]"] pair_key(2) by simp
  then show ?thesis using db'(1,3,4) mst.dbGet_key [OF db'(2) pair_table_ok(1) c(1) pair_key(1)] db(3)
    by (simp add: DB_Get_def p) (simp add: names_def pair_table_def)
qed

end
