(* ===== verification/SqlExec.thy ===== *)
theory SqlExec
  imports Sql_Print Relational
begin

text \<open>
  The planner and the executor: \<^verbatim>\<open>internal/sql/planner.go\<close> and \<^verbatim>\<open>internal/sql/executor.go\<close>. The executor's state is the
  relational database it points to. A scan moves over the pages of the tree: \<open>P\<close> is the tree's pager and \<open>pgs\<close> gives its
  pages in a state of the storage. A panic is \<open>None\<close>; an error is a value, returned with the state it leaves.
\<close>

section \<open>Planning\<close>

text \<open>\<open>Kids\<close> of a comparison that has none cannot be indexed.\<close>

fun filterColumns :: "QLNode \<Rightarrow> string list option" where
  "filterColumns (QLNode t i s kids) =
     (if t = QLAnd then
        (case kids of
           l # r # _ \<Rightarrow> do { left \<leftarrow> filterColumns l; right \<leftarrow> filterColumns r; Some (left @ right) }
         | _ \<Rightarrow> None)
      else if QLLT \<le> t \<and> t \<le> QLNE then
        (case kids of
           l # _ \<Rightarrow> Some (if q_Type l = QLIdent then [q_Str l] else [])
         | [] \<Rightarrow> None)
      else Some [])"

fun indexMatch :: "string list \<Rightarrow> string list \<Rightarrow> nat" where
  "indexMatch [] cols = 0"
| "indexMatch (k # ks) cols = (if k \<in> set cols then Suc (indexMatch ks cols) else 0)"

fun best_index :: "IndexDef list \<Rightarrow> string list \<Rightarrow> IndexDef option \<Rightarrow> nat \<Rightarrow> IndexDef option \<times> nat" where
  "best_index [] cols best m = (best, m)"
| "best_index (idx # ids) cols best m =
     (let k = indexMatch (idx_Keys idx) cols in
      if k > m then best_index ids cols (Some idx) k else best_index ids cols best m)"

text \<open>A list of columns is \<^verbatim>\<open>nil\<close> in the source exactly when it is empty.\<close>

definition selectIndex :: "TableDef \<Rightarrow> QLNode \<Rightarrow> IndexDef option option" where
  "selectIndex tdef cond =
     (if q_Type cond = 0 then Some None
      else do {
        cols \<leftarrow> filterColumns cond;
        (if cols = [] then Some None
         else let (best, m) = best_index (Indexes tdef) cols None 0 in Some (if m > 0 then best else None))
      })"

section \<open>Values and aggregates\<close>

definition str_bytes :: "string \<Rightarrow> bytes" where
  "str_bytes s = map of_char s"

definition evalNode :: "QLNode \<Rightarrow> Val" where
  "evalNode n =
     (if q_Type n = QLI64 then zero_Value\<lparr>Type := TypeInt64, I64 := q_I64 n\<rparr>
      else if q_Type n = QLStr then zero_Value\<lparr>Type := TypeBytes, Str := str_bytes (q_Str n)\<rparr>
      else if q_Type n = QLIdent then zero_Value\<lparr>Type := TypeBytes, Str := str_bytes (q_Str n)\<rparr>
      else zero_Value)"

definition evalNodes :: "QLNode list \<Rightarrow> Val list" where
  "evalNodes ns = map evalNode ns"

definition sqlTypeToColType :: "nat \<Rightarrow> byte" where
  "sqlTypeToColType t =
     (if t = QLI64 then TInt64 else if t = QLStr then TBytes else if t = QLAnd then TBool else if t = 999 then TFloat64 else TBytes)"

definition valCompare :: "Val \<Rightarrow> Val \<Rightarrow> int" where
  "valCompare a b =
     (if Type a \<noteq> Type b then int (unat (Type a)) - int (unat (Type b))
      else if Type a = TypeInt64 then (if sint (I64 a) < sint (I64 b) then -1 else if sint (I64 a) > sint (I64 b) then 1 else 0)
      else if Type a = TypeBytes then (if Str a < Str b then -1 else if Str a > Str b then 1 else 0)
      else 0)"

text \<open>The cells of a row under a column; a record may have fewer values than columns.\<close>

definition row_cells :: "string \<Rightarrow> Record \<Rightarrow> Val list" where
  "row_cells col r = map snd (filter (\<lambda>(c, v). c = col) (zip (rec_Cols r) (rec_Vals r)))"

definition aggregateSum :: "string \<Rightarrow> Record list \<Rightarrow> Val" where
  "aggregateSum col rows =
     zero_Value\<lparr>Type := TypeInt64,
       I64 := fold (\<lambda>r s. fold (\<lambda>v s. if Type v = TypeInt64 then s + I64 v else s) (row_cells col r) s) rows 0\<rparr>"

definition better :: "int \<Rightarrow> Val \<Rightarrow> Val option \<Rightarrow> Val option" where
  "better dir v best =
     (case best of
        None \<Rightarrow> Some v
      | Some b \<Rightarrow> if dir < 0 \<and> valCompare v b < 0 \<or> dir > 0 \<and> valCompare v b > 0 then Some v else best)"

definition aggregateMinMax :: "string \<Rightarrow> Record list \<Rightarrow> int \<Rightarrow> Val" where
  "aggregateMinMax col rows dir =
     (if length rows = 0 then zero_Value
      else case fold (\<lambda>r best. fold (better dir) (row_cells col r) best) rows None of None \<Rightarrow> zero_Value | Some b \<Rightarrow> b)"

definition isAggregate :: "QLSelect \<Rightarrow> bool" where
  "isAggregate stmt \<longleftrightarrow> list_ex (\<lambda>n. q_Type n = QLFunc \<and> q_Str n \<in> {''count'', ''sum'', ''avg'', ''min'', ''max''}) (Output stmt)"

text \<open>Go's integer division truncates.\<close>

definition trunc_div :: "int \<Rightarrow> int \<Rightarrow> int" where
  "trunc_div a b = (if a < 0 then - (- a div b) else a div b)"

definition int_value :: "u64 \<Rightarrow> Val" where
  "int_value i = zero_Value\<lparr>Type := TypeInt64, I64 := i\<rparr>"

definition aggregate_one :: "Record list \<Rightarrow> string \<Rightarrow> string \<Rightarrow> (string \<times> Val) list" where
  "aggregate_one rows name col =
     (if name = ''count'' then [(''count'', int_value (of_nat (length rows)))]
      else if name = ''sum'' then [(''sum('' @ col @ '')'', aggregateSum col rows)]
      else if name = ''avg'' then
        [(''avg('' @ col @ '')'',
          if length rows > 0 then int_value (word_of_int (trunc_div (sint (I64 (aggregateSum col rows))) (int (length rows))))
          else int_value 0)]
      else if name = ''min'' then [(''min('' @ col @ '')'', aggregateMinMax col rows (-1))]
      else if name = ''max'' then [(''max('' @ col @ '')'', aggregateMinMax col rows 1)]
      else [])"

fun aggregates :: "Record list \<Rightarrow> QLNode list \<Rightarrow> (string \<times> Val) list option" where
  "aggregates rows [] = Some []"
| "aggregates rows (n # ns) =
     (if q_Type n = QLFunc then do {
        k \<leftarrow> index (q_Kids n) 0;
        rest \<leftarrow> aggregates rows ns;
        Some (aggregate_one rows (q_Str n) (q_Str k) @ rest)
      }
      else aggregates rows ns)"

definition computeAggregates :: "QLSelect \<Rightarrow> Record list \<Rightarrow> Record list option" where
  "computeAggregates stmt rows = do {
     cs \<leftarrow> aggregates rows (Output stmt);
     Some [\<lparr>rec_Cols = map fst cs, rec_Vals = map snd cs\<rparr>]
   }"

section \<open>Statements\<close>

datatype exec_error = RelError rel_error | StmtError string | ParseError string

datatype exec_result = NoResult | Records "Record list" | TextResult string | ExplainResult QLSelect

definition execCreateTable :: "'s rel_DB \<Rightarrow> QLCreateTable \<Rightarrow> rel_error option \<times> 's rel_DB" where
  "execCreateTable db stmt =
     CreateTable db
       \<lparr>tab_Name = ct_Table stmt,
        Cols = map (\<lambda>c. \<lparr>col_Name = spec_Name c, col_Type = sqlTypeToColType (spec_Type c)\<rparr>) (ct_Cols stmt),
        PKeys = int (length (ct_PKeys stmt)), Indexes = [], Prefix = 0\<rparr>"

definition execCreateIndex :: "'s rel_DB \<Rightarrow> QLCreateIndex \<Rightarrow> rel_error option \<times> 's rel_DB" where
  "execCreateIndex db stmt =
     (case DB_TableDef db (ci_Table stmt) of
        None \<Rightarrow> (Some (TableNotFound (ci_Table stmt)), db)
      | Some tdef \<Rightarrow>
          let tdef = tdef\<lparr>Indexes := Indexes tdef @ [\<lparr>idx_Name = ci_Name stmt, idx_Keys = ci_Keys stmt, idx_Unique = ci_Unique stmt\<rparr>]\<rparr>
          in (None, db\<lparr>tables := (tables db)(ci_Table stmt \<mapsto> tdef)\<rparr>))"

definition execInsert :: "'s storage \<Rightarrow> 's rel_DB \<Rightarrow> QLInsert \<Rightarrow> (rel_error option \<times> 's rel_DB) option" where
  "execInsert S db stmt =
     (case DB_TableDef db (ins_Table stmt) of
        None \<Rightarrow> Some (Some (TableNotFound (ins_Table stmt)), db)
      | Some tdef \<Rightarrow> do {
          (r, db) \<leftarrow> DB_Insert S db (ins_Table stmt) \<lparr>rec_Cols = ins_Names stmt, rec_Vals = evalNodes (ins_Values stmt)\<rparr>;
          Some (case r of Inl e \<Rightarrow> Some e | Inr _ \<Rightarrow> None, db)
        })"

text \<open>The loop of \<open>execSelect\<close>; the comparisons and the sum of \<open>Offset\<close> and \<open>Limit\<close> are on signed 64-bit integers.\<close>

partial_function (option) select_loop ::
  "'p pager \<Rightarrow> 'p \<Rightarrow> u64 \<Rightarrow> u64 \<Rightarrow> Scanner \<Rightarrow> u64 \<Rightarrow> Record list \<Rightarrow> Record list option" where
  "select_loop P pgs off lim sc n results = do {
     v \<leftarrow> Scanner_Valid sc;
     (if \<not> v then Some results
      else if sint n < sint off then do {
        sc \<leftarrow> Scanner_Next P pgs sc;
        select_loop P pgs off lim sc (n + 1) results
      }
      else if sint n \<ge> sint (off + lim) then Some results
      else do {
        r \<leftarrow> Scanner_Record sc;
        sc \<leftarrow> Scanner_Next P pgs sc;
        select_loop P pgs off lim sc (n + 1) (results @ [r])
      })
   }"

definition execSelect ::
  "'s storage \<Rightarrow> 'p pager \<Rightarrow> ('s \<Rightarrow> 'p) \<Rightarrow> 's rel_DB \<Rightarrow> QLSelect \<Rightarrow> (rel_error + Record list) option" where
  "execSelect S P pgs db stmt =
     (let scan = sel_Scan stmt in
      case DB_TableDef db (scan_Table scan) of
        None \<Rightarrow> Some (Inl (TableNotFound (scan_Table scan)))
      | Some tdef \<Rightarrow> do {
          let start = (if q_Type (Key1 scan) \<noteq> 0 then evalNodes (q_Kids (Key1 scan)) else []);
          let stop = (if q_Type (Key2 scan) \<noteq> 0 then evalNodes (q_Kids (Key2 scan)) else []);
          scanner \<leftarrow> Scan S db tdef start stop 0 0;
          results \<leftarrow> select_loop P (pgs (rel_kv db)) (Offset scan) (Limit scan) scanner 0 [];
          (if isAggregate stmt then do { r \<leftarrow> computeAggregates stmt results; Some (Inr r) } else Some (Inr results))
        })"

definition select_all :: "QLScan \<Rightarrow> QLSelect" where
  "select_all scan = \<lparr>sel_Scan = scan, sel_Names = [''*''], Output = [ident ''*'']\<rparr>"

text \<open>The assignments of \<open>UPDATE\<close> to one record.\<close>

fun assign :: "Record \<Rightarrow> string list \<Rightarrow> QLNode list \<Rightarrow> Record option" where
  "assign r [] es = Some r"
| "assign r (name # ns) es =
     (case position name 0 (rec_Cols r) of
        None \<Rightarrow> assign r ns (drop 1 es)
      | Some j \<Rightarrow> do {
          e \<leftarrow> index es 0;
          (if j < length (rec_Vals r) then assign (r\<lparr>rec_Vals := (rec_Vals r)[j := evalNode e]\<rparr>) ns (drop 1 es) else None)
        })"

fun update_rows :: "'s storage \<Rightarrow> 's rel_DB \<Rightarrow> string \<Rightarrow> string list \<Rightarrow> QLNode list \<Rightarrow> Record list \<Rightarrow> (rel_error option \<times> 's rel_DB) option" where
  "update_rows S db t ns es [] = Some (None, db)"
| "update_rows S db t ns es (r # rs) = do {
     updated \<leftarrow> assign r ns es;
     (res, db) \<leftarrow> DB_Update S db t updated;
     (case res of Inl e \<Rightarrow> Some (Some e, db) | Inr _ \<Rightarrow> update_rows S db t ns es rs)
   }"

definition execUpdate ::
  "'s storage \<Rightarrow> 'p pager \<Rightarrow> ('s \<Rightarrow> 'p) \<Rightarrow> 's rel_DB \<Rightarrow> QLUpdate \<Rightarrow> (rel_error option \<times> 's rel_DB) option" where
  "execUpdate S P pgs db stmt =
     (let t = scan_Table (upd_Scan stmt) in
      case DB_TableDef db t of
        None \<Rightarrow> Some (Some (TableNotFound t), db)
      | Some tdef \<Rightarrow> do {
          r \<leftarrow> execSelect S P pgs db (select_all (upd_Scan stmt));
          (case r of
             Inl e \<Rightarrow> Some (Some e, db)
           | Inr records \<Rightarrow> update_rows S db t (upd_Names stmt) (upd_Values stmt) records)
        })"

fun delete_rows :: "'s storage \<Rightarrow> 's rel_DB \<Rightarrow> string \<Rightarrow> Record list \<Rightarrow> (rel_error option \<times> 's rel_DB) option" where
  "delete_rows S db t [] = Some (None, db)"
| "delete_rows S db t (r # rs) = do {
     (res, db) \<leftarrow> DB_Delete S db t r;
     (case res of Inl e \<Rightarrow> Some (Some e, db) | Inr _ \<Rightarrow> delete_rows S db t rs)
   }"

definition execDelete ::
  "'s storage \<Rightarrow> 'p pager \<Rightarrow> ('s \<Rightarrow> 'p) \<Rightarrow> 's rel_DB \<Rightarrow> QLDelete \<Rightarrow> (rel_error option \<times> 's rel_DB) option" where
  "execDelete S P pgs db stmt =
     (let t = scan_Table (del_Scan stmt) in
      case DB_TableDef db t of
        None \<Rightarrow> Some (Some (TableNotFound t), db)
      | Some tdef \<Rightarrow> do {
          r \<leftarrow> execSelect S P pgs db (select_all (del_Scan stmt));
          (case r of Inl e \<Rightarrow> Some (Some e, db) | Inr records \<Rightarrow> delete_rows S db t records)
        })"

definition outcome :: "rel_error option \<times> 's rel_DB \<Rightarrow> (exec_error + exec_result) \<times> 's rel_DB" where
  "outcome r = (case fst r of None \<Rightarrow> Inr NoResult | Some e \<Rightarrow> Inl (RelError e), snd r)"

definition Execute ::
  "'s storage \<Rightarrow> 'p pager \<Rightarrow> ('s \<Rightarrow> 'p) \<Rightarrow> 's rel_DB \<Rightarrow> stmt \<Rightarrow> ((exec_error + exec_result) \<times> 's rel_DB) option" where
  "Execute S P pgs db ast =
     (case ast of
        SCreateTable s \<Rightarrow> Some (outcome (execCreateTable db s))
      | SCreateIndex s \<Rightarrow> Some (outcome (execCreateIndex db s))
      | SInsert s \<Rightarrow> map_option outcome (execInsert S db s)
      | SSelect s \<Rightarrow>
          map_option (\<lambda>r. (case r of Inl e \<Rightarrow> Inl (RelError e) | Inr rs \<Rightarrow> Inr (Records rs), db)) (execSelect S P pgs db s)
      | SUpdate s \<Rightarrow> map_option outcome (execUpdate S P pgs db s)
      | SDelete s \<Rightarrow> map_option outcome (execDelete S P pgs db s)
      | SText t \<Rightarrow> Some (Inr (TextResult t), db)
      | SExplain s \<Rightarrow> Some (Inr (ExplainResult s), db)
      | SUnknown t \<Rightarrow> Some (Inl (StmtError t), db))"

definition ExecuteRaw ::
  "'s storage \<Rightarrow> 'p pager \<Rightarrow> ('s \<Rightarrow> 'p) \<Rightarrow> 's rel_DB \<Rightarrow> string \<Rightarrow> ((exec_error + exec_result) \<times> 's rel_DB) option" where
  "ExecuteRaw S P pgs db inp = do {
     r \<leftarrow> Parse inp;
     (case r of Inl e \<Rightarrow> Some (Inl (ParseError e), db) | Inr ast \<Rightarrow> Execute S P pgs db ast)
   }"

section \<open>Scans and limits\<close>

text \<open>The rows a scanner still has to give.\<close>

inductive scans :: "'p pager \<Rightarrow> 'p \<Rightarrow> Scanner \<Rightarrow> Record list \<Rightarrow> bool" for P pgs where
  finish: "Scanner_Valid sc = Some False \<Longrightarrow> scans P pgs sc []"
| row: "Scanner_Valid sc = Some True \<Longrightarrow> Scanner_Record sc = Some r \<Longrightarrow> Scanner_Next P pgs sc = Some sc' \<Longrightarrow>
    scans P pgs sc' rs \<Longrightarrow> scans P pgs sc (r # rs)"

inductive_cases scans_NilE: "scans P pgs sc []"
inductive_cases scans_ConsE: "scans P pgs sc (r # rs)"

lemma sint_of_nat_u64: "n < 2 ^ 63 \<Longrightarrow> sint (of_nat n :: u64) = int n"
  by (simp add: signed_of_nat signed_take_bit_int_eq_self)

lemma sint_u64_sum: "0 \<le> sint off \<Longrightarrow> 0 \<le> sint lim \<Longrightarrow> sint off + sint lim < 2 ^ 63 \<Longrightarrow> sint (off + lim :: u64) = sint off + sint lim"
  by (simp add: sint_word_ariths signed_take_bit_int_eq_self)

lemma select_loop_rows:
  assumes "scans P pgs sc rows" "n + length rows < 2 ^ 63" "0 \<le> sint off" "0 \<le> sint lim" "sint off + sint lim < 2 ^ 63"
  shows "select_loop P pgs off lim sc (of_nat n) res =
    Some (res @ take (nat (sint off + sint lim) - max n (nat (sint off))) (drop (nat (sint off) - n) rows))"
  using assms(1,2)
proof (induction arbitrary: n res)
  case (finish sc)
  then show ?case by (subst select_loop.simps) simp
next
  case (row sc r sc' rs)
  have n: "sint (of_nat n :: u64) = int n" using row.prems by (intro sint_of_nat_u64) simp
  note sum = sint_u64_sum [OF assms(3-5)]
  have IH: "select_loop P pgs off lim sc' (of_nat n + 1) x =
    Some (x @ take (nat (sint off + sint lim) - max (Suc n) (nat (sint off))) (drop (nat (sint off) - Suc n) rs))" for x
    using row.IH [of "Suc n" x] row.prems by (simp add: add.commute)
  consider (skip) "int n < sint off" | (full) "sint off \<le> int n" "sint off + sint lim \<le> int n"
    | (take) "sint off \<le> int n" "int n < sint off + sint lim" by linarith
  then show ?case
  proof cases
    case skip
    then have "nat (sint off) - n = Suc (nat (sint off) - Suc n)" "max n (nat (sint off)) = max (Suc n) (nat (sint off))" by linarith+
    then show ?thesis using skip row.hyps n IH by (subst select_loop.simps) simp
  next
    case full
    then show ?thesis using row.hyps n sum by (subst select_loop.simps) simp
  next
    case take
    then have "nat (sint off + sint lim) - n = Suc (nat (sint off + sint lim) - Suc n)" "nat (sint off) \<le> n" by linarith+
    then show ?thesis using take row.hyps n sum IH by (subst select_loop.simps) simp
  qed
qed

section \<open>The extreme of a column\<close>

lemma valCompare_refl: "valCompare a a = 0"
  by (simp add: valCompare_def)

lemma valCompare_le:
  "valCompare a b \<le> 0 \<longleftrightarrow> Type a < Type b \<or>
     Type a = Type b \<and> (Type a = TypeInt64 \<longrightarrow> sint (I64 a) \<le> sint (I64 b)) \<and> (Type a = TypeBytes \<longrightarrow> Str a \<le> Str b)"
proof -
  have "int (unat (Type a)) - int (unat (Type b)) \<le> 0 \<longleftrightarrow> Type a < Type b" if "Type a \<noteq> Type b"
  proof -
    have "uint (Type a) \<noteq> uint (Type b)" using that by (simp add: word_eq_iff_unsigned [where 'a = int])
    then show ?thesis by (simp add: word_less_def order_less_le)
  qed
  then show ?thesis by (auto simp: valCompare_def Type_defs not_less)
qed

lemma valCompare_trans: "valCompare a b \<le> 0 \<Longrightarrow> valCompare b c \<le> 0 \<Longrightarrow> valCompare a c \<le> 0"
  unfolding valCompare_le by (auto intro: order_less_trans order_trans)

lemma valCompare_swap: "valCompare a b > 0 \<longleftrightarrow> valCompare b a < 0"
  by (auto simp: valCompare_def)

lemma valCompare_ge: "0 \<le> valCompare a b \<longleftrightarrow> valCompare b a \<le> 0"
  using valCompare_swap [of b a] by linarith

lemma valCompare_dir_trans:
  assumes "dir = 1 \<or> dir = -1" "dir * valCompare u x \<le> 0" "dir * valCompare x b \<le> 0"
  shows "dir * valCompare u b \<le> 0"
  using assms valCompare_trans [of u x b] valCompare_trans [of b x u] by (auto simp: valCompare_ge)

lemma fold_better:
  assumes "dir = 1 \<or> dir = -1" "vs \<noteq> [] \<or> best \<noteq> None"
  shows "\<exists>b. fold (better dir) vs best = Some b \<and> b \<in> set vs \<union> set_option best \<and>
    (\<forall>v \<in> set vs \<union> set_option best. dir * valCompare v b \<le> 0)"
  using assms(2)
proof (induction vs arbitrary: best)
  case Nil
  then show ?case by (auto simp: valCompare_refl)
next
  case (Cons v vs)
  obtain x where x: "better dir v best = Some x" "x \<in> insert v (set_option best)"
    "\<forall>u \<in> insert v (set_option best). dir * valCompare u x \<le> 0"
  proof (cases best)
    case (Some a)
    show ?thesis
    proof (cases "dir < 0 \<and> valCompare v a < 0 \<or> dir > 0 \<and> valCompare v a > 0")
      case True
      then show ?thesis using that [of v] Some assms(1) valCompare_swap [of v a] valCompare_swap [of a v] by (auto simp: better_def valCompare_refl)
    next
      case False
      then show ?thesis using that [of a] Some assms(1) by (auto simp: better_def valCompare_refl)
    qed
  qed (use that [of v] in \<open>simp add: better_def valCompare_refl\<close>)
  obtain b where b: "fold (better dir) vs (Some x) = Some b" "b \<in> set vs \<union> {x}" "\<forall>u \<in> set vs \<union> {x}. dir * valCompare u b \<le> 0"
    using Cons.IH [of "Some x"] by auto
  have "dir * valCompare u b \<le> 0" if "u \<in> insert v (set_option best)" for u
    using x(3) b(3) that valCompare_dir_trans [OF assms(1), of u x b] by blast
  then show ?case using x b by auto
qed

section \<open>Full scans\<close>

definition in_table :: "u32 \<Rightarrow> bytes \<times> bytes \<Rightarrow> bool" where
  "in_table p x \<longleftrightarrow> be_val (take 4 (fst x)) = p"

definition rec_row :: "TableDef \<Rightarrow> bytes \<times> bytes \<Rightarrow> Record" where
  "rec_row tdef x = \<lparr>rec_Cols = map col_Name (Cols tdef), rec_Vals = the (DecodeValues (snd x) [])\<rparr>"

text \<open>A scanner without an end gives the rows of its table that the iterator meets before the first foreign key.\<close>

lemma walk_scans:
  assumes "walk P s it = Some ys" "\<forall>x \<in> set ys. 4 \<le> length (fst x) \<and> (in_table (Prefix tdef) x \<longrightarrow> DecodeValues (snd x) [] \<noteq> None)"
  shows "scans P s \<lparr>sc_tdef = tdef, sc_iter = it, sc_stop = []\<rparr> (map (rec_row tdef) (takeWhile (in_table (Prefix tdef)) ys))"
  using assms
proof (induction ys arbitrary: it)
  case Nil
  then have "Valid it = Some False" by (subst (asm) walk.simps) (auto simp: bind_eq_Some_conv split: if_splits)
  then show ?case by (auto intro!: scans.finish simp: Scanner_Valid_def)
next
  case (Cons x ys)
  then obtain it' where it: "Valid it = Some True" "Key it = Some (fst x)" "Iterator.Val it = Some (snd x)" "Next P s it = Some it'"
    "walk P s it' = Some ys"
    by (subst (asm) (1) walk.simps) (auto simp: bind_eq_Some_conv split: if_splits)
  have v: "Scanner_Valid \<lparr>sc_tdef = tdef, sc_iter = it, sc_stop = []\<rparr> = Some (in_table (Prefix tdef) x)"
    using it(1,2) key_prefix_eq [OF it(2)] Cons.prems(2) by (simp add: Scanner_Valid_def be_get_def in_table_def)
  show ?case
  proof (cases "in_table (Prefix tdef) x")
    case True
    then have "Scanner_Record \<lparr>sc_tdef = tdef, sc_iter = it, sc_stop = []\<rparr> = Some (rec_row tdef x)"
      using it(3) Cons.prems(2) by (auto simp: Scanner_Record_def rec_row_def)
    moreover have "Scanner_Next P s \<lparr>sc_tdef = tdef, sc_iter = it, sc_stop = []\<rparr> = Some \<lparr>sc_tdef = tdef, sc_iter = it', sc_stop = []\<rparr>"
      using it(4) by (simp add: Scanner_Next_def)
    ultimately show ?thesis using True v Cons.IH [OF it(5)] Cons.prems(2) by (auto intro!: scans.row)
  next
    case False
    then show ?thesis using v by (auto intro!: scans.finish)
  qed
qed

definition full_scan :: "QLSelect \<Rightarrow> bool" where
  "full_scan stmt \<longleftrightarrow> \<not> isAggregate stmt \<and> q_Type (Key1 (sel_Scan stmt)) = 0 \<and> q_Type (Key2 (sel_Scan stmt)) = 0 \<and>
     0 \<le> sint (Offset (sel_Scan stmt)) \<and> 0 \<le> sint (Limit (sel_Scan stmt)) \<and>
     sint (Offset (sel_Scan stmt)) + sint (Limit (sel_Scan stmt)) < 2 ^ 63"

definition rows_ok :: "TableDef \<Rightarrow> (bytes \<times> bytes) list \<Rightarrow> bool" where
  "rows_ok tdef xs \<longleftrightarrow> length xs < 2 ^ 63 \<and>
     (\<forall>x \<in> set xs. 4 < length (fst x) \<and> (in_table (Prefix tdef) x \<longrightarrow> DecodeValues (snd x) [] \<noteq> None))"

lemma execSelect_full:
  assumes "page_store P view ok cap" "ok (pgs (rel_kv db))" "holds (view (pgs (rel_kv db))) root h xs D" "h \<le> 1"
    "\<And>k. s_Seek S (rel_kv db) k = SeekLE P (pgs (rel_kv db)) root k"
    "tables db (scan_Table (sel_Scan stmt)) = Some tdef" "full_scan stmt" "rows_ok tdef xs"
  shows "execSelect S P pgs db stmt = Some (Inr (take (nat (sint (Limit (sel_Scan stmt)))) (drop (nat (sint (Offset (sel_Scan stmt))))
    (map (rec_row tdef) (takeWhile (in_table (Prefix tdef)) (drop (kidx xs (be_bytes 4 (Prefix tdef))) xs))))))"
proof -
  let ?k = "be_bytes 4 (Prefix tdef)"
  let ?ys = "drop (kidx xs ?k) xs"
  obtain it where it: "SeekLE P (pgs (rel_kv db)) root ?k = Some it" "walk P (pgs (rel_kv db)) it = Some ?ys"
    using walk_from_SeekLE [OF assms(1-4)] by blast
  have scan: "Scan S db tdef [] [] 0 0 = Some \<lparr>sc_tdef = tdef, sc_iter = it, sc_stop = []\<rparr>"
    using assms(5) it(1) by (simp add: Scan_def EncodeKey_def)
  let ?rows = "map (rec_row tdef) (takeWhile (in_table (Prefix tdef)) ?ys)"
  have s: "scans P (pgs (rel_kv db)) \<lparr>sc_tdef = tdef, sc_iter = it, sc_stop = []\<rparr> ?rows"
    using assms(8) by (intro walk_scans [OF it(2)]) (fastforce simp: rows_ok_def dest: in_set_dropD)
  have "length ?rows < 2 ^ 63" using length_takeWhile_le [of "in_table (Prefix tdef)" ?ys] assms(8) by (simp add: rows_ok_def) linarith
  from select_loop_rows [OF s, of 0, of "Offset (sel_Scan stmt)" "Limit (sel_Scan stmt)" "[]"] this
  have "select_loop P (pgs (rel_kv db)) (Offset (sel_Scan stmt)) (Limit (sel_Scan stmt)) \<lparr>sc_tdef = tdef, sc_iter = it, sc_stop = []\<rparr> 0 [] =
      Some (take (nat (sint (Limit (sel_Scan stmt)))) (drop (nat (sint (Offset (sel_Scan stmt)))) ?rows))"
    using assms(7) by (simp add: nat_add_distrib full_scan_def)
  then show ?thesis using assms(6,7) scan by (simp add: full_scan_def execSelect_def DB_TableDef_def Let_def)
qed

section \<open>Aggregates are not reached\<close>

abbreviation idents :: "QLSelect \<Rightarrow> bool" where
  "idents s \<equiv> list_all (\<lambda>n. q_Type n = QLIdent) (Output s)"

lemma pSelectExpr_idents: "idents node \<Longrightarrow> idents (fst (pSelectExpr inp node))"
  by (auto simp: pSelectExpr_def ident_def split_beta split: option.split)

lemma pSelectExprList_idents: "idents node \<Longrightarrow> idents (fst (pSelectExprList inp node))"
proof (induction inp node rule: pSelectExprList.induct)
  case (1 inp node)
  then show ?case using pSelectExpr_idents [of node inp] by (subst pSelectExprList.simps) (auto split: option.split)
qed

lemma pSelect_idents: "pSelect inp = Some (s, r) \<Longrightarrow> idents s"
  using pSelectExprList_idents [of "\<lparr>sel_Scan = empty_scan, sel_Names = [], Output = []\<rparr>" inp]
  by (auto simp: pSelect_def split_beta bind_eq_Some_conv split: if_splits)

lemma pStmt_select: "pStmt inp = Some (SSelect s, r) \<Longrightarrow> idents s"
  using pSelect_idents
  by (auto simp: pStmt_def split_beta bind_eq_Some_conv split: option.splits prod.splits head.splits)

lemma idents_plain: "idents s \<Longrightarrow> \<not> isAggregate s"
  by (auto simp: isAggregate_def list_ex_iff list_all_iff QL_defs)

section \<open>The best index\<close>

lemma indexMatch_takeWhile: "indexMatch ks cols = length (takeWhile (\<lambda>k. k \<in> set cols) ks)"
  by (induction ks) auto

lemma best_index_max:
  "best_index ids cols best m = (b, n) \<Longrightarrow>
     m \<le> n \<and> (\<forall>idx \<in> set ids. indexMatch (idx_Keys idx) cols \<le> n) \<and>
     (m < n \<longrightarrow> (\<exists>idx \<in> set ids. b = Some idx \<and> indexMatch (idx_Keys idx) cols = n)) \<and> (m = n \<longrightarrow> b = best)"
proof (induction ids arbitrary: best m)
  case (Cons idx ids)
  then show ?case
    by (cases "indexMatch (idx_Keys idx) cols > m") (fastforce simp: Let_def)+
qed simp

section \<open>Properties\<close>

text \<open>The planner picks an index whose leading keys are constrained by the filter, with as many of them as any index of the
  table has; it picks none only where no index has its first key among the columns of the filter.\<close>

theorem selectIndex_best:
  assumes "q_Type cond \<noteq> 0" "filterColumns cond = Some cols"
  shows "case selectIndex tdef cond of
      Some (Some idx) \<Rightarrow> idx \<in> set (Indexes tdef) \<and> takeWhile (\<lambda>k. k \<in> set cols) (idx_Keys idx) \<noteq> [] \<and>
        (\<forall>i \<in> set (Indexes tdef). length (takeWhile (\<lambda>k. k \<in> set cols) (idx_Keys i)) \<le> length (takeWhile (\<lambda>k. k \<in> set cols) (idx_Keys idx)))
    | Some None \<Rightarrow> (\<forall>i \<in> set (Indexes tdef). takeWhile (\<lambda>k. k \<in> set cols) (idx_Keys i) = [])
    | None \<Rightarrow> False"
proof -
  obtain b n where b: "best_index (Indexes tdef) cols None 0 = (b, n)" by fastforce
  show ?thesis
  proof (cases "cols = []")
    case True
    then have "takeWhile (\<lambda>k. k \<in> set cols) ks = []" for ks :: "string list" by (cases ks) simp_all
    then show ?thesis using assms True by (simp add: selectIndex_def)
  next
    case False
    then show ?thesis using assms b best_index_max [OF b] by (auto simp: selectIndex_def indexMatch_takeWhile)
  qed
qed

theorem selectIndex_best_witness:
  "selectIndex \<lparr>tab_Name = ''t'', Cols = [], PKeys = 1, Indexes = [\<lparr>idx_Name = ''i'', idx_Keys = [''b'', ''a''], idx_Unique = False\<rparr>], Prefix = 0\<rparr>
     (QLNode QLEQ 0 [] [ident ''b'', QLNode QLI64 1 [] []]) \<noteq> Some None"
  using selectIndex_best [of "QLNode QLEQ 0 [] [ident ''b'', QLNode QLI64 1 [] []]" "[''b'']"
      "\<lparr>tab_Name = ''t'', Cols = [], PKeys = 1, Indexes = [\<lparr>idx_Name = ''i'', idx_Keys = [''b'', ''a''], idx_Unique = False\<rparr>], Prefix = 0\<rparr>"]
  by (auto simp: QL_defs ident_def split: option.splits)

text \<open>\<^verbatim>\<open>MIN\<close> and \<^verbatim>\<open>MAX\<close> of a column with any value: the result is one of the column's values, and no other is
  smaller (greater) in the order that compares the types first.\<close>

theorem aggregateMinMax_extreme:
  assumes "dir = 1 \<or> dir = -1" "concat (map (row_cells col) rows) \<noteq> []"
  shows "aggregateMinMax col rows dir \<in> set (concat (map (row_cells col) rows)) \<and>
    (\<forall>v \<in> set (concat (map (row_cells col) rows)). dir * valCompare v (aggregateMinMax col rows dir) \<le> 0)"
proof -
  have f: "fold (\<lambda>r best. fold (better dir) (row_cells col r) best) rows b = fold (better dir) (concat (map (row_cells col) rows)) b" for b
    by (induction rows arbitrary: b) auto
  show ?thesis using fold_better [of dir "concat (map (row_cells col) rows)" None] assms
    by (auto simp: aggregateMinMax_def f)
qed

theorem aggregateMinMax_extreme_witness:
  "aggregateMinMax ''a'' [\<lparr>rec_Cols = [''a''], rec_Vals = [int_value 4]\<rparr>, \<lparr>rec_Cols = [''b'', ''a''], rec_Vals = [int_value 1, int_value 3]\<rparr>] (-1)
     \<in> {int_value 3, int_value 4}"
  using aggregateMinMax_extreme [of "-1" "''a''" "[\<lparr>rec_Cols = [''a''], rec_Vals = [int_value 4]\<rparr>,
    \<lparr>rec_Cols = [''b'', ''a''], rec_Vals = [int_value 1, int_value 3]\<rparr>]"]
  by (auto simp: row_cells_def)

text \<open>\<^verbatim>\<open>SUM\<close> adds the integers of the column in 64 bits: the result is the true sum reduced to the signed 64-bit range,
  whatever the number of rows, and values of other types do not count.\<close>

theorem aggregateSum_wraps:
  "aggregateSum col rows =
     int_value (word_of_int (\<Sum>v \<leftarrow> filter (\<lambda>v. Type v = TypeInt64) (concat (map (row_cells col) rows)). sint (I64 v)))"
proof -
  have c: "fold (\<lambda>v s. if Type v = TypeInt64 then s + I64 v else s) vs s =
      s + word_of_int (\<Sum>v \<leftarrow> filter (\<lambda>v. Type v = TypeInt64) vs. sint (I64 v))" for vs s
    by (induction vs arbitrary: s) (simp_all add: algebra_simps)
  have "fold (\<lambda>r s. fold (\<lambda>v s. if Type v = TypeInt64 then s + I64 v else s) (row_cells col r) s) rows s =
      s + word_of_int (\<Sum>v \<leftarrow> filter (\<lambda>v. Type v = TypeInt64) (concat (map (row_cells col) rows)). sint (I64 v))" for s
    by (induction rows arbitrary: s) (simp_all add: c algebra_simps)
  then show ?thesis by (simp add: aggregateSum_def int_value_def)
qed

text \<open>No statement that the parser returns is an aggregation: what it puts into the output list of a \<^verbatim>\<open>SELECT\<close> are
  identifiers only, so the executor's aggregate branch is not reached from SQL text.\<close>

theorem select_never_aggregates:
  assumes "Parse inp = Some (Inr (SSelect s))"
  shows "\<not> isAggregate s"
proof -
  obtain r where "pStmt inp = Some (SSelect s, r)" using assms by (auto simp: Parse_def Let_def bind_eq_Some_conv split: if_splits)
  then show ?thesis using pStmt_select idents_plain by blast
qed

theorem select_never_aggregates_witness:
  "\<not> isAggregate \<lparr>sel_Scan = empty_scan\<lparr>scan_Table := ''t'', Limit := MaxInt64\<rparr>, sel_Names = [''count''], Output = [ident ''count'']\<rparr>"
  by (rule select_never_aggregates [of "''select count from t''"]) code_simp

text \<open>C19. A full scan with an offset and a limit on a tree of one or two levels returns the rows from the position where the
  iterator starts (the last key of the store that is at most the table's prefix, or else the first key) up to the
  first key of another table, without the first \<open>Offset\<close> of them and at most \<open>Limit\<close> many.\<close>

theorem select_rows:
  assumes "page_store P view ok cap" "ok (pgs (rel_kv db))" "holds (view (pgs (rel_kv db))) root h xs D" "h \<le> 1"
    "\<And>k. s_Seek S (rel_kv db) k = SeekLE P (pgs (rel_kv db)) root k"
    "tables db (scan_Table (sel_Scan stmt)) = Some tdef" "full_scan stmt" "rows_ok tdef xs"
  shows "execSelect S P pgs db stmt = Some (Inr (take (nat (sint (Limit (sel_Scan stmt)))) (drop (nat (sint (Offset (sel_Scan stmt))))
    (map (rec_row tdef) (takeWhile (in_table (Prefix tdef)) (drop (kidx xs (be_bytes 4 (Prefix tdef))) xs))))))"
  using assms by (rule execSelect_full)

text \<open>Two rows of tables with the prefixes 3 and 5, in one store.\<close>

definition row_key :: "byte \<Rightarrow> bytes" where
  "row_key p = [0, 0, 0, p, TypeInt64] @ replicate 8 1"

definition key_table :: "u32 \<Rightarrow> TableDef" where
  "key_table p = (pair_table ''t'')\<lparr>Prefix := p\<rparr>"

definition all_rows :: QLSelect where
  "all_rows = select_all (empty_scan\<lparr>scan_Table := ''t'', Limit := MaxInt64\<rparr>)"

lemma row_example:
  obtains c :: memTest and h D where "mem_ok (store c)" "h \<le> 1"
    "holds (pages (store c)) (tree_Root c) h [(row_key 3, [TypeBytes, 7, 0]), (row_key 5, [TypeBytes, 8, 0])] D"
proof -
  have u: "usual (row_key 3, [TypeBytes, 7, 0])" "usual (row_key 5, [TypeBytes, 8, 0])" by (simp_all add: usual_def row_key_def)
  obtain r s where s: "mem_ok s" "holds (pages s) r 0 [(row_key 3, [TypeBytes, 7, 0])] {r}" "3 \<le> mem_cap s"
    using mem.Insert_first [of "store newMemTest" "row_key 3" "[TypeBytes, 7, 0]"] u(1) by (auto simp: newMemTest_def mem_ok_def mem_cap_def)
  obtain r2 s2 h D where t: "mem_ok s2" "h \<le> 1"
    "holds (pages s2) r2 h (put_kv (row_key 5) [TypeBytes, 8, 0] [(row_key 3, [TypeBytes, 7, 0])]) D"
    using mem.Insert_holds [OF s(1,2) u(2)] s(3) by auto
  have "put_kv (row_key 5) [TypeBytes, 8, 0] [(row_key 3, [TypeBytes, 7, 0])] = [(row_key 3, [TypeBytes, 7, 0]), (row_key 5, [TypeBytes, 8, 0])]"
    by (simp add: put_kv_def row_key_def)
  then show ?thesis using that [of "newMemTest\<lparr>tree_Root := r2, store := s2\<rparr>"] t by simp
qed

lemma row_example_bytes:
  "be_bytes 4 (3 :: u32) = [0, 0, 0, 3]" "be_bytes 4 (5 :: u32) = [0, 0, 0, 5]"
  "DecodeValues [TypeBytes, 7, 0] [] \<noteq> None" "DecodeValues [TypeBytes, 8, 0] [] \<noteq> None"
  by code_simp+

lemma row_example_ok:
  "in_table 3 (row_key 3, v)" "\<not> in_table 3 (row_key 5, v)" "in_table 5 (row_key 5, v)" "full_scan all_rows"
  "rows_ok (key_table 3) [(row_key 3, [TypeBytes, 7, 0]), (row_key 5, [TypeBytes, 8, 0])]"
  "rows_ok (key_table 5) [(row_key 3, [TypeBytes, 7, 0]), (row_key 5, [TypeBytes, 8, 0])]"
  using row_example_bytes(3,4)
  by (simp_all add: in_table_def row_key_def be_val_def key_table_def rows_ok_def full_scan_def all_rows_def select_all_def isAggregate_def
      empty_scan_def MaxInt64_def ident_def QL_defs)

lemma row_example_index: "kidx [(row_key 3, [TypeBytes, 7, 0]), (row_key 5, [TypeBytes, 8, 0])] (be_bytes 4 (Prefix (key_table 3))) = 0"
  by (simp add: le_index_def count_le_def row_key_def row_example_bytes key_table_def)

theorem select_rows_witness:
  "\<exists>c. execSelect mem_storage mem_pager store \<lparr>rel_kv = c, tables = [''t'' \<mapsto> key_table 3]\<rparr> all_rows =
     Some (Inr [rec_row (key_table 3) (row_key 3, [TypeBytes, 7, 0])])"
proof -
  obtain c :: memTest and h D where c: "mem_ok (store c)" "h \<le> 1"
    "holds (pages (store c)) (tree_Root c) h [(row_key 3, [TypeBytes, 7, 0]), (row_key 5, [TypeBytes, 8, 0])] D" by (rule row_example)
  let ?db = "\<lparr>rel_kv = c, tables = [''t'' \<mapsto> key_table 3]\<rparr>"
  show ?thesis
    using select_rows [OF mem.page_store_axioms, of store ?db "tree_Root c" h _ D mem_storage all_rows "key_table 3"] c row_example_ok row_example_index
    by (intro exI [of _ c]) (simp add: mem_storage_def all_rows_def select_all_def empty_scan_def MaxInt64_def key_table_def)
qed

text \<open>C37. The rows of a table are not seen when the store also holds a smaller key, of another table: the scan starts on that
  key, finds it foreign and stops. A full scan then returns nothing, whatever rows the table has.\<close>

theorem select_hidden:
  assumes "page_store P view ok cap" "ok (pgs (rel_kv db))" "holds (view (pgs (rel_kv db))) root h xs D" "h \<le> 1"
    "\<And>k. s_Seek S (rel_kv db) k = SeekLE P (pgs (rel_kv db)) root k"
    "tables db (scan_Table (sel_Scan stmt)) = Some tdef" "full_scan stmt" "rows_ok tdef xs"
    "x \<in> set xs" "fst x < be_bytes 4 (Prefix tdef)"
  shows "execSelect S P pgs db stmt = Some (Inr [])"
proof -
  let ?k = "be_bytes 4 (Prefix tdef)"
  let ?y = "xs ! kidx xs ?k"
  have s: "keys_sorted xs" "xs \<noteq> []" using holds_sorted(1) [OF assms(3)] assms(9) by auto
  note b = kidx_bounds [OF s, of ?k]
  have "fst (xs ! 0) \<le> fst x"
    using s assms(9) by (auto simp: keys_sorted_def in_set_conv_nth sorted_wrt_iff_nth_less) (metis gr0I less_imp_le order_refl)
  then have le: "fst ?y \<le> ?k" using b(3) assms(10) by auto
  have "\<not> in_table (Prefix tdef) ?y"
  proof
    assume "in_table (Prefix tdef) ?y"
    moreover have l: "4 < length (fst ?y)" using assms(8) b(1) by (simp add: rows_ok_def)
    ultimately have "?k = take 4 (fst ?y)" using be_bytes_be_val [of "take 4 (fst ?y)"] by (simp add: in_table_def)
    then have "?k @ drop 4 (fst ?y) = fst ?y" using append_take_drop_id [of 4 "fst ?y"] by (simp only:)
    then show False using le l bytes_less_append [of "drop 4 (fst ?y)" ?k] by (simp add: not_less [symmetric])
  qed
  then have "takeWhile (in_table (Prefix tdef)) (drop (kidx xs ?k) xs) = []"
    using b(1) by (simp add: Cons_nth_drop_Suc [symmetric])
  then show ?thesis using execSelect_full [of P view ok cap pgs db root h xs D S stmt tdef, OF assms(1-8)] by simp
qed

theorem select_hidden_witness:
  "\<exists>c h D. holds (pages (store c)) (tree_Root c) h [(row_key 3, [TypeBytes, 7, 0]), (row_key 5, [TypeBytes, 8, 0])] D \<and>
     execSelect mem_storage mem_pager store \<lparr>rel_kv = c, tables = [''t'' \<mapsto> key_table 5]\<rparr> all_rows = Some (Inr [])"
proof -
  obtain c :: memTest and h D where c: "mem_ok (store c)" "h \<le> 1"
    "holds (pages (store c)) (tree_Root c) h [(row_key 3, [TypeBytes, 7, 0]), (row_key 5, [TypeBytes, 8, 0])] D" by (rule row_example)
  let ?db = "\<lparr>rel_kv = c, tables = [''t'' \<mapsto> key_table 5]\<rparr>"
  have "row_key 3 < be_bytes 4 (Prefix (key_table 5))" by (simp add: row_key_def row_example_bytes key_table_def)
  then have "execSelect mem_storage mem_pager store ?db all_rows = Some (Inr [])"
    using select_hidden [OF mem.page_store_axioms, of store ?db "tree_Root c" h _ D mem_storage all_rows "key_table 5" "(row_key 3, [TypeBytes, 7, 0])"]
      c row_example_ok
    by (simp add: mem_storage_def all_rows_def select_all_def empty_scan_def)
  then show ?thesis using c(3) by blast
qed

end
