(* ===== verification/Pool.thy ===== *)
theory Pool
  imports Transaction
begin

text \<open>
  The connection pool of \<^verbatim>\<open>internal/pool/pool.go\<close>. Connections are shared between the slices \<open>conns\<close> and \<open>free\<close> and
  the callers, so a connection is a pointer: its index in \<open>heap\<close>, the list of all connections ever created. The storage
  of the pool and of its connections is the one of the shared transaction manager. Readings of the clock are arguments,
  in nanoseconds; \<open>Sub\<close> is the saturating difference of \<^verbatim>\<open>time.Time.Sub\<close>.
\<close>

definition SessionMode :: int where "SessionMode = 0"
definition TransactionMode :: int where "TransactionMode = 1"

record Conn =
  conn_id :: u64
  conn_tx :: "Tx option"
  createdAt :: int
  lastUsed :: int
  inUse :: bool

record Config =
  MaxConns :: int
  MinConns :: int
  MaxIdleTime :: int
  MaxLifetime :: int
  Mode :: int

record 's Pool =
  config :: Config
  pool_mgr :: "'s Manager"
  conns :: "nat list"
  free :: "nat list"
  nextID :: u64
  closed :: bool
  heap :: "Conn list"

datatype pool_error = PoolClosed | NoConnections | TxInProgress | NoTx

definition Sub :: "int \<Rightarrow> int \<Rightarrow> int" where
  "Sub t u = max (- (2 ^ 63)) (min (2 ^ 63 - 1) (t - u))"

definition createConn :: "'s Pool \<Rightarrow> int \<Rightarrow> int \<Rightarrow> nat \<times> 's Pool" where
  "createConn p t1 t2 =
     (let p = p\<lparr>nextID := nextID p + 1\<rparr>;
          c = length (heap p);
          p = p\<lparr>heap := heap p @ [\<lparr>conn_id = nextID p, conn_tx = None, createdAt = t1, lastUsed = t2, inUse = False\<rparr>]\<rparr>;
          p = p\<lparr>conns := conns p @ [c]\<rparr>
      in (c, p\<lparr>free := free p @ [c]\<rparr>))"

text \<open>The loop of \<open>NewPool\<close> that creates the first connections.\<close>

fun createConns :: "nat \<Rightarrow> (nat \<Rightarrow> int) \<Rightarrow> 's Pool \<Rightarrow> 's Pool" where
  "createConns 0 clock p = p"
| "createConns (Suc n) clock p = snd (createConn (createConns n clock p) (clock (2 * n)) (clock (2 * n + 1)))"

definition defaults :: "Config \<Rightarrow> Config" where
  "defaults c =
     (let c = (if MaxConns c = 0 then c\<lparr>MaxConns := 50\<rparr> else c);
          c = (if MinConns c = 0 then c\<lparr>MinConns := 2\<rparr> else c);
          c = (if MaxIdleTime c = 0 then c\<lparr>MaxIdleTime := 10 * (60 * 10 ^ 9)\<rparr> else c)
      in (if MaxLifetime c = 0 then c\<lparr>MaxLifetime := 3600 * 10 ^ 9\<rparr> else c))"

definition NewPool :: "'s \<Rightarrow> Config \<Rightarrow> (nat \<Rightarrow> int) \<Rightarrow> 's Pool" where
  "NewPool db c clock =
     (let c = defaults c
      in createConns (nat (MinConns c)) clock
           \<lparr>config = c, pool_mgr = NewManager db, conns = [], free = [], nextID = 0, closed = False, heap = []\<rparr>)"

text \<open>Removing an element by slicing; the slice \<open>xs[i + 1:]\<close> panics where \<open>i\<close> is past the end.\<close>

definition cut_out :: "nat \<Rightarrow> 'a list \<Rightarrow> 'a list option" where
  "cut_out i xs = (if i < length xs then Some (take i xs @ drop (Suc i) xs) else None)"

definition removeConn :: "'s Pool \<Rightarrow> nat \<Rightarrow> 's Pool option" where
  "removeConn p idx = do { cs \<leftarrow> cut_out idx (conns p); Some (p\<lparr>conns := cs\<rparr>) }"

lemma removeConn_shorter: "removeConn p i = Some q \<Longrightarrow> Suc (length (conns q)) = length (conns p) \<and> free q = free p"
  by (auto simp: removeConn_def cut_out_def bind_eq_Some_conv split: if_splits)

definition idle :: "'s Pool \<Rightarrow> int \<Rightarrow> Conn \<Rightarrow> bool" where
  "idle p now c \<longleftrightarrow> Sub now (lastUsed c) > MaxIdleTime (config p) \<and> int (length (conns p)) > MinConns (config p)"

definition expired :: "'s Pool \<Rightarrow> int \<Rightarrow> Conn \<Rightarrow> bool" where
  "expired p now c \<longleftrightarrow> Sub now (createdAt c) > MaxLifetime (config p)"

text \<open>
  The loop of \<open>Acquire\<close>: the connection found, if any. After \<open>removeConn\<close> the decrement and the increment of the index
  cancel.
\<close>

function Acquire_loop :: "'s Pool \<Rightarrow> int \<Rightarrow> nat \<Rightarrow> (nat option \<times> 's Pool) option" where
  "Acquire_loop p now i =
     (if i < length (free p) then
        let c = free p ! i; conn = heap p ! c in
        if idle p now conn \<or> expired p now conn then
          (case removeConn p i of None \<Rightarrow> None | Some q \<Rightarrow> Acquire_loop q now i)
        else if \<not> inUse conn then
          Some (Some c, p\<lparr>heap := (heap p)[c := conn\<lparr>inUse := True, lastUsed := now\<rparr>], free := take i (free p) @ drop (Suc i) (free p)\<rparr>)
        else Acquire_loop p now (Suc i)
      else Some (None, p))"
  by pat_completeness auto
termination by (relation "measure (\<lambda>(p, _, i). length (conns p) + (length (free p) - i))") (auto dest: removeConn_shorter)

declare Acquire_loop.simps [simp del]

definition Acquire :: "'s Pool \<Rightarrow> int \<Rightarrow> int \<Rightarrow> int \<Rightarrow> ((pool_error + nat) \<times> 's Pool) option" where
  "Acquire p now t1 t2 =
     (if closed p then Some (Inl PoolClosed, p)
      else do {
        (found, p) \<leftarrow> Acquire_loop p now 0;
        (case found of
           Some c \<Rightarrow> Some (Inr c, p)
         | None \<Rightarrow>
             if int (length (conns p)) < MaxConns (config p) then
               let (c, p) = createConn p t1 t2;
                   p = p\<lparr>heap := (heap p)[c := (heap p ! c)\<lparr>inUse := True\<rparr>]\<rparr>
               in Some (Inr c, p\<lparr>free := butlast (free p)\<rparr>)
             else Some (Inl NoConnections, p))
      })"

definition Release :: "'s Pool \<Rightarrow> nat \<Rightarrow> int \<Rightarrow> 's Pool" where
  "Release p c now =
     (let conn = heap p ! c in
      if \<not> inUse conn then p
      else
        let (m, conn) =
              (case conn_tx conn of
                 Some tx \<Rightarrow> (if Mode (config p) = TransactionMode then (fst (Abort (pool_mgr p) tx), conn\<lparr>conn_tx := None\<rparr>)
                            else (pool_mgr p, conn))
               | None \<Rightarrow> (pool_mgr p, conn))
        in p\<lparr>pool_mgr := m, heap := (heap p)[c := conn\<lparr>inUse := False, lastUsed := now\<rparr>], free := free p @ [c]\<rparr>)"

definition pool_Close :: "'s Pool \<Rightarrow> 's Pool" where
  "pool_Close p = p\<lparr>closed := True, conns := [], free := []\<rparr>"

section \<open>Operations on a connection\<close>

abbreviation set_tx :: "'s Pool \<Rightarrow> nat \<Rightarrow> Tx option \<Rightarrow> 's Pool" where
  "set_tx p c t \<equiv> p\<lparr>heap := (heap p)[c := (heap p ! c)\<lparr>conn_tx := t\<rparr>]\<rparr>"

definition conn_Begin :: "'s storage \<Rightarrow> 's Pool \<Rightarrow> nat \<Rightarrow> int \<Rightarrow> pool_error option \<times> 's Pool" where
  "conn_Begin S p c lvl =
     (if conn_tx (heap p ! c) \<noteq> None then (Some TxInProgress, p)
      else let (tx, m) = Begin S (pool_mgr p) lvl in (None, set_tx (p\<lparr>pool_mgr := m\<rparr>) c (Some tx)))"

definition conn_Commit ::
  "'s storage \<Rightarrow> map_iter \<Rightarrow> map_iter \<Rightarrow> 's Pool \<Rightarrow> nat \<Rightarrow> ((pool_error + tx_error) option \<times> 's Pool) option" where
  "conn_Commit S iter1 iter2 p c =
     (case conn_tx (heap p ! c) of
        None \<Rightarrow> Some (Some (Inl NoTx), p)
      | Some tx \<Rightarrow> do {
          (err, m, tx) \<leftarrow> Commit S iter1 iter2 (pool_mgr p) tx;
          Some (map_option Inr err, set_tx (p\<lparr>pool_mgr := m\<rparr>) c (Some tx))
        })"

definition conn_Abort :: "'s Pool \<Rightarrow> nat \<Rightarrow> 's Pool" where
  "conn_Abort p c =
     (case conn_tx (heap p ! c) of
        None \<Rightarrow> p
      | Some tx \<Rightarrow> let (m, tx) = Abort (pool_mgr p) tx in set_tx (p\<lparr>pool_mgr := m\<rparr>) c None)"

definition conn_Get :: "'s storage \<Rightarrow> 's Pool \<Rightarrow> nat \<Rightarrow> bytes \<Rightarrow> (bytes option \<times> 's Pool) option" where
  "conn_Get S p c key =
     (case conn_tx (heap p ! c) of
        Some tx \<Rightarrow> do { (v, tx) \<leftarrow> Tx_Get S (mgr_kv (pool_mgr p)) tx key; Some (v, set_tx p c (Some tx)) }
      | None \<Rightarrow> do { v \<leftarrow> s_Get S (mgr_kv (pool_mgr p)) key; Some (v, p) })"

text \<open>A value is \<open>None\<close> where the source has \<^verbatim>\<open>nil\<close>; a store takes it for the empty value.\<close>

definition conn_Set :: "'s storage \<Rightarrow> 's Pool \<Rightarrow> nat \<Rightarrow> bytes \<Rightarrow> bytes option \<Rightarrow> (bool \<times> 's Pool) option" where
  "conn_Set S p c key val =
     (case conn_tx (heap p ! c) of
        Some tx \<Rightarrow> Some (False, set_tx p c (Some (Tx_Set tx key val)))
      | None \<Rightarrow> do {
          (err, kv) \<leftarrow> s_Set S (mgr_kv (pool_mgr p)) key (case val of None \<Rightarrow> [] | Some v \<Rightarrow> v);
          Some (err, p\<lparr>pool_mgr := (pool_mgr p)\<lparr>mgr_kv := kv\<rparr>\<rparr>)
        })"

section \<open>Clients of the pool\<close>

text \<open>
  What clients do, with the readings of the clock, and the connections they hold. Only a connection that exists can be
  released, but it may be released twice, or by a client that does not hold it.
\<close>

datatype pool_cmd = DoAcquire int int int | DoRelease nat int | DoClose

fun pool_run :: "'s Pool \<Rightarrow> nat list \<Rightarrow> pool_cmd list \<Rightarrow> (nat list \<times> 's Pool) option" where
  "pool_run p held [] = Some (held, p)"
| "pool_run p held (DoAcquire now t1 t2 # cs) = do {
     (r, p) \<leftarrow> Acquire p now t1 t2;
     pool_run p (case r of Inr c \<Rightarrow> c # held | Inl _ \<Rightarrow> held) cs
   }"
| "pool_run p held (DoRelease c now # cs) =
     (if c < length (heap p) then pool_run (Release p c now) (filter (\<lambda>d. d \<noteq> c) held) cs else pool_run p held cs)"
| "pool_run p held (DoClose # cs) = pool_run (pool_Close p) held cs"

text \<open>The clock stays within \<open>T\<close>.\<close>

fun cmd_ok :: "int \<Rightarrow> pool_cmd \<Rightarrow> bool" where
  "cmd_ok T (DoAcquire now t1 t2) = (0 \<le> now \<and> now \<le> T \<and> 0 \<le> t1 \<and> t1 \<le> T \<and> 0 \<le> t2 \<and> t2 \<le> T)"
| "cmd_ok T (DoRelease c now) = (0 \<le> now \<and> now \<le> T)"
| "cmd_ok T DoClose = True"

definition pool_inv :: "int \<Rightarrow> 's Pool \<Rightarrow> nat list \<Rightarrow> bool" where
  "pool_inv T p held \<longleftrightarrow>
     T \<le> MaxIdleTime (config p) \<and> T \<le> MaxLifetime (config p) \<and> T < 2 ^ 63 \<and>
     (\<forall>c \<in> set (heap p). 0 \<le> createdAt c \<and> 0 \<le> lastUsed c) \<and>
     distinct (held @ free p) \<and> (\<forall>c \<in> set (free p). c < length (heap p) \<and> \<not> inUse (heap p ! c)) \<and>
     set held = {c. c < length (heap p) \<and> inUse (heap p ! c)} \<and>
     int (length held) \<le> max (MinConns (config p)) (MaxConns (config p)) \<and>
     (\<not> closed p \<longrightarrow> length (held @ free p) = length (conns p) \<and>
        int (length (conns p)) \<le> max (MinConns (config p)) (MaxConns (config p)))"

lemma Sub_recent: "0 \<le> u \<Longrightarrow> 0 \<le> t \<Longrightarrow> t \<le> T \<Longrightarrow> T < 2 ^ 63 \<Longrightarrow> T \<le> m \<Longrightarrow> \<not> Sub t u > m"
  by (auto simp: Sub_def less_max_iff_disj)

lemma Acquire_loop_recent:
  assumes "pool_inv T p held" "0 \<le> now" "now \<le> T"
  shows "Acquire_loop p now 0 =
    (case free p of
       [] \<Rightarrow> Some (None, p)
     | c # fs \<Rightarrow> Some (Some c, p\<lparr>heap := (heap p)[c := (heap p ! c)\<lparr>inUse := True, lastUsed := now\<rparr>], free := fs\<rparr>))"
proof (cases "free p")
  case Nil
  then show ?thesis by (simp add: Acquire_loop.simps)
next
  case (Cons c fs)
  then have c: "c < length (heap p)" "\<not> inUse (heap p ! c)" using assms(1) by (simp_all add: pool_inv_def)
  then have "heap p ! c \<in> set (heap p)" by simp
  then have "\<not> idle p now (heap p ! c)" "\<not> expired p now (heap p ! c)"
    using assms Sub_recent by (auto simp: pool_inv_def idle_def expired_def)
  then show ?thesis using Cons c by (simp add: Acquire_loop.simps)
qed

lemma Acquire_recent:
  assumes inv: "pool_inv T p held" and ok: "cmd_ok T (DoAcquire now t1 t2)"
  shows "\<exists>r q. Acquire p now t1 t2 = Some (r, q) \<and> pool_inv T q (case r of Inr c \<Rightarrow> c # held | Inl _ \<Rightarrow> held) \<and>
    config q = config p"
proof (cases "closed p")
  case True
  then show ?thesis using inv by (simp add: Acquire_def)
next
  case False
  note loop = Acquire_loop_recent [OF inv, of now]
  show ?thesis
  proof (cases "free p")
    case (Cons c fs)
    let ?q = "p\<lparr>heap := (heap p)[c := (heap p ! c)\<lparr>inUse := True, lastUsed := now\<rparr>], free := fs\<rparr>"
    have c: "c < length (heap p)" "c \<notin> set held" using inv Cons by (auto simp: pool_inv_def)
    have "pool_inv T ?q (c # held)"
      using inv ok c Cons False by (auto simp: pool_inv_def nth_list_update dest!: set_update_subset_insert [THEN subsetD])
    then show ?thesis using loop Cons ok False by (simp add: Acquire_def)
  next
    case Nil
    then show ?thesis
    proof (cases "int (length (conns p)) < MaxConns (config p)")
      case True
      let ?n = "length (heap p)"
      let ?conn = "\<lparr>conn_id = nextID p + 1, conn_tx = None, createdAt = t1, lastUsed = t2, inUse = True\<rparr>"
      let ?q = "p\<lparr>nextID := nextID p + 1, heap := heap p @ [?conn], conns := conns p @ [?n]\<rparr>"
      have "pool_inv T ?q (?n # held)" using inv ok Nil True False by (auto simp: pool_inv_def nth_append less_Suc_eq)
      moreover have "Acquire p now t1 t2 = Some (Inr ?n, ?q)"
        using loop Nil ok False True by (simp add: Acquire_def createConn_def Let_def)
      ultimately show ?thesis by simp
    next
      case full: False
      then show ?thesis using loop Nil ok False inv by (simp add: Acquire_def)
    qed
  qed
qed

lemma filter_other: "c \<notin> set xs \<Longrightarrow> filter (\<lambda>d. d \<noteq> c) xs = xs"
  by (auto simp: filter_id_conv)

lemma length_filter_one: "c \<in> set xs \<Longrightarrow> distinct xs \<Longrightarrow> Suc (length (filter (\<lambda>d. d \<noteq> c) xs)) = length xs"
proof (induction xs)
  case (Cons x xs)
  then show ?case by (cases "x = c") (auto simp: filter_other)
qed simp

lemma Release_inUse:
  assumes "inUse (heap p ! c)"
  shows "\<exists>m conn. Release p c now = p\<lparr>pool_mgr := m, heap := (heap p)[c := conn], free := free p @ [c]\<rparr> \<and>
    \<not> inUse conn \<and> createdAt conn = createdAt (heap p ! c) \<and> lastUsed conn = now"
proof (cases "conn_tx (heap p ! c) \<noteq> None \<and> Mode (config p) = TransactionMode")
  case True
  then show ?thesis using assms
    by (intro exI [of _ "fst (Abort (pool_mgr p) (the (conn_tx (heap p ! c))))"]
        exI [of _ "(heap p ! c)\<lparr>conn_tx := None, inUse := False, lastUsed := now\<rparr>"]) (auto simp: Release_def Let_def)
next
  case False
  then show ?thesis using assms
    by (intro exI [of _ "pool_mgr p"] exI [of _ "(heap p ! c)\<lparr>inUse := False, lastUsed := now\<rparr>"])
      (auto simp: Release_def Let_def split: option.split)
qed

lemma Release_recent:
  assumes inv: "pool_inv T p held" and ok: "0 \<le> now" "now \<le> T" and c: "c < length (heap p)"
  shows "pool_inv T (Release p c now) (filter (\<lambda>d. d \<noteq> c) held)"
proof (cases "inUse (heap p ! c)")
  case False
  then have "c \<notin> set held" using inv by (auto simp: pool_inv_def)
  then have "filter (\<lambda>d. d \<noteq> c) held = held" by (rule filter_other)
  then show ?thesis using inv False by (simp add: Release_def)
next
  case True
  obtain m conn where r: "Release p c now = p\<lparr>pool_mgr := m, heap := (heap p)[c := conn], free := free p @ [c]\<rparr>"
    and conn: "\<not> inUse conn" "createdAt conn = createdAt (heap p ! c)" "lastUsed conn = now"
    using Release_inUse [OF True] by blast
  have held: "c \<in> set held" "distinct held" "c \<notin> set (free p)" using inv True c by (auto simp: pool_inv_def)
  then have len: "Suc (length (filter (\<lambda>d. d \<noteq> c) held)) = length held"
    by (intro length_filter_one)
  let ?q = "Release p c now"
  have q: "heap ?q = (heap p)[c := conn]" "free ?q = free p @ [c]" "config ?q = config p" "closed ?q = closed p" "conns ?q = conns p"
    by (simp_all add: r)
  have "heap p ! c \<in> set (heap p)" using c by simp
  then have 1: "\<forall>d \<in> set (heap ?q). 0 \<le> createdAt d \<and> 0 \<le> lastUsed d"
    using inv ok conn set_update_subset_insert [of "heap p" c conn] unfolding q by (auto simp: pool_inv_def)
  have 2: "\<forall>d \<in> set (free ?q). d < length (heap ?q) \<and> \<not> inUse (heap ?q ! d)"
    using inv c conn unfolding q by (auto simp: pool_inv_def nth_list_update)
  have 3: "set (filter (\<lambda>d. d \<noteq> c) held) = {d. d < length (heap ?q) \<and> inUse (heap ?q ! d)}"
    using inv c conn unfolding q by (auto simp: pool_inv_def nth_list_update)
  have 4: "distinct (filter (\<lambda>d. d \<noteq> c) held @ free ?q)"
    using inv held unfolding q pool_inv_def by auto
  have 5: "length (filter (\<lambda>d. d \<noteq> c) held @ free ?q) = length (held @ free p)" using len unfolding q by simp
  have 6: "int (length (filter (\<lambda>d. d \<noteq> c) held)) \<le> max (MinConns (config p)) (MaxConns (config p))"
    using inv len unfolding pool_inv_def by linarith
  show ?thesis using inv 1 2 3 4 6 unfolding pool_inv_def 5 q(3-5) by blast
qed

lemma pool_run_recent:
  assumes "pool_inv T p held" "\<forall>x \<in> set cs. cmd_ok T x"
  shows "\<exists>held' q. pool_run p held cs = Some (held', q) \<and> pool_inv T q held' \<and> config q = config p"
  using assms
proof (induction cs arbitrary: p held)
  case Nil
  then show ?case by simp
next
  case (Cons x cs)
  show ?case
  proof (cases x)
    case (DoAcquire now t1 t2)
    then have ok: "cmd_ok T (DoAcquire now t1 t2)" using Cons.prems(2) by simp
    obtain r q where q: "Acquire p now t1 t2 = Some (r, q)" "pool_inv T q (case r of Inr c \<Rightarrow> c # held | Inl _ \<Rightarrow> held)"
      "config q = config p" using Acquire_recent [OF Cons.prems(1) ok] by blast
    from Cons.IH [OF q(2)] q(1,3) DoAcquire Cons.prems(2) show ?thesis by simp
  next
    case (DoRelease c now)
    have conf: "config (Release p c now) = config p"
    proof (cases "inUse (heap p ! c)")
      case True
      from Release_inUse [OF True] show ?thesis by (metis Pool.select_convs(1) Pool.ext_inject Pool.surjective Pool.update_convs(2,4,7))
    qed (simp add: Release_def)
    show ?thesis
    proof (cases "c < length (heap p)")
      case True
      then have "pool_inv T (Release p c now) (filter (\<lambda>d. d \<noteq> c) held)"
        using Cons.prems DoRelease by (intro Release_recent) simp_all
      from Cons.IH [OF this] show ?thesis using True conf DoRelease Cons.prems(2) by simp
    next
      case False
      then show ?thesis using Cons.IH [OF Cons.prems(1)] DoRelease Cons.prems(2) by simp
    qed
  next
    case DoClose
    have "pool_inv T (pool_Close p) held" using Cons.prems(1) by (auto simp: pool_inv_def pool_Close_def)
    from Cons.IH [OF this] DoClose Cons.prems(2) show ?thesis by (auto simp: pool_Close_def)
  qed
qed

lemma createConns_fresh:
  "length (heap (createConns n clock p)) = length (heap p) + n \<and>
   conns (createConns n clock p) = conns p @ [length (heap p)..<length (heap p) + n] \<and>
   free (createConns n clock p) = free p @ [length (heap p)..<length (heap p) + n] \<and>
   config (createConns n clock p) = config p \<and> closed (createConns n clock p) = closed p \<and>
   (\<forall>c \<in> set (heap (createConns n clock p)). c \<in> set (heap p) \<or> \<not> inUse c \<and> createdAt c \<in> range clock \<and> lastUsed c \<in> range clock)"
  by (induction n) (auto simp: createConn_def Let_def)

lemma NewPool_inv:
  assumes "T \<le> MaxIdleTime (defaults c)" "T \<le> MaxLifetime (defaults c)" "T < 2 ^ 63" "\<forall>i. 0 \<le> clock i"
    "0 \<le> MaxConns c"
  shows "pool_inv T (NewPool db c clock) []"
proof -
  let ?p0 = "\<lparr>config = defaults c, pool_mgr = NewManager db, conns = [], free = [], nextID = 0, closed = False, heap = []\<rparr>"
  let ?n = "nat (MinConns (defaults c))"
  have "c \<in> set (heap (createConns ?n clock ?p0)) \<Longrightarrow> \<not> inUse c \<and> 0 \<le> createdAt c \<and> 0 \<le> lastUsed c" for c
    using createConns_fresh [of ?n clock ?p0] assms(4) by fastforce
  moreover have "0 \<le> MaxConns (defaults c)" using assms(5) by (simp add: defaults_def Let_def)
  ultimately have "0 \<le> MaxConns (defaults c) \<and> (\<forall>c \<in> set (heap (createConns ?n clock ?p0)). \<not> inUse c \<and> 0 \<le> createdAt c \<and> 0 \<le> lastUsed c)" by blast
  then show ?thesis using assms createConns_fresh [of ?n clock ?p0] by (auto simp: pool_inv_def NewPool_def Let_def)
qed

text \<open>C22. While no connection is old enough to be dropped, the pool hands out a connection to one client at a time and never more
  than \<open>MaxConns\<close> (or \<open>MinConns\<close>, where that is more) at once: any sequence of \<open>Acquire\<close>, \<open>Release\<close> (also of a
  connection that is not held) and \<open>Close\<close> runs without a panic, the connections held are distinct and are exactly the
  ones marked as in use.\<close>

theorem pool_exclusive:
  assumes "T \<le> MaxIdleTime (defaults c)" "T \<le> MaxLifetime (defaults c)" "T < 2 ^ 63" "\<forall>i. 0 \<le> clock i"
    "0 \<le> MaxConns c" "\<forall>x \<in> set cs. cmd_ok T x"
  shows "\<exists>held p. pool_run (NewPool db c clock) [] cs = Some (held, p) \<and> distinct held \<and>
    set held = {i. i < length (heap p) \<and> inUse (heap p ! i)} \<and>
    int (length held) \<le> max (MinConns (defaults c)) (MaxConns (defaults c))"
proof -
  have conf: "config (NewPool db c clock) = defaults c" by (simp add: NewPool_def Let_def createConns_fresh)
  obtain held p where p: "pool_run (NewPool db c clock) [] cs = Some (held, p)" "pool_inv T p held" "config p = defaults c"
    using pool_run_recent [OF NewPool_inv [OF assms(1-5)] assms(6)] conf by metis
  have "distinct held \<and> set held = {i. i < length (heap p) \<and> inUse (heap p ! i)} \<and>
    int (length held) \<le> max (MinConns (defaults c)) (MaxConns (defaults c))"
    using p(2) unfolding pool_inv_def p(3) by auto
  then show ?thesis using p(1) by blast
qed

theorem pool_exclusive_witness:
  "\<exists>held p. pool_run (NewPool newMemTest \<lparr>MaxConns = 1, MinConns = 1, MaxIdleTime = 0, MaxLifetime = 0, Mode = 0\<rparr> (\<lambda>_. 0)) []
      [DoAcquire 1 1 1, DoAcquire 2 2 2, DoRelease 0 3] = Some (held, p) \<and> distinct held \<and>
    set held = {i. i < length (heap p) \<and> inUse (heap p ! i)} \<and> int (length held) \<le> 1"
  using pool_exclusive [of 3 "\<lparr>MaxConns = 1, MinConns = 1, MaxIdleTime = 0, MaxLifetime = 0, Mode = 0\<rparr>" "\<lambda>_. 0"
      "[DoAcquire 1 1 1, DoAcquire 2 2 2, DoRelease 0 3]" newMemTest]
  by (simp add: defaults_def)

lemma removeConn_keeps: "removeConn p i = Some q \<Longrightarrow> free q = free p \<and> heap q = heap p \<and> config q = config p"
  by (auto simp: removeConn_def bind_eq_Some_conv)

lemma Acquire_loop_expired:
  assumes "free p = c # fs" "expired p now (heap p ! c)"
  shows "Acquire_loop p now 0 = None"
  using assms
proof (induction "length (conns p)" arbitrary: p rule: less_induct)
  case less
  show ?case
  proof (cases "removeConn p 0")
    case None
    then show ?thesis using less.prems by (simp add: Acquire_loop.simps [of p])
  next
    case (Some q)
    then have "Acquire_loop q now 0 = None"
      using less removeConn_shorter [OF Some] removeConn_keeps [OF Some] by (simp add: expired_def)
    then show ?thesis using less.prems Some by (simp add: Acquire_loop.simps [of p])
  qed
qed

text \<open>\<open>Acquire\<close> on an open pool whose first free connection has outlived \<open>MaxLifetime\<close> panics, whatever else the pool
  holds: \<open>removeConn\<close> takes an entry out of \<open>conns\<close> and not out of \<open>free\<close>, so the loop meets the same connection until
  the slice is exhausted.\<close>

theorem Acquire_expired_panics:
  assumes "\<not> closed p" "free p = c # fs" "Sub now (createdAt (heap p ! c)) > MaxLifetime (config p)"
  shows "Acquire p now t1 t2 = None"
  using assms Acquire_loop_expired [of p c fs now] by (simp add: Acquire_def expired_def)

theorem Acquire_expired_panics_witness:
  "Acquire (NewPool newMemTest \<lparr>MaxConns = 0, MinConns = 0, MaxIdleTime = 0, MaxLifetime = 0, Mode = 0\<rparr> (\<lambda>_. 0))
     (3601 * 10 ^ 9) 0 0 = None"
  by (rule Acquire_expired_panics [where c = 0 and fs = "[1]"])
    (simp_all add: NewPool_def defaults_def createConn_def Sub_def Let_def numeral_2_eq_2)

text \<open>\<open>Conn.Commit\<close> leaves the finished transaction on the connection: after a commit that succeeds, \<open>Begin\<close> is refused, a
  \<open>Set\<close> reports success, and its value never reaches the store, because the next \<open>Commit\<close> only reports that the
  transaction is finished.\<close>

theorem Commit_leaves_tx:
  assumes "conn_Commit S iter1 iter2 p c = Some (None, q)" "c < length (heap p)"
  shows "conn_Begin S q c lvl = (Some TxInProgress, q) \<and>
    (\<exists>r. conn_Set S q c k v = Some (False, r) \<and> conn_Commit S iter1 iter2 r c = Some (Some (Inr TxFinished), r) \<and>
      pool_mgr r = pool_mgr q)"
proof -
  obtain tx where tx: "conn_tx (heap p ! c) = Some tx" using assms(1) by (auto simp: conn_Commit_def split: option.splits)
  then obtain m t where m: "Commit S iter1 iter2 (pool_mgr p) tx = Some (None, m, t)" "q = set_tx (p\<lparr>pool_mgr := m\<rparr>) c (Some t)"
    using assms(1) by (auto simp: conn_Commit_def bind_eq_Some_conv)
  have t: "committed t"
    using m(1) by (cases "commit_writes S (mgr_kv (pool_mgr p)) (iter2 (pending_writes tx))")
      (auto simp: Commit_def Let_def split: if_splits)
  have "conn_tx (heap q ! c) = Some t" "c < length (heap q)" using m(2) assms(2) by simp_all
  then show ?thesis using t by (simp add: conn_Begin_def conn_Set_def conn_Commit_def Tx_Set_def Commit_def)
qed

theorem Commit_leaves_tx_witness:
  "\<exists>p q. conn_Commit mem_storage id id p 0 = Some (None, q) \<and> conn_Begin mem_storage q 0 Serializable = (Some TxInProgress, q)"
proof -
  let ?p = "snd (conn_Begin mem_storage (NewPool newMemTest \<lparr>MaxConns = 1, MinConns = 1, MaxIdleTime = 0, MaxLifetime = 0, Mode = 0\<rparr>
    (\<lambda>_. 0)) 0 Serializable)"
  have c: "\<exists>q. conn_Commit mem_storage id id ?p 0 = Some (None, q) \<and> 0 < length (heap ?p)"
    by (simp add: NewPool_def defaults_def createConn_def Let_def conn_Begin_def conn_Commit_def Begin_def NewManager_def
        Commit_def detectConflicts_def)
  then obtain q where q: "conn_Commit mem_storage id id ?p 0 = Some (None, q)" "0 < length (heap ?p)" by blast
  show ?thesis using q(1) Commit_leaves_tx [OF q, of Serializable] by blast
qed

end
