(* ===== verification/Shard.thy ===== *)
theory Shard
  imports Transaction
begin

text \<open>
  The sharded store of \<^verbatim>\<open>internal/shard/shard.go\<close>. Its shards are key-value stores; the operations it calls on them are a
  \<open>storage\<close>, so that every storage that satisfies \<open>storage_spec\<close> can be sharded, and the sharded store is a \<open>storage\<close>
  again. A \<open>nil\<close> \<open>singleKV\<close> is \<open>None\<close>. What the operating system knows of a path is a parameter: whether it is a
  directory, the entries of a directory, and the file behind a path.
\<close>

definition HashShard :: int where "HashShard = 1"
definition RangeShard :: int where "RangeShard = 2"

record RangeBound =
  rb_Start :: bytes
  rb_End :: bytes
  rb_Shard :: int

record ShardConfig =
  Strategy :: int
  Shards :: int
  KeyCol :: string
  Ranges :: "RangeBound list"

record 's shard_DB =
  shards :: "'s list"
  shard_config :: ShardConfig
  single :: bool
  singleKV :: "'s option"

section \<open>Routing\<close>

fun range_shard :: "bytes \<Rightarrow> RangeBound list \<Rightarrow> int option" where
  "range_shard key [] = None"
| "range_shard key (r # rs) = (if rb_Start r \<le> key \<and> key \<le> rb_End r then Some (rb_Shard r) else range_shard key rs)"

text \<open>The remainder by an empty slice's length panics.\<close>

definition shardForKey :: "'s shard_DB \<Rightarrow> bytes \<Rightarrow> int option" where
  "shardForKey db key =
     (if single db then Some 0
      else if Strategy (shard_config db) = HashShard then
        let h = ChecksumIEEE key in
        (if length (shards db) = 0 then None else Some (uint h mod int (length (shards db))))
      else if Strategy (shard_config db) = RangeShard then
        (case range_shard key (Ranges (shard_config db)) of Some i \<Rightarrow> Some i | None \<Rightarrow> Some (int (length (shards db)) - 1))
      else Some 0)"

text \<open>The store an operation on \<open>key\<close> goes to; indexing out of range and a nil store panic.\<close>

definition route :: "'s shard_DB \<Rightarrow> bytes \<Rightarrow> nat option" where
  "route db key = do {
     i \<leftarrow> shardForKey db key;
     (if 0 \<le> i \<and> i < int (length (shards db)) then Some (nat i) else None)
   }"

definition shard_Get :: "'s storage \<Rightarrow> 's shard_DB \<Rightarrow> bytes \<Rightarrow> bytes option option" where
  "shard_Get S db key =
     (if single db then do { kv \<leftarrow> singleKV db; s_Get S kv key }
      else do { i \<leftarrow> route db key; s_Get S (shards db ! i) key })"

definition shard_Set :: "'s storage \<Rightarrow> 's shard_DB \<Rightarrow> bytes \<Rightarrow> bytes \<Rightarrow> (bool \<times> 's shard_DB) option" where
  "shard_Set S db key val =
     (if single db then do {
        kv \<leftarrow> singleKV db;
        (err, kv) \<leftarrow> s_Set S kv key val;
        Some (err, db\<lparr>singleKV := Some kv\<rparr>)
      }
      else do {
        i \<leftarrow> route db key;
        (err, kv) \<leftarrow> s_Set S (shards db ! i) key val;
        Some (err, db\<lparr>shards := (shards db)[i := kv]\<rparr>)
      })"

definition shard_Del :: "'s storage \<Rightarrow> 's shard_DB \<Rightarrow> bytes \<Rightarrow> (bool \<times> bool \<times> 's shard_DB) option" where
  "shard_Del S db key =
     (if single db then do {
        kv \<leftarrow> singleKV db;
        (d, err, kv) \<leftarrow> s_Del S kv key;
        Some (d, err, db\<lparr>singleKV := Some kv\<rparr>)
      }
      else do {
        i \<leftarrow> route db key;
        (d, err, kv) \<leftarrow> s_Del S (shards db ! i) key;
        Some (d, err, db\<lparr>shards := (shards db)[i := kv]\<rparr>)
      })"

definition shard_Seek :: "'s storage \<Rightarrow> 's shard_DB \<Rightarrow> bytes \<Rightarrow> BIter option" where
  "shard_Seek S db key =
     (if single db then do { kv \<leftarrow> singleKV db; s_Seek S kv key }
      else do { i \<leftarrow> route db key; s_Seek S (shards db ! i) key })"

definition shard_TreeRoot :: "'s storage \<Rightarrow> 's shard_DB \<Rightarrow> u64" where
  "shard_TreeRoot S db = (if single db then (case singleKV db of Some kv \<Rightarrow> s_TreeRoot S kv | None \<Rightarrow> 0) else 0)"

definition shard_PageRead :: "'s storage \<Rightarrow> 's shard_DB \<Rightarrow> u64 \<Rightarrow> bytes option" where
  "shard_PageRead S db ptr = (if single db then do { kv \<leftarrow> singleKV db; s_PageRead S kv ptr } else None)"

text \<open>
  Closing, where \<open>close\<close> closes one store and reports whether that failed. The loop stops at the first failure; the store
  itself, which \<open>singleKV\<close> points to, must be there.
\<close>

fun close_shards :: "('s \<Rightarrow> bool \<times> 's) \<Rightarrow> 's list \<Rightarrow> bool \<times> 's list" where
  "close_shards close [] = (False, [])"
| "close_shards close (s # ss) =
     (let (err, s) = close s in
      if err then (True, s # ss) else let (err, ss) = close_shards close ss in (err, s # ss))"

definition shard_Close :: "('s \<Rightarrow> bool \<times> 's) \<Rightarrow> 's shard_DB \<Rightarrow> (bool \<times> 's shard_DB) option" where
  "shard_Close close db =
     (if single db then do {
        kv \<leftarrow> singleKV db;
        let (err, kv) = close kv;
        Some (err, db\<lparr>singleKV := Some kv\<rparr>)
      }
      else let (err, ss) = close_shards close (shards db) in Some (err, db\<lparr>shards := ss\<rparr>))"

definition shard_storage :: "'s storage \<Rightarrow> 's shard_DB storage" where
  "shard_storage S = \<lparr>s_Get = shard_Get S, s_Set = shard_Set S, s_Del = shard_Del S, s_Seek = shard_Seek S,
     s_TreeRoot = shard_TreeRoot S, s_PageRead = shard_PageRead S\<rparr>"

section \<open>Opening\<close>

datatype shard_error = ReadDirError | OpenShard nat kv_error | OpenSingle kv_error

text \<open>The file system: the entries of a directory with whether each is a directory, and the file behind a path.\<close>

record file_system =
  fs_IsDir :: "string \<Rightarrow> bool option"
  fs_ReadDir :: "string \<Rightarrow> (string \<times> bool) list option"
  fs_file :: "string \<Rightarrow> kv_env \<times> bytes"

fun open_shards :: "file_system \<Rightarrow> nat \<Rightarrow> string list \<Rightarrow> (shard_error + KV list) option" where
  "open_shards F i [] = Some (Inr [])"
| "open_shards F i (p # ps) = do {
     r \<leftarrow> Open (fst (fs_file F p)) (snd (fs_file F p)) SyncFull;
     (case r of
        Inl e \<Rightarrow> Some (Inl (OpenShard i e))
      | Inr kv \<Rightarrow> do {
          rest \<leftarrow> open_shards F (Suc i) ps;
          (case rest of Inl e \<Rightarrow> Some (Inl e) | Inr kvs \<Rightarrow> Some (Inr (kv # kvs)))
        })
   }"

definition OpenSharded :: "file_system \<Rightarrow> string \<Rightarrow> ShardConfig \<Rightarrow> (shard_error + KV shard_DB) option" where
  "OpenSharded F dir cfg =
     (case fs_ReadDir F dir of
        None \<Rightarrow> Some (Inl ReadDirError)
      | Some ents \<Rightarrow>
          let paths = map (\<lambda>(n, _). dir @ ''/'' @ n) (filter (\<lambda>(_, d). \<not> d) ents);
              paths = (if length paths = 0 then [dir @ ''/shard-0.db''] else paths)
          in do {
            r \<leftarrow> open_shards F 0 paths;
            (case r of
               Inl e \<Rightarrow> Some (Inl e)
             | Inr kvs \<Rightarrow> Some (Inr \<lparr>shards = kvs, shard_config = cfg, single = False, singleKV = None\<rparr>))
          })"

definition shard_Open :: "file_system \<Rightarrow> string \<Rightarrow> int \<Rightarrow> (shard_error + KV shard_DB) option" where
  "shard_Open F fpath mode =
     (if fs_IsDir F fpath = Some True then
        OpenSharded F fpath \<lparr>Strategy = HashShard, Shards = 4, KeyCol = [], Ranges = []\<rparr>
      else do {
        r \<leftarrow> Open (fst (fs_file F fpath)) (snd (fs_file F fpath)) mode;
        (case r of
           Inl e \<Rightarrow> Some (Inl (OpenSingle e))
         | Inr kv \<Rightarrow> Some (Inr \<lparr>shards = [], shard_config = \<lparr>Strategy = 0, Shards = 0, KeyCol = [], Ranges = []\<rparr>, single = True, singleKV = Some kv\<rparr>))
      })"

section \<open>The sharded store as a storage\<close>

definition routes :: "'s shard_DB \<Rightarrow> bool" where
  "routes db \<longleftrightarrow>
     (if single db then singleKV db \<noteq> None
      else shards db \<noteq> [] \<and> (\<forall>r \<in> set (Ranges (shard_config db)). 0 \<le> rb_Shard r \<and> rb_Shard r < int (length (shards db))))"

definition store_of :: "'s shard_DB \<Rightarrow> bytes \<Rightarrow> 's" where
  "store_of db key = (if single db then the (singleKV db) else shards db ! the (route db key))"

definition shard_content :: "('s \<Rightarrow> bytes \<Rightarrow> bytes option) \<Rightarrow> 's shard_DB \<Rightarrow> bytes \<Rightarrow> bytes option" where
  "shard_content content db k = content (store_of db k) k"

definition shard_ready :: "(nat \<Rightarrow> 's \<Rightarrow> bool) \<Rightarrow> nat \<Rightarrow> 's shard_DB \<Rightarrow> bool" where
  "shard_ready ready n db \<longleftrightarrow> routes db \<and>
     (if single db then ready n (the (singleKV db)) else \<forall>s \<in> set (shards db). ready n s)"

lemma range_shard_in: "range_shard key rs = Some i \<Longrightarrow> \<exists>r \<in> set rs. i = rb_Shard r"
  by (induction rs) (auto split: if_splits)

text \<open>Every key has a shard, whatever the strategy.\<close>

lemma route_some:
  assumes "routes db" "\<not> single db"
  shows "\<exists>i. route db key = Some i \<and> i < length (shards db)"
proof -
  have "\<exists>i. shardForKey db key = Some i \<and> 0 \<le> i \<and> i < int (length (shards db))"
    using assms range_shard_in [of key "Ranges (shard_config db)"]
    by (auto simp: shardForKey_def routes_def Let_def split: option.split)
  then show ?thesis by (auto simp: route_def)
qed

lemma route_update [simp]: "length ss = length (shards db) \<Longrightarrow> route (db\<lparr>shards := ss\<rparr>) key = route db key"
  by (simp add: route_def shardForKey_def split: option.split)

lemma routes_update [simp]: "length ss = length (shards db) \<Longrightarrow> \<not> single db \<Longrightarrow> routes (db\<lparr>shards := ss\<rparr>) = routes db"
  by (auto simp: routes_def)

lemma shard_content_update:
  assumes "routes db" "\<not> single db" "route db k = Some i" "content s = (content (shards db ! i))(k := v)"
  shows "shard_content content (db\<lparr>shards := (shards db)[i := s]\<rparr>) = (shard_content content db)(k := v)"
proof
  fix x
  obtain j where "route db x = Some j" "j < length (shards db)" using route_some [OF assms(1,2)] by blast
  then show "shard_content content (db\<lparr>shards := (shards db)[i := s]\<rparr>) x = ((shard_content content db)(k := v)) x"
    using assms by (cases "i = j") (auto simp: shard_content_def store_of_def nth_list_update)
qed

context storage_spec
begin

lemma shard_Get_content:
  assumes "shard_ready ready n db"
  shows "shard_Get S db k = Some (shard_content content db k)"
proof (cases "single db")
  case True
  then show ?thesis using assms get by (auto simp: shard_ready_def routes_def shard_Get_def shard_content_def store_of_def)
next
  case False
  then obtain i where "route db k = Some i" "i < length (shards db)" using assms route_some [of db k] by (auto simp: shard_ready_def)
  then show ?thesis using assms False get [of n "shards db ! i" k] by (auto simp: shard_ready_def shard_Get_def shard_content_def store_of_def)
qed

lemma shard_Set_content:
  assumes "shard_ready ready (Suc n) db" "fit k (Some v)"
  shows "\<exists>db'. shard_Set S db k v = Some (False, db') \<and> shard_ready ready n db' \<and>
    shard_content content db' = (shard_content content db)(k \<mapsto> v)"
proof (cases "single db")
  case True
  then obtain kv where kv: "singleKV db = Some kv" "ready (Suc n) kv" using assms(1) by (auto simp: shard_ready_def routes_def)
  obtain s where "s_Set S kv k v = Some (False, s)" "ready n s" "content s = (content kv)(k \<mapsto> v)"
    using set [OF kv(2) assms(2)] by blast
  then show ?thesis using True kv
    by (auto simp: shard_Set_def shard_ready_def routes_def shard_content_def store_of_def fun_eq_iff)
next
  case False
  then obtain i where i: "route db k = Some i" "i < length (shards db)"
    using assms(1) route_some [of db k] by (auto simp: shard_ready_def)
  obtain s where s: "s_Set S (shards db ! i) k v = Some (False, s)" "ready n s" "content s = (content (shards db ! i))(k \<mapsto> v)"
    using set assms False i by (fastforce simp: shard_ready_def)
  have "\<forall>x \<in> List.set ((shards db)[i := s]). ready n x"
    using assms(1) False s(2) fewer [of "Suc n" _ n] set_update_subset_insert [of "shards db" i s] by (auto simp: shard_ready_def)
  then show ?thesis using assms(1) False i s shard_content_update [of db k i content s "Some v"]
    by (auto simp: shard_Set_def shard_ready_def)
qed

lemma shard_Del_content:
  assumes "shard_ready ready (Suc n) db" "fit k None"
  shows "\<exists>db'. shard_Del S db k = Some (shard_content content db k \<noteq> None, False, db') \<and> shard_ready ready n db' \<and>
    shard_content content db' = (shard_content content db)(k := None)"
proof (cases "single db")
  case True
  then obtain kv where kv: "singleKV db = Some kv" "ready (Suc n) kv" using assms(1) by (auto simp: shard_ready_def routes_def)
  obtain s where "s_Del S kv k = Some (content kv k \<noteq> None, False, s)" "ready n s" "content s = (content kv)(k := None)"
    using del [OF kv(2) assms(2)] by blast
  then show ?thesis using True kv
    by (auto simp: shard_Del_def shard_ready_def routes_def shard_content_def store_of_def fun_eq_iff)
next
  case False
  then obtain i where i: "route db k = Some i" "i < length (shards db)"
    using assms(1) route_some [of db k] by (auto simp: shard_ready_def)
  obtain s where s: "s_Del S (shards db ! i) k = Some (content (shards db ! i) k \<noteq> None, False, s)" "ready n s" "content s = (content (shards db ! i))(k := None)"
    using del assms False i by (fastforce simp: shard_ready_def)
  have "\<forall>x \<in> List.set ((shards db)[i := s]). ready n x"
    using assms(1) False s(2) fewer [of "Suc n" _ n] set_update_subset_insert [of "shards db" i s] by (auto simp: shard_ready_def)
  then show ?thesis using assms(1) False i s shard_content_update [of db k i content s None]
    by (auto simp: shard_Del_def shard_ready_def shard_content_def store_of_def)
qed

lemma shard_fewer: "shard_ready ready n db \<Longrightarrow> i \<le> n \<Longrightarrow> shard_ready ready i db"
  using fewer [of n _ i] by (auto simp: shard_ready_def)

end

interpretation sst: storage_spec "shard_storage mem_storage" "shard_content ref" "shard_ready (mem_ready L)" "mem_fit L" for L
  by (unfold_locales, unfold shard_storage_def storage.select_convs)
    (fact mst.shard_fewer mst.shard_Get_content mst.shard_Set_content mst.shard_Del_content)+

text \<open>Either every store was closed, or closing failed at one of them and those after it were left as they were.\<close>

lemma close_shards_spec:
  "close_shards close ss =
    (case dropWhile (\<lambda>s. \<not> fst (close s)) ss of
       [] \<Rightarrow> (False, map (\<lambda>s. snd (close s)) ss)
     | s # rest \<Rightarrow> (True, map (\<lambda>s. snd (close s)) (takeWhile (\<lambda>s. \<not> fst (close s)) ss) @ snd (close s) # rest))"
proof (induction ss)
  case (Cons s ss)
  then show ?case by (cases "dropWhile (\<lambda>s. \<not> fst (close s)) ss") (simp_all add: split_beta Let_def del: dropWhile_eq_Nil_conv)
qed simp

section \<open>Properties\<close>

text \<open>Every key of a sharded store is routed to a shard that exists, at every strategy, as long as there is a shard and the
  configured ranges name existing ones; the hash strategy takes the checksum modulo the number of shards.\<close>

theorem shard_in_range:
  assumes "routes db" "\<not> single db"
  shows "\<exists>i. shardForKey db key = Some (int i) \<and> i < length (shards db) \<and> route db key = Some i \<and>
    (Strategy (shard_config db) = HashShard \<longrightarrow> i = unat (ChecksumIEEE key) mod length (shards db))"
proof -
  obtain i where i: "route db key = Some i" "i < length (shards db)" using route_some [OF assms] by blast
  then have s: "shardForKey db key = Some (int i)" by (auto simp: route_def bind_eq_Some_conv split: if_splits)
  have "i = unat (ChecksumIEEE key) mod length (shards db)" if "Strategy (shard_config db) = HashShard"
  proof -
    have "int i = int (unat (ChecksumIEEE key)) mod int (length (shards db))"
      using s that assms by (simp add: shardForKey_def routes_def Let_def)
    then show ?thesis unfolding zmod_int [symmetric] of_nat_eq_iff .
  qed
  then show ?thesis using i s by blast
qed

definition three_shards :: "memTest shard_DB" where
  "three_shards = \<lparr>shards = [newMemTest, newMemTest, newMemTest],
     shard_config = \<lparr>Strategy = HashShard, Shards = 3, KeyCol = [], Ranges = []\<rparr>, single = False, singleKV = None\<rparr>"

theorem shard_in_range_witness:
  "\<exists>i. shardForKey three_shards [1, 2] = Some (int i) \<and> i < length (shards three_shards) \<and> route three_shards [1, 2] = Some i \<and>
    (Strategy (shard_config three_shards) = HashShard \<longrightarrow> i = unat (ChecksumIEEE [1, 2]) mod length (shards three_shards))"
  by (rule shard_in_range) (simp_all add: routes_def three_shards_def)



end
