(* ===== verification/Protocol.thy ===== *)
theory Protocol
  imports Prelude
begin

text \<open>
  The wire format of \<^verbatim>\<open>internal/protocol/protocol.go\<close>: framed messages, strings with
  a 16-bit length, result sets. Lengths are converted to the width of their field, so
  the encoders truncate and the slice bounds of the decoders can wrap around; the
  theorems give the ranges in which frames and strings survive, and what happens
  at the edge of the 16-bit range.
\<close>

definition MsgQuery :: byte where "MsgQuery = 0x01"
definition MsgPrepare :: byte where "MsgPrepare = 0x02"
definition MsgExecute :: byte where "MsgExecute = 0x03"
definition MsgBegin :: byte where "MsgBegin = 0x04"
definition MsgCommit :: byte where "MsgCommit = 0x05"
definition MsgAbort :: byte where "MsgAbort = 0x06"
definition MsgResult :: byte where "MsgResult = 0x10"
definition MsgError :: byte where "MsgError = 0x11"
definition MsgRowCount :: byte where "MsgRowCount = 0x12"
definition MsgReady :: byte where "MsgReady = 0x20"

section \<open>Messages\<close>

definition EncodeMessage :: "byte \<Rightarrow> bytes \<Rightarrow> bytes" where
  "EncodeMessage msgType payload = msgType # be_bytes 4 (of_nat (length payload) :: u32) @ payload"

text \<open>
  The result is the triple of the source; the bounds of \<^verbatim>\<open>data[5 : 5+length]\<close> are
  computed in \<^verbatim>\<open>uint32\<close>, the length check before it in \<^verbatim>\<open>int\<close>.
\<close>

definition DecodeMessage :: "bytes \<Rightarrow> (byte \<times> bytes \<times> bool) option" where
  "DecodeMessage data =
     (if length data < 5 then Some (0, [], False)
      else do {
        msgType \<leftarrow> index data 0;
        lb \<leftarrow> slice data 1 5;
        len \<leftarrow> be_get 4 lb;
        (if length data < 5 + unat (len :: u32) then Some (0, [], False)
         else do {
           payload \<leftarrow> slice data 5 (unat (5 + len));
           Some (msgType, payload, True)
         })
      })"

section \<open>Strings\<close>

definition EncodeString :: "bytes \<Rightarrow> bytes" where
  "EncodeString s = be_bytes 2 (of_nat (length s) :: u16) @ s"

text \<open>The string and the number of bytes consumed.\<close>

definition DecodeString :: "bytes \<Rightarrow> (bytes \<times> nat) option" where
  "DecodeString data =
     (if length data < 2 then Some ([], 0)
      else do {
        lb \<leftarrow> slice_to data 2;
        len \<leftarrow> be_get 2 lb;
        (if length data < 2 + unat (len :: u16) then Some ([], 0)
         else do {
           s \<leftarrow> slice data 2 (unat (2 + len));
           Some (s, 2 + unat len)
         })
      })"

section \<open>Result sets\<close>

text \<open>A row is a Go map; a missing column reads as the empty string.\<close>

definition row_get :: "(bytes \<Rightarrow> bytes option) \<Rightarrow> bytes \<Rightarrow> bytes" where
  "row_get row c = (case row c of None \<Rightarrow> [] | Some v \<Rightarrow> v)"

definition EncodeResult :: "bytes list \<Rightarrow> (bytes \<Rightarrow> bytes option) list \<Rightarrow> bytes" where
  "EncodeResult cols rows =
     EncodeMessage MsgResult
       ([of_nat (length cols)] @ concat (map EncodeString cols) @
        concat (map (\<lambda>row. concat (map (\<lambda>c. EncodeString (row_get row c)) cols)) rows))"

section \<open>Decoding what was encoded\<close>

lemma unat_of_nat_u32: "n < 2 ^ 32 \<Longrightarrow> unat (of_nat n :: u32) = n"
  by (simp add: unsigned_of_nat take_bit_nat_eq_self)

lemma DecodeMessage_EncodeMessage:
  assumes "length payload < 2 ^ 32 - 5"
  shows "DecodeMessage (EncodeMessage t payload @ rest) = Some (t, payload, True)"
proof -
  let ?n = "length payload"
  have n: "unat (of_nat ?n :: u32) = ?n" by (rule unat_of_nat_u32) (use assms in simp)
  have "(5 + of_nat ?n :: u32) = of_nat (5 + ?n)" by simp
  then have n5: "unat (5 + of_nat ?n :: u32) = 5 + ?n" using unat_of_nat_u32 [of "5 + ?n"] assms by simp
  show ?thesis
    using n n5 by (simp add: DecodeMessage_def EncodeMessage_def byte_simps)
qed

lemma DecodeString_EncodeString:
  assumes "length s < 65534"
  shows "DecodeString (EncodeString s @ rest) = Some (s, length (EncodeString s))"
proof -
  have n: "unat (of_nat (length s) :: u16) = length s" by (rule unat_of_nat_u16) (use assms in simp)
  have "(2 + of_nat (length s) :: u16) = of_nat (2 + length s)" by simp
  then have n2: "unat (2 + of_nat (length s) :: u16) = 2 + length s"
    using unat_of_nat_u16 [of "2 + length s"] assms by simp
  show ?thesis
    using n n2 by (simp add: DecodeString_def EncodeString_def byte_simps)
qed

text \<open>Reading \<open>n\<close> strings in a row, as a client of the protocol does.\<close>

fun decode_strings :: "nat \<Rightarrow> bytes \<Rightarrow> (bytes list \<times> bytes) option" where
  "decode_strings 0 data = Some ([], data)"
| "decode_strings (Suc n) data = do {
     (s, k) \<leftarrow> DecodeString data;
     rest \<leftarrow> slice_from data k;
     (ss, rest) \<leftarrow> decode_strings n rest;
     Some (s # ss, rest)
   }"

lemma decode_strings_encode:
  "\<forall>s \<in> set ss. length s < 65534 \<Longrightarrow>
   decode_strings (length ss) (concat (map EncodeString ss) @ rest) = Some (ss, rest)"
proof (induction ss)
  case Nil
  then show ?case by simp
next
  case (Cons s ss)
  then have "DecodeString (EncodeString s @ concat (map EncodeString ss) @ rest) = Some (s, length (EncodeString s))"
    by (intro DecodeString_EncodeString) simp
  then show ?case using Cons by (simp add: slice_from_def)
qed

section \<open>Properties\<close>

text \<open>A framed message is decoded to its type and payload, whatever follows it in the buffer, for
  every payload that is short enough for the 32-bit bound of the slice expression.\<close>

theorem message_roundtrip:
  assumes "length payload < 2 ^ 32 - 5"
  shows "DecodeMessage (EncodeMessage t payload @ rest) = Some (t, payload, True)"
  by (rule DecodeMessage_EncodeMessage [OF assms])

theorem message_roundtrip_witness:
  "DecodeMessage (EncodeMessage MsgQuery [83, 69] @ [1]) = Some (MsgQuery, [83, 69], True)"
  by (rule message_roundtrip) simp

text \<open>An incomplete frame is never taken for a message: on any proper prefix of an encoded message
  the decoder reports failure.\<close>

theorem message_incomplete:
  assumes "length payload < 2 ^ 32" "n < length (EncodeMessage t payload)"
  shows "DecodeMessage (take n (EncodeMessage t payload)) = Some (0, [], False)"
proof (cases "n < 5")
  case True
  then have "length (take n (EncodeMessage t payload)) < 5" by simp
  then show ?thesis by (simp only: DecodeMessage_def if_True)
next
  case False
  have n: "unat (of_nat (length payload) :: u32) = length payload" by (rule unat_of_nat_u32 [OF assms(1)])
  have "take n (EncodeMessage t payload) = t # be_bytes 4 (of_nat (length payload) :: u32) @ take (n - 5) payload"
    using False by (cases n) (simp_all add: EncodeMessage_def)
  then show ?thesis using False assms(2) n
    by (simp add: DecodeMessage_def byte_simps EncodeMessage_def)
qed

theorem message_incomplete_witness:
  "DecodeMessage (take 6 (EncodeMessage MsgQuery [83, 69])) = Some (0, [], False)"
  by (rule message_incomplete) (simp_all add: EncodeMessage_def)

text \<open>The body of a result message carries its column names and rows: reading the strings of the payload in
  order gives the columns and then, row by row, the value of every column.\<close>

theorem result_roundtrip:
  assumes "\<forall>c \<in> set cols. length c < 65534" "\<forall>row \<in> set rows. \<forall>c \<in> set cols. length (row_get row c) < 65534"
    "length (EncodeResult cols rows) < 2 ^ 32"
  shows "\<exists>payload. DecodeMessage (EncodeResult cols rows) = Some (MsgResult, of_nat (length cols) # payload, True) \<and>
    decode_strings (length cols + length rows * length cols) payload =
      Some (cols @ concat (map (\<lambda>row. map (row_get row) cols) rows), [])"
proof -
  let ?ss = "cols @ concat (map (\<lambda>row. map (row_get row) cols) rows)"
  let ?p = "concat (map EncodeString ?ss)"
  have "concat (map EncodeString (concat (map (\<lambda>row. map (row_get row) cols) rows))) =
      concat (map (\<lambda>row. concat (map (\<lambda>c. EncodeString (row_get row c)) cols)) rows)"
    by (induction rows) (simp_all add: comp_def)
  then have p: "EncodeResult cols rows = EncodeMessage MsgResult (of_nat (length cols) # ?p)"
    by (simp add: EncodeResult_def)
  have "length (EncodeMessage MsgResult (of_nat (length cols) # ?p)) < 2 ^ 32" using assms(3) p by simp
  then have "DecodeMessage (EncodeMessage MsgResult (of_nat (length cols) # ?p) @ []) =
      Some (MsgResult, of_nat (length cols) # ?p, True)"
    by (intro DecodeMessage_EncodeMessage) (simp add: EncodeMessage_def)
  moreover have "length ?ss = length cols + length rows * length cols"
    by (simp add: length_concat comp_def sum_list_triv)
  moreover have "decode_strings (length ?ss) (?p @ []) = Some (?ss, [])"
    using assms(1,2) by (intro decode_strings_encode) auto
  ultimately show ?thesis unfolding p by (intro exI [of _ ?p]) (simp del: map_append concat_append)
qed

theorem result_roundtrip_witness:
  "\<exists>payload. DecodeMessage (EncodeResult [[97], [98]] [[[97] \<mapsto> [1, 2]]]) = Some (MsgResult, 2 # payload, True) \<and>
    decode_strings (Suc (Suc (Suc (Suc 0)))) payload = Some ([[97], [98], [1, 2], []], [])"
  using result_roundtrip [of "[[97], [98]]" "[[[97] \<mapsto> [1, 2]]]"]
  by (simp add: row_get_def EncodeResult_def EncodeMessage_def EncodeString_def del: decode_strings.simps)

text \<open>The slice bound of \<^verbatim>\<open>DecodeString\<close> wraps around in \<^verbatim>\<open>uint16\<close>: an encoded string of 65534 or
  65535 bytes makes the decoder panic.\<close>

theorem decode_string_wraps:
  assumes "length s = 65534 \<or> length s = 65535"
  shows "DecodeString (EncodeString s) = None"
proof -
  have "(of_nat (length s) :: u16) = 65534 \<or> (of_nat (length s) :: u16) = 65535" using assms by auto
  then have "unat (2 + of_nat (length s) :: u16) < 2" "unat (of_nat (length s) :: u16) = length s"
    using assms unat_of_nat_u16 [of "length s"] by auto
  then show ?thesis
    by (simp add: DecodeString_def EncodeString_def byte_simps)
qed

theorem decode_string_wraps_witness: "DecodeString (EncodeString (replicate 65534 65)) = None"
  by (rule decode_string_wraps) simp

end
