(* ===== verification/Server.thy ===== *)
theory Server
  imports SqlExec Pool Shard Protocol
begin

text \<open>
  The server of \<^verbatim>\<open>internal/server/server.go\<close>: messages, queries, authentication, and the connections that are served at
  the same time. The relational database and the pool share one store; it is the one of the pool's transaction
  manager. A connection is a session that is in one of three places of \<open>handleConn\<close>: before the authentication, in the
  loop that reads messages, or returned. An event is one \<^verbatim>\<open>Read\<close> that returned, so that any interleaving of the
  connections at their reads is a list of events. A panic of any handler ends the process and is \<open>None\<close>.
\<close>

section \<open>Messages\<close>

record server_Config =
  ListenAddr :: string
  DBPath :: string
  SyncMode :: int
  AuthToken :: bytes
  server_MaxConns :: int
  TLSCert :: string
  TLSKey :: string

record 's Server =
  srv_config :: server_Config
  srv_tables :: "string \<Rightarrow> TableDef option"
  srv_pool :: "'s Pool"
  srv_shutdown :: bool

datatype srv_error = PoolErr pool_error | TxErr tx_error | ExecErr exec_error | InvalidMessage | UnknownType byte

text \<open>
  What the server is run with: the storage with the pages behind it, the orders in which Go visits the two maps of a
  commit, the text of an error and of a floating-point number as \<^verbatim>\<open>fmt\<close> prints them, and closing the storage.
\<close>

record ('s, 'p) host =
  h_storage :: "'s storage"
  h_pager :: "'p pager"
  h_pages :: "'s \<Rightarrow> 'p"
  h_order1 :: map_iter
  h_order2 :: map_iter
  h_error :: "srv_error \<Rightarrow> bytes"
  h_float :: "u64 \<Rightarrow> bytes"
  h_close :: "'s \<Rightarrow> 's"

definition make_server :: "'s \<Rightarrow> server_Config \<Rightarrow> (nat \<Rightarrow> int) \<Rightarrow> 's Server" where
  "make_server db cfg clock =
     (let rdb = OpenDB db;
          p = NewPool db \<lparr>MaxConns = server_MaxConns cfg, MinConns = 2, MaxIdleTime = 10 * (60 * 10 ^ 9), MaxLifetime = 0,
            Mode = SessionMode\<rparr> clock
      in \<lparr>srv_config = cfg, srv_tables = tables rdb, srv_pool = p, srv_shutdown = False\<rparr>)"

definition NewServer :: "file_system \<Rightarrow> server_Config \<Rightarrow> (nat \<Rightarrow> int) \<Rightarrow> (shard_error + KV shard_DB Server) option" where
  "NewServer F cfg clock = do {
     r \<leftarrow> shard_Open F (DBPath cfg) (SyncMode cfg);
     Some (case r of Inl e \<Rightarrow> Inl e | Inr db \<Rightarrow> Inr (make_server db cfg clock))
   }"

definition sendError :: "('s, 'p) host \<Rightarrow> srv_error \<Rightarrow> bytes" where
  "sendError H e = EncodeMessage MsgError (h_error H e)"

definition sendReady :: bytes where
  "sendReady = EncodeMessage MsgReady (str_bytes ''READY'')"

text \<open>Decimal digits, as \<^verbatim>\<open>%d\<close> prints them.\<close>

fun show_nat :: "nat \<Rightarrow> bytes" where
  "show_nat n = (if n < 10 then [48 + of_nat n] else show_nat (n div 10) @ [48 + of_nat (n mod 10)])"

declare show_nat.simps [simp del]

definition show_int :: "int \<Rightarrow> bytes" where
  "show_int i = (if i < 0 then 45 # show_nat (nat (- i)) else show_nat (nat i))"

definition valToString :: "('s, 'p) host \<Rightarrow> Val \<Rightarrow> bytes" where
  "valToString H v =
     (if Type v = TypeInt64 then show_int (sint (I64 v))
      else if Type v = TypeBytes then Str v
      else if Type v = TypeBool then (if Bool v then str_bytes ''true'' else str_bytes ''false'')
      else if Type v = TypeFloat64 then h_float H (F64 v)
      else str_bytes ''NULL'')"

text \<open>The loops of \<open>handleQuery\<close>: a row as a map, and all rows. A record with fewer values than columns panics.\<close>

fun row_map :: "('s, 'p) host \<Rightarrow> string list \<Rightarrow> Val list \<Rightarrow> (bytes \<Rightarrow> bytes option) \<Rightarrow> (bytes \<Rightarrow> bytes option) option" where
  "row_map H [] vs row = Some row"
| "row_map H (c # cs) [] row = None"
| "row_map H (c # cs) (v # vs) row = row_map H cs vs (row(str_bytes c \<mapsto> valToString H v))"

fun row_maps :: "('s, 'p) host \<Rightarrow> Record list \<Rightarrow> (bytes \<Rightarrow> bytes option) list option" where
  "row_maps H [] = Some []"
| "row_maps H (r # rs) = do {
     row \<leftarrow> row_map H (rec_Cols r) (rec_Vals r) Map.empty;
     rows \<leftarrow> row_maps H rs;
     Some (row # rows)
   }"

definition bytes_str :: "bytes \<Rightarrow> string" where
  "bytes_str b = map (\<lambda>x. char_of (unat x)) b"

definition srv_db :: "'s Server \<Rightarrow> 's rel_DB" where
  "srv_db s = \<lparr>rel_kv = mgr_kv (pool_mgr (srv_pool s)), tables = srv_tables s\<rparr>"

definition put_db :: "'s Server \<Rightarrow> 's rel_DB \<Rightarrow> 's Server" where
  "put_db s db = s\<lparr>srv_tables := tables db, srv_pool := (srv_pool s)\<lparr>pool_mgr := (pool_mgr (srv_pool s))\<lparr>mgr_kv := rel_kv db\<rparr>\<rparr>\<rparr>"

definition handleQuery :: "('s, 'p) host \<Rightarrow> 's Server \<Rightarrow> bytes \<Rightarrow> ('s Server \<times> bytes) option" where
  "handleQuery H s query = do {
     (r, db) \<leftarrow> ExecuteRaw (h_storage H) (h_pager H) (h_pages H) (srv_db s) (bytes_str query);
     let s = put_db s db;
     (case r of
        Inl e \<Rightarrow> Some (s, sendError H (ExecErr e))
      | Inr v \<Rightarrow>
          (case v of
             Records rs \<Rightarrow> do {
               rows \<leftarrow> row_maps H rs;
               let cols = (if rs = [] then [] else rec_Cols (last rs));
               Some (s, EncodeResult (map str_bytes cols) rows)
             }
           | _ \<Rightarrow> Some (s, sendReady)))
   }"

definition handleMessage :: "('s, 'p) host \<Rightarrow> 's Server \<Rightarrow> nat \<Rightarrow> byte \<Rightarrow> bytes \<Rightarrow> ('s Server \<times> bytes) option" where
  "handleMessage H s pc msgType payload =
     (if msgType = MsgQuery then handleQuery H s payload
      else if msgType = MsgBegin then
        let (err, p) = conn_Begin (h_storage H) (srv_pool s) pc 0
        in Some (s\<lparr>srv_pool := p\<rparr>, case err of Some e \<Rightarrow> sendError H (PoolErr e) | None \<Rightarrow> sendReady)
      else if msgType = MsgCommit then do {
        (err, p) \<leftarrow> conn_Commit (h_storage H) (h_order1 H) (h_order2 H) (srv_pool s) pc;
        Some (s\<lparr>srv_pool := p\<rparr>, case err of Some (Inl e) \<Rightarrow> sendError H (PoolErr e) | Some (Inr e) \<Rightarrow> sendError H (TxErr e) | None \<Rightarrow> sendReady)
      }
      else if msgType = MsgAbort then Some (s\<lparr>srv_pool := conn_Abort (srv_pool s) pc\<rparr>, sendReady)
      else Some (s, sendError H (UnknownType msgType)))"

section \<open>Connections\<close>

datatype session = NeedAuth | Serving nat | Hungup

text \<open>The token is the first line of what arrives; it is empty where no line ends.\<close>

definition token_of :: "bytes \<Rightarrow> bytes" where
  "token_of buf = (let t = takeWhile (\<lambda>b. b \<noteq> 10 \<and> b \<noteq> 13) buf in if length t < length buf then t else [])"

definition enter :: "('s, 'p) host \<Rightarrow> 's Server \<Rightarrow> int \<Rightarrow> int \<Rightarrow> int \<Rightarrow> ('s Server \<times> session \<times> bytes list) option" where
  "enter H s now t1 t2 = do {
     (r, p) \<leftarrow> Acquire (srv_pool s) now t1 t2;
     Some (s\<lparr>srv_pool := p\<rparr>, case r of Inl e \<Rightarrow> (Hungup, [sendError H (PoolErr e)]) | Inr pc \<Rightarrow> (Serving pc, []))
   }"

definition on_connect :: "('s, 'p) host \<Rightarrow> 's Server \<Rightarrow> int \<Rightarrow> int \<Rightarrow> int \<Rightarrow> ('s Server \<times> session \<times> bytes list) option" where
  "on_connect H s now t1 t2 = (if AuthToken (srv_config s) \<noteq> [] then Some (s, NeedAuth, []) else enter H s now t1 t2)"

definition on_read ::
  "('s, 'p) host \<Rightarrow> 's Server \<Rightarrow> session \<Rightarrow> bytes \<Rightarrow> int \<Rightarrow> int \<Rightarrow> int \<Rightarrow> ('s Server \<times> session \<times> bytes list) option" where
  "on_read H s ses buf now t1 t2 =
     (case ses of
        NeedAuth \<Rightarrow>
          if token_of buf \<noteq> AuthToken (srv_config s) then Some (s, Hungup, [EncodeMessage MsgError (str_bytes ''authentication failed'')])
          else do {
            (s, ses, out) \<leftarrow> enter H s now t1 t2;
            Some (s, ses, EncodeMessage MsgReady (str_bytes ''AUTHENTICATED'') # out)
          }
      | Serving pc \<Rightarrow> do {
          (msgType, payload, ok) \<leftarrow> DecodeMessage buf;
          (if \<not> ok then Some (s, ses, [sendError H InvalidMessage])
           else do { (s, out) \<leftarrow> handleMessage H s pc msgType payload; Some (s, ses, [out]) })
        }
      | Hungup \<Rightarrow> Some (s, ses, []))"

text \<open>\<^verbatim>\<open>Read\<close> failed: at the end of the input, after the deadline, or for another reason.\<close>

definition on_read_error :: "'s Server \<Rightarrow> session \<Rightarrow> int \<Rightarrow> 's Server \<times> session" where
  "on_read_error s ses now =
     (case ses of Serving pc \<Rightarrow> (s\<lparr>srv_pool := Release (srv_pool s) pc now\<rparr>, Hungup) | _ \<Rightarrow> (s, Hungup))"

definition Shutdown :: "('s, 'p) host \<Rightarrow> 's Server \<Rightarrow> 's Server" where
  "Shutdown H s =
     (if srv_shutdown s then s
      else let p = pool_Close (srv_pool s)
           in s\<lparr>srv_shutdown := True, srv_pool := p\<lparr>pool_mgr := (pool_mgr p)\<lparr>mgr_kv := h_close H (mgr_kv (pool_mgr p))\<rparr>\<rparr>\<rparr>)"

section \<open>All connections\<close>

text \<open>What happens, with the readings of the clock that it leads to. After \<open>Shutdown\<close> the listener accepts no more.\<close>

datatype event = Connect int int int | Received nat bytes int int int | Failed nat int | Interrupt

record 's world =
  srv :: "'s Server"
  sessions :: "session list"

fun serve_event :: "('s, 'p) host \<Rightarrow> 's world \<Rightarrow> event \<Rightarrow> ('s world \<times> bytes list) option" where
  "serve_event H w (Connect now t1 t2) =
     (if srv_shutdown (srv w) then Some (w, [])
      else do {
        (s, ses, out) \<leftarrow> on_connect H (srv w) now t1 t2;
        Some (\<lparr>srv = s, sessions = sessions w @ [ses]\<rparr>, out)
      })"
| "serve_event H w (Received i buf now t1 t2) =
     (if i < length (sessions w) then do {
        (s, ses, out) \<leftarrow> on_read H (srv w) (sessions w ! i) buf now t1 t2;
        Some (\<lparr>srv = s, sessions = (sessions w)[i := ses]\<rparr>, out)
      }
      else Some (w, []))"
| "serve_event H w (Failed i now) =
     (if i < length (sessions w) then
        let (s, ses) = on_read_error (srv w) (sessions w ! i) now in Some (\<lparr>srv = s, sessions = (sessions w)[i := ses]\<rparr>, [])
      else Some (w, []))"
| "serve_event H w Interrupt = Some (w\<lparr>srv := Shutdown H (srv w)\<rparr>, [])"

fun serve :: "('s, 'p) host \<Rightarrow> 's world \<Rightarrow> event list \<Rightarrow> ('s world \<times> bytes list) option" where
  "serve H w [] = Some (w, [])"
| "serve H w (e # es) = do {
     (w, out) \<leftarrow> serve_event H w e;
     (w, outs) \<leftarrow> serve H w es;
     Some (w, out @ outs)
   }"

section \<open>Starting\<close>

text \<open>
  The network as \<open>Start\<close> uses it: loading a certificate with its key, and listening with and without TLS; \<open>None\<close> is an
  error. The variable that receives the error of \<^verbatim>\<open>tls.Listen\<close> is the one declared inside the branch, so the check
  after the branch does not see it, and the listener may be \<^verbatim>\<open>nil\<close>: the inner \<open>None\<close> of \<open>open_listener\<close>.
\<close>

record ('c, 'l) network =
  LoadX509KeyPair :: "string \<Rightarrow> string \<Rightarrow> 'c option"
  tls_Listen :: "string \<Rightarrow> 'c \<Rightarrow> 'l option"
  net_Listen :: "string \<Rightarrow> 'l option"

datatype start_error = TlsCertError | ListenError

definition open_listener :: "('c, 'l) network \<Rightarrow> server_Config \<Rightarrow> start_error + 'l option" where
  "open_listener N cfg =
     (if TLSCert cfg \<noteq> [] \<and> TLSKey cfg \<noteq> [] then
        (case LoadX509KeyPair N (TLSCert cfg) (TLSKey cfg) of
           None \<Rightarrow> Inl TlsCertError
         | Some cert \<Rightarrow> Inr (tls_Listen N (ListenAddr cfg) cert))
      else
        (case net_Listen N (ListenAddr cfg) of
           None \<Rightarrow> Inl ListenError
         | Some ln \<Rightarrow> Inr (Some ln)))"

text \<open>The loop of \<open>serve\<close> calls \<^verbatim>\<open>Accept\<close> on the listener, which panics on \<^verbatim>\<open>nil\<close>.\<close>

definition Start :: "('s, 'p) host \<Rightarrow> ('c, 'l) network \<Rightarrow> 's Server \<Rightarrow> event list \<Rightarrow> (start_error + 's world \<times> bytes list) option" where
  "Start H N s es =
     (case open_listener N (srv_config s) of
        Inl e \<Rightarrow> Some (Inl e)
      | Inr None \<Rightarrow> None
      | Inr (Some ln) \<Rightarrow> map_option Inr (serve H \<lparr>srv = s, sessions = []\<rparr> es))"

section \<open>Text\<close>

lemma bytes_str_inverse [simp]: "bytes_str (str_bytes s) = s"
proof -
  have "char_of (unat (of_char c :: byte)) = c" for c
  proof -
    have "(of_char c :: byte) = of_nat (of_char c)" by (simp add: of_nat_of_char)
    moreover have "of_char c < (256 :: nat)" by (cases c) (simp add: of_bool_def)
    ultimately show ?thesis by (simp add: unat_of_nat take_bit_nat_eq_self)
  qed
  then show ?thesis by (simp add: bytes_str_def str_bytes_def comp_def)
qed

section \<open>Who is served\<close>

fun serving :: "session list \<Rightarrow> nat list" where
  "serving [] = []"
| "serving (Serving c # ss) = c # serving ss"
| "serving (NeedAuth # ss) = serving ss"
| "serving (Hungup # ss) = serving ss"

lemma serving_append [simp]: "serving (ss @ ts) = serving ss @ serving ts"
  by (induction ss rule: serving.induct) auto

lemma serving_Cons: "serving (se # ss) = serving [se] @ serving ss"
  by (cases se) auto

lemma serving_split:
  assumes "i < length ss"
  obtains as bs where "serving ss = as @ serving [ss ! i] @ bs" "\<forall>se. serving (ss[i := se]) = as @ serving [se] @ bs"
proof
  note f = arg_cong [OF id_take_nth_drop [OF assms], of serving]
  show "serving ss = serving (take i ss) @ serving [ss ! i] @ serving (drop (Suc i) ss)"
    by (rule f [unfolded serving_append serving_Cons [of "ss ! i" "drop (Suc i) ss"]])
  show "\<forall>se. serving (ss[i := se]) = serving (take i ss) @ serving [se] @ serving (drop (Suc i) ss)"
    unfolding upd_conv_take_nth_drop [OF assms] serving_append using serving_Cons by blast
qed

text \<open>The fields of the pool that decide who holds a connection.\<close>

abbreviation marks :: "Conn list \<Rightarrow> (int \<times> int \<times> bool) list" where
  "marks cs \<equiv> map (\<lambda>c. (createdAt c, lastUsed c, inUse c)) cs"

definition same_pool :: "'s Pool \<Rightarrow> 's Pool \<Rightarrow> bool" where
  "same_pool p q \<longleftrightarrow> config q = config p \<and> conns q = conns p \<and> free q = free p \<and> closed q = closed p \<and>
     marks (heap q) = marks (heap p)"

lemma marks_update: "createdAt y = createdAt (cs ! c) \<Longrightarrow> lastUsed y = lastUsed (cs ! c) \<Longrightarrow> inUse y = inUse (cs ! c) \<Longrightarrow>
    marks (cs[c := y]) = marks cs"
  by (cases "c < length cs") (auto simp: map_update list_update_same_conv list_update_beyond)

lemma same_pool_inv:
  assumes "same_pool p q" "pool_inv T p held"
  shows "pool_inv T q held"
proof -
  have m: "marks (heap q) = marks (heap p)" and e: "config q = config p" "conns q = conns p" "free q = free p" "closed q = closed p"
    using assms(1) by (simp_all add: same_pool_def)
  have l: "length (heap q) = length (heap p)" using arg_cong [OF m, of length] by simp
  have u: "inUse (heap q ! i) = inUse (heap p ! i)" if "i < length (heap p)" for i
    using arg_cong [OF m, of "\<lambda>l. l ! i"] that l by simp
  note inv = assms(2) [unfolded pool_inv_def]
  have "0 \<le> createdAt (heap q ! i) \<and> 0 \<le> lastUsed (heap q ! i)" if "i < length (heap p)" for i
  proof -
    have "createdAt (heap q ! i) = createdAt (heap p ! i)" "lastUsed (heap q ! i) = lastUsed (heap p ! i)"
      using arg_cong [OF m, of "\<lambda>l. l ! i"] that l by simp_all
    moreover have "heap p ! i \<in> set (heap p)" using that by simp
    ultimately show ?thesis using inv by simp
  qed
  then have a: "\<forall>c \<in> set (heap q). 0 \<le> createdAt c \<and> 0 \<le> lastUsed c" using l by (auto simp: in_set_conv_nth)
  have "set held = {c. c < length (heap p) \<and> inUse (heap p ! c)}" using inv by (elim conjE)
  then have b: "set held = {c. c < length (heap q) \<and> inUse (heap q ! c)}" using l u by auto
  have "\<forall>c \<in> set (free p). c < length (heap p) \<and> \<not> inUse (heap p ! c)" using inv by (elim conjE)
  then have c: "\<forall>c \<in> set (free p). c < length (heap q) \<and> \<not> inUse (heap q ! c)" using l u by simp
  show ?thesis unfolding pool_inv_def e using inv a b c by (elim conjE, intro conjI) assumption+
qed

lemma pool_inv_reorder:
  assumes "pool_inv T p held" "distinct held'" "set held' = set held"
  shows "pool_inv T p held'"
proof -
  have "distinct held" using assms(1) by (simp add: pool_inv_def)
  then have l: "length held' = length held" using distinct_card [of held] distinct_card [of held'] assms(2,3) by simp
  have "distinct (held @ free p)" using assms(1) by (simp only: pool_inv_def)
  then have d: "distinct (held' @ free p)" using assms(2) by (simp only: distinct_append assms(3))
  show ?thesis using assms(1) d unfolding pool_inv_def length_append l assms(3) by blast
qed

lemma handleQuery_put:
  assumes "handleQuery H s q = Some (s', out)"
  shows "\<exists>db. s' = put_db s db"
proof -
  obtain r db where r: "ExecuteRaw (h_storage H) (h_pager H) (h_pages H) (srv_db s) (bytes_str q) = Some (r, db)"
    using assms by (auto simp: handleQuery_def bind_eq_Some_conv)
  show ?thesis
  proof (cases r)
    case (Inr v)
    then show ?thesis using assms r by (cases v) (auto simp: handleQuery_def bind_eq_Some_conv)
  qed (use assms r in \<open>auto simp: handleQuery_def\<close>)
qed

lemma conn_ops_same_pool:
  "same_pool p (snd (conn_Begin S p c lvl))" "conn_Commit S i1 i2 p c = Some (r, q) \<Longrightarrow> same_pool p q" "same_pool p (conn_Abort p c)"
  by (auto simp: same_pool_def conn_Begin_def conn_Commit_def conn_Abort_def bind_eq_Some_conv split_beta Let_def marks_update
      split: option.splits)

lemma handleMessage_same_pool:
  assumes "handleMessage H s pc t payload = Some (s', out)"
  shows "same_pool (srv_pool s) (srv_pool s') \<and> srv_config s' = srv_config s"
proof -
  have q: "same_pool (srv_pool s) (srv_pool (put_db s db)) \<and> srv_config (put_db s db) = srv_config s" for db
    by (simp add: put_db_def same_pool_def)
  consider (query) "t = MsgQuery" | (start) "t = MsgBegin" | (commit) "t = MsgCommit" | (abort) "t = MsgAbort"
    | (other) "t \<noteq> MsgQuery" "t \<noteq> MsgBegin" "t \<noteq> MsgCommit" "t \<noteq> MsgAbort" by blast
  then show ?thesis
  proof cases
    case query
    then have "handleQuery H s payload = Some (s', out)" using assms by (simp add: handleMessage_def)
    then show ?thesis using handleQuery_put q by blast
  next
    case start
    then show ?thesis using assms conn_ops_same_pool(1) [of "srv_pool s" "h_storage H" pc 0]
      by (auto simp: handleMessage_def MsgQuery_def MsgBegin_def MsgCommit_def MsgAbort_def split_beta)
  next
    case commit
    then show ?thesis using assms conn_ops_same_pool(2) by (fastforce simp: handleMessage_def MsgQuery_def MsgBegin_def MsgCommit_def MsgAbort_def bind_eq_Some_conv)
  next
    case abort
    then show ?thesis using assms conn_ops_same_pool(3) by (auto simp: handleMessage_def MsgQuery_def MsgBegin_def MsgCommit_def MsgAbort_def)
  next
    case other
    then show ?thesis using assms by (simp add: handleMessage_def same_pool_def)
  qed
qed

section \<open>The pool and the sessions\<close>

fun event_ok :: "int \<Rightarrow> event \<Rightarrow> bool" where
  "event_ok T (Connect now t1 t2) = cmd_ok T (DoAcquire now t1 t2)"
| "event_ok T (Received i buf now t1 t2) = cmd_ok T (DoAcquire now t1 t2)"
| "event_ok T (Failed i now) = cmd_ok T (DoRelease i now)"
| "event_ok T Interrupt = True"

definition world_inv :: "int \<Rightarrow> Config \<Rightarrow> 's world \<Rightarrow> bool" where
  "world_inv T cfg w \<longleftrightarrow> pool_inv T (srv_pool (srv w)) (serving (sessions w)) \<and> config (srv_pool (srv w)) = cfg"

lemma Release_config: "config (Release p c now) = config p"
  by (simp add: Release_def Let_def split_beta)

lemma enter_inv:
  assumes "pool_inv T (srv_pool s) (as @ bs)" "cmd_ok T (DoAcquire now t1 t2)" "enter H s now t1 t2 = Some (s', se, out)"
  shows "pool_inv T (srv_pool s') (as @ serving [se] @ bs)" "config (srv_pool s') = config (srv_pool s)"
proof -
  obtain r q where q: "Acquire (srv_pool s) now t1 t2 = Some (r, q)"
    "pool_inv T q (case r of Inr c \<Rightarrow> c # as @ bs | Inl _ \<Rightarrow> as @ bs)" "config q = config (srv_pool s)"
    using Acquire_recent [OF assms(1,2)] by blast
  then show "config (srv_pool s') = config (srv_pool s)" using assms(3) by (auto simp: enter_def)
  have "pool_inv T q (as @ c # bs)" if "r = Inr c" for c
    by (rule pool_inv_reorder [of T q "c # as @ bs"]) (use q(2) that in \<open>auto simp: pool_inv_def\<close>)
  then show "pool_inv T (srv_pool s') (as @ serving [se] @ bs)"
    using q assms(3) by (cases r) (auto simp: enter_def)
qed

lemma on_read_inv:
  assumes "pool_inv T (srv_pool s) (as @ serving [se] @ bs)" "config (srv_pool s) = cfg" "cmd_ok T (DoAcquire now t1 t2)"
    "on_read H s se buf now t1 t2 = Some (s', se', out)"
  shows "pool_inv T (srv_pool s') (as @ serving [se'] @ bs) \<and> config (srv_pool s') = cfg"
proof (cases se)
  case NeedAuth
  show ?thesis
  proof (cases "token_of buf = AuthToken (srv_config s)")
    case True
    then obtain o1 where "enter H s now t1 t2 = Some (s', se', o1)"
      using assms(4) NeedAuth by (auto simp: on_read_def bind_eq_Some_conv)
    from enter_inv [OF _ assms(3) this, of as bs] show ?thesis using assms(1,2) NeedAuth by simp
  next
    case False
    then have "s' = s" "se' = Hungup" using assms(4) NeedAuth by (auto simp: on_read_def)
    then show ?thesis using assms(1,2) NeedAuth by simp
  qed
next
  case (Serving pc)
  then have "se' = se \<and> same_pool (srv_pool s) (srv_pool s')"
    using assms(4) handleMessage_same_pool [of H s pc]
    by (auto simp: on_read_def bind_eq_Some_conv same_pool_def split: if_splits)
  then show ?thesis using assms(1,2) same_pool_inv by (auto simp: same_pool_def)
next
  case Hungup
  then show ?thesis using assms by (auto simp: on_read_def)
qed

lemma on_read_error_inv:
  assumes "pool_inv T (srv_pool s) (as @ serving [se] @ bs)" "0 \<le> now" "now \<le> T"
  shows "pool_inv T (srv_pool (fst (on_read_error s se now))) (as @ bs)"
proof (cases se)
  case (Serving pc)
  have pc: "pc < length (heap (srv_pool s))" "distinct (as @ pc # bs)" using assms(1) Serving by (auto simp: pool_inv_def)
  then have "filter (\<lambda>d. d \<noteq> pc) (as @ pc # bs) = as @ bs" using filter_other [of pc as] filter_other [of pc bs] by auto
  then show ?thesis using Release_recent [OF assms pc(1)] Serving by (simp add: on_read_error_def)
qed (use assms in \<open>simp_all add: on_read_error_def\<close>)

lemma serve_event_inv:
  assumes "world_inv T cfg w" "event_ok T e" "serve_event H w e = Some (w', out)"
  shows "world_inv T cfg w'"
proof (cases e)
  case (Connect now t1 t2)
  then show ?thesis
    using assms enter_inv [of T "srv w" "serving (sessions w)" "[]" now t1 t2 H]
    by (auto simp: world_inv_def on_connect_def bind_eq_Some_conv split: if_splits)
next
  case (Received i buf now t1 t2)
  show ?thesis
  proof (cases "i < length (sessions w)")
    case True
    obtain as bs where sp: "serving (sessions w) = as @ serving [sessions w ! i] @ bs"
      "\<forall>se. serving ((sessions w)[i := se]) = as @ serving [se] @ bs" by (rule serving_split [OF True])
    obtain s se o1 where r: "on_read H (srv w) (sessions w ! i) buf now t1 t2 = Some (s, se, o1)"
      "w' = \<lparr>srv = s, sessions = (sessions w)[i := se]\<rparr>"
      using assms(3) Received True by (auto simp: bind_eq_Some_conv)
    have "pool_inv T (srv_pool s) (as @ serving [se] @ bs) \<and> config (srv_pool s) = cfg"
    proof (rule on_read_inv [OF _ _ _ r(1)])
      show "pool_inv T (srv_pool (srv w)) (as @ serving [sessions w ! i] @ bs)" "config (srv_pool (srv w)) = cfg"
        using assms(1) sp(1) by (simp_all add: world_inv_def)
      show "cmd_ok T (DoAcquire now t1 t2)" using assms(2) Received by simp
    qed
    then show ?thesis using r(2) sp(2) by (simp add: world_inv_def)
  qed (use assms Received in simp)
next
  case (Failed i now)
  show ?thesis
  proof (cases "i < length (sessions w)")
    case True
    obtain as bs where sp: "serving (sessions w) = as @ serving [sessions w ! i] @ bs"
      "\<forall>se. serving ((sessions w)[i := se]) = as @ serving [se] @ bs" by (rule serving_split [OF True])
    have inv: "pool_inv T (srv_pool (srv w)) (as @ serving [sessions w ! i] @ bs)" using assms(1) sp(1) by (simp add: world_inv_def)
    have "0 \<le> now" "now \<le> T" using assms(2) Failed by simp_all
    then have "pool_inv T (srv_pool (fst (on_read_error (srv w) (sessions w ! i) now))) (as @ bs)"
      using inv on_read_error_inv by blast
    then show ?thesis using assms Failed True sp(2)
      by (auto simp: world_inv_def split_beta on_read_error_def Release_config split: session.splits)
  qed (use assms Failed in simp)
next
  case Interrupt
  let ?p = "pool_Close (srv_pool (srv w))"
  have inv: "pool_inv T ?p (serving (sessions w))" "config ?p = cfg"
    using assms(1) by (auto simp: pool_inv_def pool_Close_def world_inv_def)
  have "pool_inv T (?p\<lparr>pool_mgr := m\<rparr>) (serving (sessions w))" for m
    by (rule same_pool_inv [OF _ inv(1)]) (simp add: same_pool_def)
  then show ?thesis using assms Interrupt inv(2) by (auto simp: world_inv_def Shutdown_def Let_def)
qed

lemma serve_inv:
  assumes "world_inv T cfg w" "\<forall>e \<in> set es. event_ok T e" "serve H w es = Some (w', outs)"
  shows "world_inv T cfg w'"
  using assms
proof (induction es arbitrary: w outs)
  case (Cons e es)
  then obtain w1 o1 o2 where "serve_event H w e = Some (w1, o1)" "serve H w1 es = Some (w', o2)"
    by (auto simp: bind_eq_Some_conv)
  then show ?case using Cons serve_event_inv [of T cfg w e H w1 o1] by simp
qed simp

text \<open>A server on the in-memory tree, without a token.\<close>

definition mem_host :: "(memTest, mem) host" where
  "mem_host = \<lparr>h_storage = mem_storage, h_pager = mem_pager, h_pages = store, h_order1 = id, h_order2 = id, h_error = (\<lambda>_. []),
     h_float = (\<lambda>_. []), h_close = id\<rparr>"

definition plain_config :: server_Config where
  "plain_config = \<lparr>ListenAddr = [], DBPath = [], SyncMode = 0, AuthToken = [], server_MaxConns = 1, TLSCert = [], TLSKey = []\<rparr>"

lemma serving_unserved: "serving ss = [] \<Longrightarrow> i < length ss \<Longrightarrow> ss ! i = NeedAuth \<or> ss ! i = Hungup"
  by (rule serving_split [of i ss]) (auto elim: serving_split intro: session.exhaust)

lemma row_map_short: "length vs < length cs \<Longrightarrow> row_map H cs vs row = None"
  by (induction H cs vs row rule: row_map.induct) auto

lemma row_maps_short: "r \<in> set rs \<Longrightarrow> length (rec_Vals r) < length (rec_Cols r) \<Longrightarrow> row_maps H rs = None"
  by (induction rs) (auto simp: row_map_short)

section \<open>Properties\<close>

fun without_token :: "bytes \<Rightarrow> event \<Rightarrow> bool" where
  "without_token t (Received i buf now t1 t2) = (token_of buf \<noteq> t)"
| "without_token t Interrupt = False"
| "without_token t _ = True"

lemma serve_event_unserved:
  assumes "AuthToken (srv_config (srv w)) \<noteq> []" "serving (sessions w) = []" "without_token (AuthToken (srv_config (srv w))) e"
  shows "\<exists>w' out. serve_event H w e = Some (w', out) \<and> srv w' = srv w \<and> serving (sessions w') = [] \<and>
    set out \<subseteq> {EncodeMessage MsgError (str_bytes ''authentication failed'')}"
proof (cases e)
  case (Connect now t1 t2)
  then show ?thesis using assms by (cases w) (simp add: on_connect_def)
next
  case (Received i buf now t1 t2)
  show ?thesis
  proof (cases "i < length (sessions w)")
    case True
    obtain as bs where sp: "serving (sessions w) = as @ serving [sessions w ! i] @ bs"
      "\<forall>se. serving ((sessions w)[i := se]) = as @ serving [se] @ bs" by (rule serving_split [OF True])
    then have "serving ((sessions w)[i := Hungup]) = []" using assms(2) by simp
    then show ?thesis using serving_unserved [OF assms(2) True] assms Received True by (auto simp: on_read_def)
  qed (use assms Received in simp)
next
  case (Failed i now)
  show ?thesis
  proof (cases "i < length (sessions w)")
    case True
    obtain as bs where sp: "serving (sessions w) = as @ serving [sessions w ! i] @ bs"
      "\<forall>se. serving ((sessions w)[i := se]) = as @ serving [se] @ bs" by (rule serving_split [OF True])
    then have "serving ((sessions w)[i := Hungup]) = []" using assms(2) by simp
    then show ?thesis using serving_unserved [OF assms(2) True] Failed True by (auto simp: on_read_error_def)
  qed (use assms Failed in simp)
qed (use assms in simp)

lemma serve_unserved:
  assumes "AuthToken (srv_config (srv w)) \<noteq> []" "serving (sessions w) = []" "\<forall>e \<in> set es. without_token (AuthToken (srv_config (srv w))) e"
  shows "\<exists>w' outs. serve H w es = Some (w', outs) \<and> srv w' = srv w \<and> serving (sessions w') = [] \<and>
    set outs \<subseteq> {EncodeMessage MsgError (str_bytes ''authentication failed'')}"
  using assms
proof (induction es arbitrary: w)
  case Nil
  then show ?case by simp
next
  case (Cons e es)
  obtain w1 o1 where w1: "serve_event H w e = Some (w1, o1)" "srv w1 = srv w" "serving (sessions w1) = []"
    "set o1 \<subseteq> {EncodeMessage MsgError (str_bytes ''authentication failed'')}"
    using serve_event_unserved [OF Cons.prems(1,2), of e H] Cons.prems(3) by auto
  have t: "AuthToken (srv_config (srv w1)) = AuthToken (srv_config (srv w))" by (simp add: w1(2))
  obtain w' o2 where w': "serve H w1 es = Some (w', o2)" "srv w' = srv w" "serving (sessions w') = []"
    "set o2 \<subseteq> {EncodeMessage MsgError (str_bytes ''authentication failed'')}"
    using Cons.IH [of w1] Cons.prems w1(2,3) unfolding t by auto
  show ?case by (rule exI [of _ w'], rule exI [of _ "o1 @ o2"]) (use w1 w' in auto)
qed

text \<open>Where a token is configured, clients that do not send it as their first line change nothing: whatever they send on any
  number of connections, in any order, the server keeps running with the same state, and the only messages it writes
  say that the authentication failed.\<close>

theorem auth_required:
  assumes "AuthToken (srv_config (srv w)) \<noteq> []" "serving (sessions w) = []" "\<forall>e \<in> set es. without_token (AuthToken (srv_config (srv w))) e"
  shows "\<exists>w' outs. serve H w es = Some (w', outs) \<and> srv w' = srv w \<and> serving (sessions w') = [] \<and>
    set outs \<subseteq> {EncodeMessage MsgError (str_bytes ''authentication failed'')}"
  using assms by (rule serve_unserved)

theorem auth_required_witness:
  "\<exists>w' outs. serve mem_host \<lparr>srv = make_server newMemTest (plain_config\<lparr>AuthToken := [7]\<rparr>) (\<lambda>_. 0), sessions = []\<rparr>
      [Connect 1 1 1, Received 0 [8, 10] 2 2 2] = Some (w', outs) \<and>
    srv w' = make_server newMemTest (plain_config\<lparr>AuthToken := [7]\<rparr>) (\<lambda>_. 0)"
  using auth_required [of "\<lparr>srv = make_server newMemTest (plain_config\<lparr>AuthToken := [7]\<rparr>) (\<lambda>_. 0), sessions = []\<rparr>"
      "[Connect 1 1 1, Received 0 [8, 10] 2 2 2]" mem_host]
  by (simp add: make_server_def plain_config_def token_of_def del: serve.simps) blast









end
