(* ===== verification/Server_Main.thy ===== *)
theory Server_Main
  imports Server KV_Props
begin

text \<open>
  The server binary, \<^verbatim>\<open>cmd/svacara-server/main.go\<close>: the values of its flags, the configuration made from them, and the
  outcomes of the process. The errors that it prints are values; \<open>None\<close> is a panic of the server.
\<close>

record flags =
  flag_listen :: string
  flag_data :: string
  flag_sync :: string
  flag_auth_token :: bytes
  flag_max_conns :: int

definition default_flags :: flags where
  "default_flags = \<lparr>flag_listen = '':8080'', flag_data = ''./data.db'', flag_sync = ''full'', flag_auth_token = [], flag_max_conns = 50\<rparr>"

definition sync_mode :: "string \<Rightarrow> int option" where
  "sync_mode s =
     (if s = ''full'' then Some SyncFull else if s = ''normal'' then Some SyncNormal else if s = ''off'' then Some SyncOff else None)"

definition flags_config :: "flags \<Rightarrow> int \<Rightarrow> server_Config" where
  "flags_config f mode =
     \<lparr>ListenAddr = flag_listen f, DBPath = flag_data f, SyncMode = mode, AuthToken = flag_auth_token f,
      server_MaxConns = flag_max_conns f, TLSCert = [], TLSKey = []\<rparr>"

datatype exit = InvalidSyncMode string | CreateFailed shard_error | ServerError start_error | Ended "KV shard_DB world" "bytes list"

fun exit_code :: "exit \<Rightarrow> nat" where
  "exit_code (Ended w outs) = 0"
| "exit_code _ = 1"

definition server_main ::
  "file_system \<Rightarrow> (KV shard_DB, 'p) host \<Rightarrow> ('c, 'l) network \<Rightarrow> (nat \<Rightarrow> int) \<Rightarrow> flags \<Rightarrow> event list \<Rightarrow> exit option" where
  "server_main F H N clock f es =
     (case sync_mode (flag_sync f) of
        None \<Rightarrow> Some (InvalidSyncMode (flag_sync f))
      | Some mode \<Rightarrow> do {
          r \<leftarrow> NewServer F (flags_config f mode) clock;
          (case r of
             Inl e \<Rightarrow> Some (CreateFailed e)
           | Inr s \<Rightarrow> do {
               r \<leftarrow> Start H N s es;
               Some (case r of Inl e \<Rightarrow> ServerError e | Inr (w, outs) \<Rightarrow> Ended w outs)
             })
        })"

section \<open>Properties\<close>

lemma NewServer_config:
  assumes "NewServer F cfg clock = Some (Inr s)"
  shows "srv_config s = cfg"
proof -
  obtain r where "shard_Open F (DBPath cfg) (SyncMode cfg) = Some r" "(case r of Inl e \<Rightarrow> Inl e | Inr db \<Rightarrow> Inr (make_server db cfg clock)) = Inr s"
    using assms by (auto simp: NewServer_def bind_eq_Some_conv)
  then show ?thesis by (cases r) (auto simp: make_server_def Let_def)
qed

text \<open>C20. Where the binary is started with a token, a known mode and a store that opens, and it can listen, clients that do not
  know the token cannot change or stop it: whatever they send on any number of connections, it keeps running on the store
  as it was opened, and all it writes to them is that the authentication failed.\<close>

theorem token_flag_protects:
  assumes "sync_mode (flag_sync f) = Some mode" "shard_Open F (flag_data f) mode = Some (Inr db)" "net_Listen N (flag_listen f) = Some ln"
    and "flag_auth_token f \<noteq> []" "\<forall>e \<in> set es. without_token (flag_auth_token f) e"
  shows "\<exists>w outs. server_main F H N clock f es = Some (Ended w outs) \<and> srv w = make_server db (flags_config f mode) clock \<and>
    set outs \<subseteq> {EncodeMessage MsgError (str_bytes ''authentication failed'')}"
proof -
  let ?s = "make_server db (flags_config f mode) clock"
  have c: "srv_config ?s = flags_config f mode" by (simp add: make_server_def)
  have n: "NewServer F (flags_config f mode) clock = Some (Inr ?s)" using assms(2) by (simp add: NewServer_def flags_config_def)
  obtain w outs where w: "serve H \<lparr>srv = ?s, sessions = []\<rparr> es = Some (w, outs)" "srv w = ?s"
    "set outs \<subseteq> {EncodeMessage MsgError (str_bytes ''authentication failed'')}"
    using serve_unserved [of "\<lparr>srv = ?s, sessions = []\<rparr>" es H] assms(4,5) c by (auto simp: flags_config_def)
  have "open_listener N (flags_config f mode) = Inr (Some ln)" using assms(3) by (simp add: open_listener_def flags_config_def)
  then have "Start H N ?s es = Some (Inr (w, outs))" using w(1) by (simp add: Start_def c)
  then show ?thesis using assms(1) n w(2,3) by (simp add: server_main_def)
qed

definition empty_files :: file_system where
  "empty_files = \<lparr>fs_IsDir = (\<lambda>_. None), fs_ReadDir = (\<lambda>_. None), fs_file = (\<lambda>_. (ideal_env, []))\<rparr>"

definition open_network :: "(unit, unit) network" where
  "open_network = \<lparr>LoadX509KeyPair = (\<lambda>_ _. None), tls_Listen = (\<lambda>_ _. None), net_Listen = (\<lambda>_. Some ())\<rparr>"

theorem token_flag_protects_witness:
  "\<forall>H :: (KV shard_DB, kv_store) host. \<exists>w outs.
    server_main empty_files H open_network (\<lambda>_. 0) (default_flags\<lparr>flag_auth_token := [7]\<rparr>)
      [Connect 1 1 1, Received 0 [8, 10] 2 2 2] = Some (Ended w outs)"
proof
  fix H :: "(KV shard_DB, kv_store) host"
  have "shard_Open empty_files (flag_data (default_flags\<lparr>flag_auth_token := [7]\<rparr>)) SyncFull =
      Some (Inr \<lparr>shards = [], shard_config = \<lparr>Strategy = 0, Shards = 0, KeyCol = [], Ranges = []\<rparr>, single = True, singleKV = Some (fresh_kv SyncFull)\<rparr>)"
    using Open_empty [of ideal_env SyncFull] ideal_env_ok by (simp add: shard_Open_def empty_files_def)
  from token_flag_protects [OF _ this, of open_network "()" "[Connect 1 1 1, Received 0 [8, 10] 2 2 2]" H "\<lambda>_. 0"]
  show "\<exists>w outs. server_main empty_files H open_network (\<lambda>_. 0) (default_flags\<lparr>flag_auth_token := [7]\<rparr>)
      [Connect 1 1 1, Received 0 [8, 10] 2 2 2] = Some (Ended w outs)" by (auto simp: default_flags_def sync_mode_def open_network_def token_of_def)
qed

text \<open>The binary never speaks TLS: whatever the flags, it behaves the same in two networks that differ only in loading
  certificates and listening with TLS.\<close>

theorem binary_without_tls:
  "server_main F H (N\<lparr>LoadX509KeyPair := c, tls_Listen := l\<rparr>) clock f es = server_main F H N clock f es"
proof (cases "sync_mode (flag_sync f)")
  case (Some mode)
  have "Start H (N\<lparr>LoadX509KeyPair := c, tls_Listen := l\<rparr>) s es = Start H N s es"
    if "NewServer F (flags_config f mode) clock = Some (Inr s)" for s
    using NewServer_config [OF that] by (simp add: Start_def open_listener_def flags_config_def)
  then show ?thesis using Some by (auto simp: server_main_def split: Option.bind_split sum.split)
qed (simp add: server_main_def)

end
