(* ===== verification/Rel_Spec.thy ===== *)
theory Rel_Spec
  imports Relational Shard
begin

text \<open>
  What the relational layer promises: tables are maps from primary keys to the values of the other columns. The abstraction
  reads these maps out of the content of a storage; every operation of \<^verbatim>\<open>internal/relational/table.go\<close> on tables without
  indexes is the operation on the maps, over every storage that keeps the contract of a map. With indexes, an insertion
  also leaves an entry for every index that leads to the primary key.
\<close>

section \<open>The specification\<close>

type_synonym rows = "u32 \<times> Val list \<Rightarrow> Val list option"

datatype rel_op = DoCreate TableDef | DoInsert string "Val list" | DoUpdate string "Val list" | DoDelete string "Val list" | DoGet string "Val list"

datatype rel_res = Changed bool | Found "Val list option" | Refused rel_error

record catalog =
  cat_tables :: "string \<Rightarrow> TableDef option"
  cat_rows :: rows

fun spec_step :: "catalog \<Rightarrow> rel_op \<Rightarrow> rel_res \<times> catalog" where
  "spec_step C (DoCreate d) =
     (if cat_tables C (tab_Name d) \<noteq> None then (Refused (TableExists (tab_Name d)), C)
      else if PKeys d < 1 then (Refused NoPrimaryKey, C)
      else (Changed True, C\<lparr>cat_tables := (cat_tables C)(tab_Name d \<mapsto> d\<lparr>Prefix := hashTableName (tab_Name d)\<rparr>)\<rparr>))"
| "spec_step C (DoInsert t vs) =
     (case cat_tables C t of
        None \<Rightarrow> (Refused (TableNotFound t), C)
      | Some d \<Rightarrow>
          let k = (Prefix d, take (nkeys_of d) vs) in
          if cat_rows C k \<noteq> None then (Changed False, C)
          else (Changed True, C\<lparr>cat_rows := (cat_rows C)(k \<mapsto> drop (nkeys_of d) vs)\<rparr>))"
| "spec_step C (DoUpdate t vs) =
     (case cat_tables C t of
        None \<Rightarrow> (Refused (TableNotFound t), C)
      | Some d \<Rightarrow> (Changed True, C\<lparr>cat_rows := (cat_rows C)((Prefix d, take (nkeys_of d) vs) \<mapsto> drop (nkeys_of d) vs)\<rparr>))"
| "spec_step C (DoDelete t pk) =
     (case cat_tables C t of
        None \<Rightarrow> (Refused (TableNotFound t), C)
      | Some d \<Rightarrow> (Changed (cat_rows C (Prefix d, pk) \<noteq> None), C\<lparr>cat_rows := (cat_rows C)((Prefix d, pk) := None)\<rparr>))"
| "spec_step C (DoGet t pk) =
     (case cat_tables C t of
        None \<Rightarrow> (Refused (TableNotFound t), C)
      | Some d \<Rightarrow> (Found (cat_rows C (Prefix d, pk)), C))"

fun spec_run :: "catalog \<Rightarrow> rel_op list \<Rightarrow> rel_res list \<times> catalog" where
  "spec_run C [] = ([], C)"
| "spec_run C (q # qs) = (let (r, C) = spec_step C q; (rs, C) = spec_run C qs in (r # rs, C))"

section \<open>The implementation\<close>

text \<open>The record that a caller passes for a list of values names the first columns of the table.\<close>

definition rec_for :: "'s rel_DB \<Rightarrow> string \<Rightarrow> Val list \<Rightarrow> Record" where
  "rec_for db t vs =
     (case DB_TableDef db t of None \<Rightarrow> \<lparr>rec_Cols = [], rec_Vals = vs\<rparr> | Some tdef \<Rightarrow> leading tdef vs)"

fun change_res :: "rel_error + bool \<Rightarrow> rel_res" where
  "change_res (Inl e) = Refused e"
| "change_res (Inr b) = Changed b"

fun get_res :: "rel_error + bool \<times> Record \<Rightarrow> rel_res" where
  "get_res (Inl e) = Refused e"
| "get_res (Inr (found, rec)) = Found (if found then Some (rec_Vals rec) else None)"

fun rel_step :: "'s storage \<Rightarrow> 's rel_DB \<Rightarrow> rel_op \<Rightarrow> (rel_res \<times> 's rel_DB) option" where
  "rel_step S db (DoCreate d) = (let (e, db) = CreateTable db d in Some (case e of None \<Rightarrow> Changed True | Some e \<Rightarrow> Refused e, db))"
| "rel_step S db (DoInsert t vs) = map_option (map_prod change_res id) (DB_Insert S db t (rec_for db t vs))"
| "rel_step S db (DoUpdate t vs) = map_option (map_prod change_res id) (DB_Update S db t (rec_for db t vs))"
| "rel_step S db (DoDelete t pk) = map_option (map_prod change_res id) (DB_Delete S db t (rec_for db t pk))"
| "rel_step S db (DoGet t pk) = map_option (\<lambda>r. (get_res r, db)) (DB_Get S db t (rec_for db t pk))"

fun rel_run :: "'s storage \<Rightarrow> 's rel_DB \<Rightarrow> rel_op list \<Rightarrow> (rel_res list \<times> 's rel_DB) option" where
  "rel_run S db [] = Some ([], db)"
| "rel_run S db (q # qs) = do {
     (r, db) \<leftarrow> rel_step S db q;
     (rs, db) \<leftarrow> rel_run S db qs;
     Some (r # rs, db)
   }"

section \<open>The abstraction\<close>

definition rows_of :: "(bytes \<Rightarrow> bytes option) \<Rightarrow> rows" where
  "rows_of c = (\<lambda>(p, pk). if list_all canonical pk then do { k \<leftarrow> EncodeKey [] p pk; v \<leftarrow> c k; DecodeValues v [] } else None)"

text \<open>What is stored under the key of a row can be decoded.\<close>

definition rows_decode :: "(bytes \<Rightarrow> bytes option) \<Rightarrow> bool" where
  "rows_decode c \<longleftrightarrow> (\<forall>p pk k v. list_all canonical pk \<longrightarrow> EncodeKey [] p pk = Some k \<longrightarrow> c k = Some v \<longrightarrow> DecodeValues v [] \<noteq> None)"

text \<open>An operation on a known table without indexes, on values that the encoding keeps and the storage can take.\<close>

fun row_ok :: "(bytes \<Rightarrow> bytes option \<Rightarrow> bool) \<Rightarrow> TableDef \<Rightarrow> Val list \<Rightarrow> bool" where
  "row_ok fit tdef vs \<longleftrightarrow> length vs = length (Cols tdef) \<and> list_all canonical vs \<and>
     (case (EncodeKey [] (Prefix tdef) (take (nkeys_of tdef) vs), EncodeValues [] (drop (nkeys_of tdef) vs)) of
        (Some k, Some v) \<Rightarrow> fit k (Some v) | _ \<Rightarrow> False)"

fun key_ok :: "(bytes \<Rightarrow> bytes option \<Rightarrow> bool) \<Rightarrow> TableDef \<Rightarrow> Val list \<Rightarrow> bool" where
  "key_ok fit tdef pk \<longleftrightarrow> length pk = nkeys_of tdef \<and> list_all canonical pk \<and>
     (case EncodeKey [] (Prefix tdef) pk of Some k \<Rightarrow> fit k None | None \<Rightarrow> False)"

fun op_ok :: "(bytes \<Rightarrow> bytes option \<Rightarrow> bool) \<Rightarrow> (string \<Rightarrow> TableDef option) \<Rightarrow> rel_op \<Rightarrow> bool" where
  "op_ok fit tabs (DoCreate d) = True"
| "op_ok fit tabs (DoInsert t vs) = (case tabs t of None \<Rightarrow> True | Some d \<Rightarrow> tab_ok d \<and> Indexes d = [] \<and> row_ok fit d vs)"
| "op_ok fit tabs (DoUpdate t vs) = (case tabs t of None \<Rightarrow> True | Some d \<Rightarrow> tab_ok d \<and> Indexes d = [] \<and> row_ok fit d vs)"
| "op_ok fit tabs (DoDelete t pk) = (case tabs t of None \<Rightarrow> True | Some d \<Rightarrow> tab_ok d \<and> Indexes d = [] \<and> key_ok fit d pk)"
| "op_ok fit tabs (DoGet t pk) = (case tabs t of None \<Rightarrow> True | Some d \<Rightarrow> tab_ok d \<and> length pk = nkeys_of d \<and> list_all canonical pk)"

fun ops_ok :: "(bytes \<Rightarrow> bytes option \<Rightarrow> bool) \<Rightarrow> catalog \<Rightarrow> rel_op list \<Rightarrow> bool" where
  "ops_ok fit C [] = True"
| "ops_ok fit C (q # qs) = (op_ok fit (cat_tables C) q \<and> ops_ok fit (snd (spec_step C q)) qs)"

text \<open>The tables and rows that a database stands for.\<close>

definition catalog_of :: "('s \<Rightarrow> bytes \<Rightarrow> bytes option) \<Rightarrow> 's rel_DB \<Rightarrow> catalog" where
  "catalog_of content db = \<lparr>cat_tables = tables db, cat_rows = rows_of (content (rel_kv db))\<rparr>"

lemma catalog_of_simps [simp]:
  "cat_tables (catalog_of content db) = tables db" "cat_rows (catalog_of content db) = rows_of (content (rel_kv db))"
  "(catalog_of content db)\<lparr>cat_rows := rows_of (content s)\<rparr> = catalog_of content (db\<lparr>rel_kv := s\<rparr>)"
  "(catalog_of content db)\<lparr>cat_tables := ts\<rparr> = catalog_of content (db\<lparr>tables := ts\<rparr>)"
  by (simp_all add: catalog_of_def)

lemma rows_of_update:
  assumes "list_all canonical pk" "EncodeKey [] p pk = Some k"
  shows "rows_of (c(k := v)) = (rows_of c)((p, pk) := v \<bind> (\<lambda>v. DecodeValues v []))"
proof (rule ext, clarify)
  fix q qk
  show "rows_of (c(k := v)) (q, qk) = ((rows_of c)((p, pk) := v \<bind> (\<lambda>v. DecodeValues v []))) (q, qk)"
  proof (cases "(q, qk) = (p, pk)")
    case True
    then show ?thesis using assms by (simp add: rows_of_def)
  next
    case False
    then have "EncodeKey [] q qk \<noteq> Some k" if "list_all canonical qk" using EncodeKey_inj [OF that assms(1) _ assms(2), of q] by auto
    then show ?thesis using False by (auto simp: rows_of_def split: Option.bind_split)
  qed
qed

lemma rows_decode_update:
  assumes "rows_decode c" "list_all canonical vs" "EncodeValues [] vs = Some v"
  shows "rows_decode (c(k \<mapsto> v))" "rows_decode (c(k := None))"
  using assms DecodeValues_EncodeValues [OF assms(2), of "[]"] unfolding rows_decode_def by auto

lemma EncodeKey_canonical: "list_all canonical pk \<Longrightarrow> \<exists>k. EncodeKey [] p pk = Some k"
  using DecodeValues_EncodeValues [of pk "[]"] by (auto simp: EncodeKey_eq)

lemma canonical_parts:
  "list_all canonical vs \<Longrightarrow> list_all canonical (take n vs)" "list_all canonical vs \<Longrightarrow> list_all canonical (drop n vs)"
  by (auto simp: list_all_iff dest: in_set_takeD in_set_dropD)

context storage_spec
begin

lemma DB_Get_rows:
  assumes "ready n (rel_kv db)" "rows_decode (content (rel_kv db))" "tables db t = Some tdef" "tab_ok tdef" "length pk = nkeys_of tdef"
    "list_all canonical pk"
  shows "map_option get_res (DB_Get S db t (leading tdef pk)) = Some (Found (rows_of (content (rel_kv db)) (Prefix tdef, pk)))"
proof -
  obtain k where k: "EncodeKey [] (Prefix tdef) pk = Some k" using EncodeKey_canonical [OF assms(6)] by blast
  have "dbGet S db tdef (leading tdef pk) =
    (case content (rel_kv db) k of
       None \<Rightarrow> Some (Inr (False, leading tdef pk))
     | Some val \<Rightarrow> map_option (\<lambda>vs. Inr (True, \<lparr>rec_Cols = names tdef, rec_Vals = vs\<rparr>)) (DecodeValues val []))"
    by (rule dbGet_key [OF assms(1,4,5) k])
  moreover have "content (rel_kv db) k = Some v \<Longrightarrow> DecodeValues v [] \<noteq> None" for v
    using assms(2,6) k unfolding rows_decode_def by blast
  ultimately show ?thesis using assms(3,6) k by (auto simp: DB_Get_def rows_of_def split: option.split)
qed

lemma dbUpdate_rows:
  assumes "ready (Suc n) (rel_kv db)" "rows_decode (content (rel_kv db))" "tab_ok tdef" "Indexes tdef = []" "row_ok fit tdef vs"
  shows "\<exists>s. dbUpdate S db tdef (leading tdef vs) mode =
      Some (if mode = 0 \<and> rows_of (content (rel_kv db)) (Prefix tdef, take (nkeys_of tdef) vs) \<noteq> None then (Inr False, db)
            else (Inr True, db\<lparr>rel_kv := s\<rparr>)) \<and>
    ready n s \<and> rows_decode (content s) \<and>
    rows_of (content s) = (rows_of (content (rel_kv db)))((Prefix tdef, take (nkeys_of tdef) vs) \<mapsto> drop (nkeys_of tdef) vs)"
proof -
  obtain k v where kv: "EncodeKey [] (Prefix tdef) (take (nkeys_of tdef) vs) = Some k" "EncodeValues [] (drop (nkeys_of tdef) vs) = Some v"
    "fit k (Some v)" and vs: "length vs = length (Cols tdef)" "list_all canonical vs"
    using assms(5) by (auto split: option.splits)
  note can = canonical_parts [OF vs(2), of "nkeys_of tdef"]
  obtain s where s: "dbUpdate S db tdef (leading tdef vs) mode =
      Some (if mode = 0 \<and> content (rel_kv db) k \<noteq> None then (Inr False, db) else (Inr True, db\<lparr>rel_kv := s\<rparr>))"
    "ready n s" "content s = (content (rel_kv db))(k \<mapsto> v)"
    using dbUpdate_row [OF assms(1,3,4) vs kv] by blast
  have "content (rel_kv db) k \<noteq> None \<longleftrightarrow> rows_of (content (rel_kv db)) (Prefix tdef, take (nkeys_of tdef) vs) \<noteq> None"
    using assms(2) can(1) kv(1) unfolding rows_decode_def by (auto simp: rows_of_def split: Option.bind_split)
  moreover have "DecodeValues v [] = Some (drop (nkeys_of tdef) vs)"
    using DecodeValues_EncodeValues [OF can(2), of "[]"] kv(2) by auto
  ultimately show ?thesis using s rows_of_update [OF can(1) kv(1)] rows_decode_update(1) [OF assms(2) can(2) kv(2)] by auto
qed

lemma dbDelete_rows:
  assumes "ready (Suc n) (rel_kv db)" "rows_decode (content (rel_kv db))" "tab_ok tdef" "Indexes tdef = []" "key_ok fit tdef pk"
  shows "\<exists>s. dbDelete S db tdef (leading tdef pk) =
      Some (if rows_of (content (rel_kv db)) (Prefix tdef, pk) = None then (Inr False, db) else (Inr True, db\<lparr>rel_kv := s\<rparr>)) \<and>
    ready n s \<and> rows_decode (content s) \<and> rows_of (content s) = (rows_of (content (rel_kv db)))((Prefix tdef, pk) := None)"
proof -
  obtain k where k: "EncodeKey [] (Prefix tdef) pk = Some k" "fit k None" and pk: "length pk = nkeys_of tdef" "list_all canonical pk"
    using assms(5) by (auto split: option.splits)
  obtain s where s: "dbDelete S db tdef (leading tdef pk) =
      Some (if content (rel_kv db) k = None then (Inr False, db) else (Inr True, db\<lparr>rel_kv := s\<rparr>))"
    "ready n s" "content s = (content (rel_kv db))(k := None)"
    using dbDelete_key [OF assms(1,3,4) pk(1) k] by blast
  have "content (rel_kv db) k = None \<longleftrightarrow> rows_of (content (rel_kv db)) (Prefix tdef, pk) = None"
    using assms(2) pk(2) k(1) unfolding rows_decode_def by (auto simp: rows_of_def split: Option.bind_split)
  moreover have "rows_decode ((content (rel_kv db))(k := None))"
    using rows_decode_update(2) [OF assms(2), of "[]" "[]"] by simp
  ultimately show ?thesis using s rows_of_update [OF pk(2) k(1)] by auto
qed

lemma rel_step_refines:
  assumes "ready (Suc n) (rel_kv db)" "rows_decode (content (rel_kv db))" "op_ok fit (tables db) q"
  shows "\<exists>db'. rel_step S db q = Some (fst (spec_step (catalog_of content db) q), db') \<and> ready n (rel_kv db') \<and>
    rows_decode (content (rel_kv db')) \<and> catalog_of content db' = snd (spec_step (catalog_of content db) q)"
proof -
  note keep = fewer [OF assms(1), of n]
  show ?thesis
  proof (cases q)
    case (DoCreate d)
    then show ?thesis using assms(2) keep by (auto simp: CreateTable_def Let_def)
  next
    case (DoInsert t vs)
    show ?thesis
    proof (cases "tables db t")
      case (Some d)
      obtain s where "dbUpdate S db d (leading d vs) 0 =
          Some (if rows_of (content (rel_kv db)) (Prefix d, take (nkeys_of d) vs) \<noteq> None then (Inr False, db) else (Inr True, db\<lparr>rel_kv := s\<rparr>))"
        "ready n s" "rows_decode (content s)"
        "rows_of (content s) = (rows_of (content (rel_kv db)))((Prefix d, take (nkeys_of d) vs) \<mapsto> drop (nkeys_of d) vs)"
        using dbUpdate_rows [OF assms(1,2), of d vs 0] assms(3) Some DoInsert by (auto simp del: row_ok.simps)
      then show ?thesis using Some DoInsert assms(2) keep
        by (auto simp: DB_Insert_def rec_for_def DB_TableDef_def Let_def simp flip: catalog_of_simps(3))
    qed (use DoInsert assms keep in \<open>simp add: DB_Insert_def\<close>)
  next
    case (DoUpdate t vs)
    show ?thesis
    proof (cases "tables db t")
      case (Some d)
      from dbUpdate_rows [OF assms(1,2), of d vs 1] assms(3) show ?thesis
        using Some DoUpdate by (auto simp: DB_Update_def rec_for_def DB_TableDef_def simp flip: catalog_of_simps(3) simp del: row_ok.simps)
    qed (use DoUpdate assms keep in \<open>simp add: DB_Update_def\<close>)
  next
    case (DoDelete t pk)
    show ?thesis
    proof (cases "tables db t")
      case (Some d)
      obtain s where "dbDelete S db d (leading d pk) =
          Some (if rows_of (content (rel_kv db)) (Prefix d, pk) = None then (Inr False, db) else (Inr True, db\<lparr>rel_kv := s\<rparr>))"
        "ready n s" "rows_decode (content s)" "rows_of (content s) = (rows_of (content (rel_kv db)))((Prefix d, pk) := None)"
        using dbDelete_rows [OF assms(1,2), of d pk] assms(3) Some DoDelete by (auto simp del: key_ok.simps)
      moreover have "(rows_of (content (rel_kv db)))((Prefix d, pk) := None) = rows_of (content (rel_kv db))"
        if "rows_of (content (rel_kv db)) (Prefix d, pk) = None" using that by (rule fun_upd_idem)
      ultimately show ?thesis using Some DoDelete assms(2) keep
        by (cases "rows_of (content (rel_kv db)) (Prefix d, pk)")
          (auto simp: DB_Delete_def rec_for_def DB_TableDef_def simp flip: catalog_of_simps(3))
    qed (use DoDelete assms keep in \<open>simp add: DB_Delete_def\<close>)
  next
    case (DoGet t pk)
    show ?thesis
    proof (cases "tables db t")
      case (Some d)
      then have "map_option get_res (DB_Get S db t (leading d pk)) = Some (Found (rows_of (content (rel_kv db)) (Prefix d, pk)))"
        using DB_Get_rows [OF assms(1,2) Some] assms(3) DoGet by simp
      then show ?thesis using Some DoGet assms(2) keep by (auto simp: rec_for_def DB_TableDef_def)
    qed (use DoGet assms keep in \<open>simp add: DB_Get_def\<close>)
  qed
qed

lemma rel_run_refines:
  assumes "ready (n + length qs) (rel_kv db)" "rows_decode (content (rel_kv db))" "ops_ok fit (catalog_of content db) qs"
  shows "\<exists>db'. rel_run S db qs = Some (fst (spec_run (catalog_of content db) qs), db') \<and> ready n (rel_kv db') \<and>
    catalog_of content db' = snd (spec_run (catalog_of content db) qs)"
  using assms
proof (induction qs arbitrary: db)
  case (Cons q qs)
  obtain db1 where db1: "rel_step S db q = Some (fst (spec_step (catalog_of content db) q), db1)"
    "ready (n + length qs) (rel_kv db1)" "rows_decode (content (rel_kv db1))"
    "catalog_of content db1 = snd (spec_step (catalog_of content db) q)"
    using rel_step_refines [of "n + length qs" db q] Cons.prems by auto
  obtain db2 where "rel_run S db1 qs = Some (fst (spec_run (catalog_of content db1) qs), db2)" "ready n (rel_kv db2)"
    "catalog_of content db2 = snd (spec_run (catalog_of content db1) qs)"
    using Cons.IH [OF db1(2,3)] Cons.prems(3) db1(4) by auto
  then show ?case using db1 by (intro exI [of _ db2]) (simp add: split_beta Let_def)
qed simp

text \<open>The loop over the indexes.\<close>

lemma updateIndexes_content:
  assumes "ready (n + length ids) s" "tab_ok tdef" "length vs = length (Cols tdef)" "EncodeValues [] (take (nkeys_of tdef) vs) = Some pv"
    "\<forall>i \<in> List.set ids. \<exists>k. index_key tdef i vs = Some k \<and> fit k (Some pv)"
  shows "\<exists>s'. updateIndexes S s tdef ids vs = Some (False, s') \<and> ready n s' \<and>
    content s' = (\<lambda>k. if Some k \<in> (\<lambda>i. index_key tdef i vs) ` List.set ids then Some pv else content s k)"
  using assms(1,5)
proof (induction ids arbitrary: s)
  case (Cons i ids)
  obtain k where k: "index_key tdef i vs = Some k" "fit k (Some pv)" using Cons.prems(2) by auto
  obtain s1 where s1: "s_Set S s k pv = Some (False, s1)" "ready (n + length ids) s1" "content s1 = (content s)(k \<mapsto> pv)"
    using set [of "n + length ids" s k pv] Cons.prems(1) k(2) by auto
  obtain s2 where s2: "updateIndexes S s1 tdef ids vs = Some (False, s2)" "ready n s2"
    "content s2 = (\<lambda>k. if Some k \<in> (\<lambda>i. index_key tdef i vs) ` List.set ids then Some pv else content s1 k)"
    using Cons.IH [OF s1(2)] Cons.prems(2) by auto
  have "updateIndex S s tdef i vs = Some (False, s1)"
    using k(1) s1(1) assms(2,3,4) tab_ok_nkeys [OF assms(2)] by (simp add: updateIndex_def cut_to_def byte_simps)
  then show ?case using s2 s1(3) k(1) by (auto simp: fun_eq_iff)
qed simp

lemma dbUpdate_indexed:
  assumes "ready (Suc (n + length (Indexes tdef))) (rel_kv db)" "tab_ok tdef" "length vs = length (Cols tdef)" "list_all canonical vs"
    "EncodeKey [] (Prefix tdef) (take (nkeys_of tdef) vs) = Some k" "EncodeValues [] (drop (nkeys_of tdef) vs) = Some v" "fit k (Some v)"
    "EncodeValues [] (take (nkeys_of tdef) vs) = Some pv" "\<forall>i \<in> List.set (Indexes tdef). \<exists>k. index_key tdef i vs = Some k \<and> fit k (Some pv)"
    "mode = 0 \<longrightarrow> content (rel_kv db) k = None"
  shows "\<exists>s. dbUpdate S db tdef (leading tdef vs) mode = Some (Inr True, db\<lparr>rel_kv := s\<rparr>) \<and> ready n s \<and>
    content s = (\<lambda>x. if Some x \<in> (\<lambda>i. index_key tdef i vs) ` List.set (Indexes tdef) then Some pv else ((content (rel_kv db))(k \<mapsto> v)) x)"
proof -
  obtain s where s: "s_Set S (rel_kv db) k v = Some (False, s)" "ready (n + length (Indexes tdef)) s" "content s = (content (rel_kv db))(k \<mapsto> v)"
    using set [OF assms(1,7)] by blast
  obtain s' where "updateIndexes S s tdef (Indexes tdef) vs = Some (False, s')" "ready n s'"
    "content s' = (\<lambda>x. if Some x \<in> (\<lambda>i. index_key tdef i vs) ` List.set (Indexes tdef) then Some pv else ((content (rel_kv db))(k \<mapsto> v)) x)"
    using updateIndexes_content [OF s(2) assms(2,3,8,9)] unfolding s(3) by blast
  then show ?thesis using s assms get [OF assms(1), of k] checkRecord_row [OF assms(2,3,4)] tab_ok_nkeys [OF assms(2)]
    by (intro exI [of _ s']) (simp add: dbUpdate_def cut_to_def cut_from_def byte_simps)
qed

end

section \<open>Properties\<close>

lemma three_shards_empty: "shard_content ref three_shards k = None"
proof -
  obtain i where "route three_shards k = Some i" "i < length (shards three_shards)"
    using route_some [of three_shards k] by (auto simp: routes_def three_shards_def)
  moreover have "\<not> single three_shards" by (simp add: three_shards_def)
  ultimately have "store_of three_shards k \<in> set (shards three_shards)" by (simp add: store_of_def)
  then show ?thesis by (auto simp: shard_content_def three_shards_def ref_new)
qed

lemma three_shards_ready: "n \<le> 2 ^ 30 \<Longrightarrow> shard_ready (mem_ready L) n three_shards"
  using mem_ready_new [of n L] by (simp add: shard_ready_def routes_def three_shards_def)




definition wide_row :: "Val list" where
  "wide_row = [zero_Value\<lparr>Type := TypeInt64, I64 := 5\<rparr>, zero_Value\<lparr>Type := TypeBytes, Str := [7, 7, 7, 7, 7, 7]\<rparr>]"


end
