(* ===== verification/Sql_Stmt.thy ===== *)
theory Sql_Stmt
  imports Sql_Print
begin

text \<open>
  The text of every statement, and that the parser of \<^verbatim>\<open>internal/sql/parser.go\<close> reads it back: tables with their columns and
  primary key, indexes, queries and changes with the clauses of a scan, explanations and transaction commands. Keywords
  have no word boundary in the parser, so a name that starts with a keyword is excluded where that keyword is tried first.
\<close>

section \<open>Surface syntax\<close>

datatype coltype = CInt | CText | CBool | CFloat

fun type_text :: "coltype \<Rightarrow> string" where
  "type_text CInt = ''int64''"
| "type_text CText = ''text''"
| "type_text CBool = ''bool''"
| "type_text CFloat = ''float64''"

fun type_code :: "coltype \<Rightarrow> nat" where
  "type_code CInt = QLI64"
| "type_code CText = QLStr"
| "type_code CBool = QLAnd"
| "type_code CFloat = 999"

text \<open>The clauses of a scan: the bounds, the condition, and a limit with an offset. A number is its sign and its digits.\<close>

record sscan =
  by_keys :: "(sexpr \<times> sexpr option) option"
  by_cond :: "sexpr option"
  by_limit :: "((bool \<times> string) \<times> (bool \<times> string) option) option"

datatype sstmt =
  MkTable string "(string \<times> coltype) list" "string list"
  | MkIndex bool string string "string list"
  | Query "string list" string sscan
  | Explain "string list" string sscan
  | Store string "string list" "sexpr list"
  | Change string "(string \<times> sexpr) list" sscan
  | Erase string "sscan option"
  | Command string

fun num_text :: "bool \<times> string \<Rightarrow> string" where
  "num_text (neg, ds) = (if neg then ''-'' else []) @ ds"

fun keys_text :: "(sexpr \<times> sexpr option) option \<Rightarrow> string" where
  "keys_text None = []"
| "keys_text (Some (e, None)) = '' index by '' @ text_of e"
| "keys_text (Some (e, Some e')) = '' index by '' @ text_of e @ '' and '' @ text_of e'"

fun cond_text :: "sexpr option \<Rightarrow> string" where
  "cond_text None = []"
| "cond_text (Some e) = '' filter '' @ text_of e"

fun limit_text :: "((bool \<times> string) \<times> (bool \<times> string) option) option \<Rightarrow> string" where
  "limit_text None = []"
| "limit_text (Some (n, None)) = '' limit '' @ num_text n"
| "limit_text (Some (n, Some m)) = '' limit '' @ num_text n @ '' offset '' @ num_text m"

definition scan_text :: "sscan \<Rightarrow> string" where
  "scan_text sc = keys_text (by_keys sc) @ cond_text (by_cond sc) @ limit_text (by_limit sc)"

definition assign_text :: "string \<times> sexpr \<Rightarrow> string" where
  "assign_text a = fst a @ ''='' @ text_of (snd a)"

definition col_text :: "string \<times> coltype \<Rightarrow> string" where
  "col_text c = fst c @ '' '' @ type_text (snd c)"

definition key_text :: "string list \<Rightarrow> string" where
  "key_text ks = ''primary key ('' @ commas ks @ '')''"

definition select_text :: "string list \<Rightarrow> string \<Rightarrow> sscan \<Rightarrow> string" where
  "select_text cols t sc = commas cols @ '' from '' @ t @ scan_text sc"

definition table_text :: "string \<Rightarrow> (string \<times> coltype) list \<Rightarrow> string list \<Rightarrow> string" where
  "table_text t cols ks =
     t @ '' ('' @ commas (map col_text cols @ [key_text ks]) @ '')''"

fun stmt_text :: "sstmt \<Rightarrow> string" where
  "stmt_text (MkTable t cols ks) = ''create table '' @ table_text t cols ks"
| "stmt_text (MkIndex u x t ks) = ''create index '' @ (if u then ''unique '' else []) @ x @ '' on '' @ t @ '' ('' @ commas ks @ '')''"
| "stmt_text (Query cols t sc) = ''select '' @ select_text cols t sc"
| "stmt_text (Explain cols t sc) = ''explain '' @ select_text cols t sc"
| "stmt_text (Store t cols es) = insert_text t cols es"
| "stmt_text (Change t as sc) = ''update '' @ t @ '' set '' @ commas (map assign_text as) @ '' where'' @ scan_text sc"
| "stmt_text (Erase t sc) = ''delete from '' @ t @ (case sc of None \<Rightarrow> [] | Some sc \<Rightarrow> '' where'' @ scan_text sc)"
| "stmt_text (Command c) = map lower c"

section \<open>Syntax trees\<close>

definition scan_node :: "string \<Rightarrow> sscan \<Rightarrow> QLScan" where
  "scan_node t sc =
     \<lparr>scan_Table = t,
      Key1 = (case by_keys sc of None \<Rightarrow> no_node | Some (e, _) \<Rightarrow> node_of e),
      Key2 = (case by_keys sc of Some (_, Some e) \<Rightarrow> node_of e | _ \<Rightarrow> no_node),
      Filter = (case by_cond sc of None \<Rightarrow> no_node | Some e \<Rightarrow> node_of e),
      Offset = (case by_limit sc of Some (_, Some (neg, ds)) \<Rightarrow> ParseInt neg ds | _ \<Rightarrow> 0),
      Limit = (case by_limit sc of Some ((neg, ds), _) \<Rightarrow> ParseInt neg ds | None \<Rightarrow> MaxInt64)\<rparr>"

definition select_node :: "string list \<Rightarrow> string \<Rightarrow> sscan \<Rightarrow> QLSelect" where
  "select_node cols t sc = \<lparr>sel_Scan = scan_node t sc, sel_Names = cols, Output = map ident cols\<rparr>"

definition col_node :: "string \<times> coltype \<Rightarrow> ColSpec" where
  "col_node c = \<lparr>spec_Name = fst c, spec_Type = type_code (snd c)\<rparr>"

fun stmt_of :: "sstmt \<Rightarrow> stmt" where
  "stmt_of (MkTable t cols ks) =
     SCreateTable \<lparr>ct_Table = t, ct_Cols = map col_node cols, ct_PKeys = ks\<rparr>"
| "stmt_of (MkIndex u x t ks) = SCreateIndex \<lparr>ci_Table = t, ci_Name = x, ci_Keys = ks, ci_Unique = u\<rparr>"
| "stmt_of (Query cols t sc) = SSelect (select_node cols t sc)"
| "stmt_of (Explain cols t sc) = SExplain (select_node cols t sc)"
| "stmt_of (Store t cols es) = SInsert \<lparr>ins_Table = t, ins_Names = cols, ins_Values = map node_of es\<rparr>"
| "stmt_of (Change t as sc) = SUpdate \<lparr>upd_Scan = scan_node t sc, upd_Names = map fst as, upd_Values = map (node_of \<circ> snd) as\<rparr>"
| "stmt_of (Erase t sc) =
     SDelete \<lparr>del_Scan = (case sc of None \<Rightarrow> empty_scan\<lparr>scan_Table := t\<rparr> | Some sc \<Rightarrow> scan_node t sc)\<rparr>"
| "stmt_of (Command c) = SText c"

section \<open>Statements that can be written\<close>

definition number :: "bool \<times> string \<Rightarrow> bool" where
  "number n \<longleftrightarrow> snd n \<noteq> [] \<and> list_all is_digit (snd n)"

definition scan_ok :: "sscan \<Rightarrow> bool" where
  "scan_ok sc \<longleftrightarrow>
     (case by_keys sc of None \<Rightarrow> True | Some (e, e') \<Rightarrow> printable e \<and> (case e' of None \<Rightarrow> True | Some e' \<Rightarrow> printable e')) \<and>
     (case by_cond sc of None \<Rightarrow> True | Some e \<Rightarrow> printable e) \<and>
     (case by_limit sc of None \<Rightarrow> True | Some (n, m) \<Rightarrow> number n \<and> (case m of None \<Rightarrow> True | Some m \<Rightarrow> number m))"

text \<open>A name, and a name that the parser does not take for the given keyword.\<close>

definition symbols :: "string list \<Rightarrow> bool" where
  "symbols xs \<longleftrightarrow> xs \<noteq> [] \<and> list_all symbol xs"

definition starts :: "string \<Rightarrow> string \<Rightarrow> bool" where
  "starts kw x \<longleftrightarrow> map lower (take (length kw) x) = kw"

fun stmt_ok :: "sstmt \<Rightarrow> bool" where
  "stmt_ok (MkTable t cols ks) \<longleftrightarrow> symbol t \<and> list_all (\<lambda>(c, ty). symbol c \<and> \<not> starts ''primary'' c) cols \<and> symbols ks"
| "stmt_ok (MkIndex u x t ks) \<longleftrightarrow> symbol x \<and> \<not> starts ''unique'' x \<and> symbol t \<and> symbols ks"
| "stmt_ok (Query cols t sc) \<longleftrightarrow> (symbols cols \<or> cols = [''*'']) \<and> symbol t \<and> scan_ok sc"
| "stmt_ok (Explain cols t sc) \<longleftrightarrow> (symbols cols \<or> cols = [''*'']) \<and> symbol t \<and> scan_ok sc"
| "stmt_ok (Store t cols es) \<longleftrightarrow> symbol t \<and> symbols cols \<and> es \<noteq> [] \<and> list_all printable es"
| "stmt_ok (Change t as sc) \<longleftrightarrow> symbol t \<and> as \<noteq> [] \<and> list_all (\<lambda>(c, e). symbol c \<and> printable e) as \<and> scan_ok sc"
| "stmt_ok (Erase t sc) \<longleftrightarrow> symbol t \<and> (case sc of None \<Rightarrow> True | Some sc \<Rightarrow> scan_ok sc)"
| "stmt_ok (Command c) \<longleftrightarrow> c \<in> {''BEGIN'', ''COMMIT'', ''ABORT''}"

section \<open>Ends of expressions\<close>

text \<open>What may follow an expression: nothing that an operator of the five precedences starts with.\<close>

definition ends :: "string \<Rightarrow> bool" where
  "ends inp \<longleftrightarrow> follow inp \<and> pMulOp inp = None \<and> pAddOp inp = None \<and> pCmpOp inp = None \<and> pAndOp inp = None \<and> pOrOp inp = None"

lemmas kw_simps = pKeyword_def lower_def is_ws_def skipWS_def

lemma ends_Nil [simp]: "ends []"
  by (simp add: ends_def follow_def op_defs pKeyword_def)

lemma ends_comma [simp]: "ends (CHR '','' # inp)"
  using ops_stop [of "CHR '','' # inp"] follow_stop [of "CHR '','' # inp"] by (simp add: ends_def stop_def)

lemma ends_words: "ends ('' filter '' @ inp)" "ends ('' limit '' @ inp)" "ends ('' where'' @ inp)"
  by (simp_all add: ends_def follow_def op_defs kw_simps)

lemmas ends_words_Cons [simp] = ends_words [simplified]

lemma parse_or_ends:
  assumes "printable e" "ends inp"
  shows "parse_or (text_of e @ inp) = Some (node_of e, inp)" "parse_or (CHR '' '' # text_of e @ inp) = Some (node_of e, inp)"
proof -
  have "length (text_of e) \<le> n \<Longrightarrow> pExprAtom n (text_of e @ inp) = Some (node_of e, inp)" for n
    using assms by (intro atom_text) (simp_all add: ends_def)
  then show "parse_or (text_of e @ inp) = Some (node_of e, inp)" "parse_or (CHR '' '' # text_of e @ inp) = Some (node_of e, inp)"
    using assms(2) by (simp_all add: parse_or_def pExprOr_def pExprAnd_def pExprCmp_def pExprAdd_def pExprMul_def ends_def del: pExprAtom.simps)
qed

lemma parse_cmp_ends:
  assumes "printable e" "follow inp" "pMulOp inp = None" "pAddOp inp = None" "pCmpOp inp = None"
  shows "parse_cmp (CHR '' '' # text_of e @ inp) = Some (node_of e, inp)"
proof -
  have "length (text_of e) \<le> n \<Longrightarrow> pExprAtom n (text_of e @ inp) = Some (node_of e, inp)" for n
    using assms by (intro atom_text) simp_all
  then show ?thesis using assms by (simp add: parse_cmp_def pExprCmp_def pExprAdd_def pExprMul_def del: pExprAtom.simps)
qed

section \<open>Scans read back\<close>

lemma pNum_number:
  assumes "number (neg, ds)" "inp = [] \<or> \<not> is_digit (hd inp)"
  shows "pNum (CHR '' '' # num_text (neg, ds) @ inp) = (Some (ParseInt neg ds), inp)"
proof -
  obtain d ds' where ds: "ds = d # ds'" "is_digit d" using assms(1) by (cases ds) (auto simp: number_def)
  have d: "\<not> is_ws d" "d \<noteq> CHR ''-''" using is_sym_not_ws [OF is_digit_sym [OF ds(2)]] by auto
  have skip: "skipComments (num_text (neg, ds) @ inp) = num_text (neg, ds) @ inp" using ds d by simp
  have "takeWhile is_digit (ds @ inp) = ds" "dropWhile is_digit (ds @ inp) = inp"
    using takeWhile_follow [of is_digit ds inp] assms by (simp_all add: number_def)
  then show ?thesis unfolding pNum_def skipComments_ws skip Let_def using ds(1) d by (cases neg) simp_all
qed

lemma ends_limit [simp]: "ends (limit_text l)"
  by (cases l rule: limit_text.cases) simp_all

lemma ends_cond [simp]: "ends (cond_text c @ limit_text l)"
  by (cases c) simp_all

lemma no_keyword:
  "pKeyword (limit_text l) [''filter''] = None" "pKeyword (cond_text c @ limit_text l) [''index'', ''by''] = None"
  "pKeyword (cond_text c @ limit_text l) ['',''] = None"
  by (cases l rule: limit_text.cases; cases c; simp add: kw_simps)+

lemma pLimit_text:
  assumes "case by_limit sc of None \<Rightarrow> True | Some (n, m) \<Rightarrow> number n \<and> (case m of None \<Rightarrow> True | Some m \<Rightarrow> number m)"
  shows "(case pKeyword (limit_text (by_limit sc)) [''limit''] of
       Some inp \<Rightarrow> pLimit inp (node\<lparr>Offset := 0, Limit := MaxInt64\<rparr>) | None \<Rightarrow> (node\<lparr>Offset := 0, Limit := MaxInt64\<rparr>, limit_text (by_limit sc))) =
    (node\<lparr>Offset := Offset (scan_node t sc), Limit := Limit (scan_node t sc)\<rparr>, [])"
proof (cases "by_limit sc" rule: limit_text.cases)
  case (2 n)
  then show ?thesis using assms pNum_number [of "fst n" "snd n" "[]"]
    by (cases n) (simp add: kw_simps pLimit_def scan_node_def)
next
  case (3 n m)
  have "pNum (CHR '' '' # num_text n @ '' offset '' @ num_text m) = (Some (ParseInt (fst n) (snd n)), '' offset '' @ num_text m)"
    using assms 3 pNum_number [of "fst n" "snd n" "'' offset '' @ num_text m"] by (simp add: is_digit_def)
  moreover have "pKeyword ('' offset '' @ num_text m) [''offset''] = Some (CHR '' '' # num_text m)" by (simp add: kw_simps)
  moreover have "pNum (CHR '' '' # num_text m) = (Some (ParseInt (fst m) (snd m)), [])"
    using assms 3 pNum_number [of "fst m" "snd m" "[]"] by simp
  moreover have "pKeyword (limit_text (by_limit sc)) [''limit''] = Some (CHR '' '' # num_text n @ '' offset '' @ num_text m)"
    using 3 by (simp add: kw_simps)
  ultimately show ?thesis using 3 by (cases n; cases m) (simp add: pLimit_def scan_node_def del: num_text.simps append_Cons)
qed (simp add: pKeyword_def scan_node_def)

text \<open>The three steps of \<open>pScan\<close>.\<close>

lemma ends_cmp: "ends inp \<Longrightarrow> follow inp \<and> pMulOp inp = None \<and> pAddOp inp = None \<and> pCmpOp inp = None"
  by (simp add: ends_def)

lemma and_words: "follow ('' and '' @ inp)" "pMulOp ('' and '' @ inp) = None" "pAddOp ('' and '' @ inp) = None" "pCmpOp ('' and '' @ inp) = None"
  "first_kw ('' and '' @ inp) [(''and'', ()), ('','', ())] = Some ((), CHR '' '' # inp)"
  by (simp_all add: follow_def op_defs kw_simps)

lemma pIndexBy_text:
  assumes "printable e" "case e' of None \<Rightarrow> True | Some e' \<Rightarrow> printable e'" "ends inp" "pKeyword inp ['',''] = None"
  shows "pIndexBy (CHR '' '' # text_of e @ (case e' of None \<Rightarrow> inp | Some e' \<Rightarrow> '' and '' @ text_of e' @ inp)) node =
    Some (case e' of None \<Rightarrow> node\<lparr>Key1 := node_of e\<rparr> | Some e' \<Rightarrow> node\<lparr>Key1 := node_of e, Key2 := node_of e'\<rparr>, inp)"
proof (cases e')
  case None
  have "parse_cmp (CHR '' '' # text_of e @ inp) = Some (node_of e, inp)"
    using assms(1) ends_cmp [OF assms(3)] by (intro parse_cmp_ends) simp_all
  moreover have "pKeyword inp [''and''] = None" using assms(3) by (simp add: ends_def pAndOp_def split: option.splits)
  ultimately show ?thesis using None assms(4) by (simp add: pIndexBy_def)
next
  case (Some e2)
  have "parse_cmp (CHR '' '' # text_of e @ '' and '' @ text_of e2 @ inp) = Some (node_of e, '' and '' @ text_of e2 @ inp)"
    by (rule parse_cmp_ends [OF assms(1) and_words(1-4)])
  moreover have "parse_cmp (CHR '' '' # text_of e2 @ inp) = Some (node_of e2, inp)"
    using assms(2) Some ends_cmp [OF assms(3)] by (intro parse_cmp_ends) simp_all
  ultimately show ?thesis using Some
    by (simp only: pIndexBy_def option.case Option.bind.bind_lunit prod.case Let_def and_words(5))
qed

lemma pScan_text:
  assumes "scan_ok sc"
  shows "pScan (scan_text sc) (empty_scan\<lparr>scan_Table := t\<rparr>) = Some (scan_node t sc, [])"
proof -
  let ?l = "limit_text (by_limit sc)" and ?n = "empty_scan\<lparr>scan_Table := t\<rparr>"
  let ?c = "cond_text (by_cond sc) @ ?l"
  let ?n1 = "?n\<lparr>Key1 := Key1 (scan_node t sc), Key2 := Key2 (scan_node t sc)\<rparr>"
  have 1: "(case pKeyword (scan_text sc) [''index'', ''by''] of Some inp \<Rightarrow> pIndexBy inp ?n | None \<Rightarrow> Some (?n, scan_text sc)) = Some (?n1, ?c)"
  proof (cases "by_keys sc")
    case None
    then show ?thesis using no_keyword(2) by (simp add: scan_text_def scan_node_def empty_scan_def)
  next
    case (Some k)
    obtain e e' where k: "k = (e, e')" by (cases k)
    have "pKeyword (scan_text sc) [''index'', ''by''] =
        Some (CHR '' '' # text_of e @ (case e' of None \<Rightarrow> ?c | Some e' \<Rightarrow> '' and '' @ text_of e' @ ?c))"
      using Some k by (cases e') (simp_all add: scan_text_def kw_simps)
    moreover have "printable e" "case e' of None \<Rightarrow> True | Some e' \<Rightarrow> printable e'" using assms Some k by (simp_all add: scan_ok_def)
    ultimately show ?thesis using pIndexBy_text [of e e' ?c] no_keyword(3) Some k
      by (cases e') (simp_all add: scan_node_def empty_scan_def)
  qed
  have 2: "(case pKeyword ?c [''filter''] of
        Some inp \<Rightarrow> do { (e, inp) \<leftarrow> parse_or inp; Some (?n1\<lparr>Filter := e\<rparr>, inp) } | None \<Rightarrow> Some (?n1, ?c)) =
      Some (?n1\<lparr>Filter := Filter (scan_node t sc)\<rparr>, ?l)"
  proof (cases "by_cond sc")
    case None
    then show ?thesis using no_keyword(1) by (simp add: scan_node_def empty_scan_def)
  next
    case (Some e)
    then have "pKeyword ?c [''filter''] = Some (CHR '' '' # text_of e @ ?l)" by (simp add: kw_simps)
    then show ?thesis using parse_or_ends(2) [of e ?l] assms Some by (simp add: scan_ok_def scan_node_def)
  qed
  have "by_limit sc = Some (n, m) \<Longrightarrow> number n \<and> (case m of None \<Rightarrow> True | Some m \<Rightarrow> number m)" for n m
    using assms by (simp add: scan_ok_def)
  then have l: "case by_limit sc of None \<Rightarrow> True | Some (n, m) \<Rightarrow> number n \<and> (case m of None \<Rightarrow> True | Some m \<Rightarrow> number m)"
    by (auto split: option.split)
  have "scan_node t sc = ?n1\<lparr>Filter := Filter (scan_node t sc), Offset := Offset (scan_node t sc), Limit := Limit (scan_node t sc)\<rparr>"
    by (simp add: scan_node_def empty_scan_def)
  then show ?thesis unfolding pScan_def 1 Option.bind.bind_lunit prod.case 2 Let_def pLimit_text [OF l, of _ t] by simp
qed

section \<open>Statements read back\<close>

lemma is_sym_lower: "is_sym (lower c) \<Longrightarrow> is_sym c"
  by (auto simp: is_sym_def lower_def split: if_splits)

text \<open>A keyword is not found at a name that does not start with it.\<close>

lemma pKeyword_starts:
  assumes "symbol x" "list_all is_sym kw" "\<not> starts kw x" "inp = [] \<or> \<not> is_sym (hd inp)"
  shows "pKeyword (x @ inp) (kw # kws) = None"
proof -
  have "match_word kw (x @ inp) = None" using assms(2-4)
  proof (induction kw arbitrary: x)
    case (Cons k kw)
    then show ?case by (cases x; cases inp) (auto simp: starts_def dest: is_sym_lower)
  qed (simp add: starts_def)
  moreover obtain c cs where x: "x = c # cs" "is_sym c" using assms(1) by (cases x) (auto simp: symbol_def)
  moreover have "skipComments (x @ inp) = x @ inp" using x is_sym_not_ws [OF x(2)] by simp
  ultimately show ?thesis using is_sym_not_ws [OF x(2)] by (simp add: pKeyword_def)
qed

lemma pKeyword_symbol:
  assumes "symbol x" "\<not> is_sym k"
  shows "pKeyword (x @ inp) ((k # kw) # kws) = None"
proof -
  obtain c cs where x: "x = c # cs" "is_sym c" using assms(1) by (cases x) (auto simp: symbol_def)
  have "lower c \<noteq> k" using x(2) assms(2) by (auto simp: is_sym_def lower_def split: if_splits)
  moreover have "skipComments (x @ inp) = x @ inp" using x is_sym_not_ws [OF x(2)] by simp
  ultimately show ?thesis using x is_sym_not_ws [OF x(2)] by (simp add: pKeyword_def)
qed

lemma sym_ends [simp]: "\<not> is_sym CHR '' ''" "\<not> is_sym CHR '',''" "\<not> is_sym CHR '')''" "\<not> is_sym CHR ''=''" "\<not> is_sym CHR ''*''"
  by (simp_all add: is_sym_def)

lemma pSelectExpr_ws [simp]: "pSelectExpr (CHR '' '' # inp) node = pSelectExpr inp node"
  by (simp only: pSelectExpr_def pKeyword_ws pMustSym_ws)

lemma pSelectExprList_ws [simp]: "pSelectExprList (CHR '' '' # inp) node = pSelectExprList inp node"
  by (subst (1 2) pSelectExprList.simps) (simp only: pSelectExpr_ws)

lemma pSelectExpr_symbol:
  assumes "symbol c" "inp = [] \<or> \<not> is_sym (hd inp)" "pKeyword inp [''as''] = None"
  shows "pSelectExpr (c @ inp) node = (node\<lparr>sel_Names := sel_Names node @ [c], Output := Output node @ [ident c]\<rparr>, inp)"
  using assms pKeyword_symbol [OF assms(1), of "CHR ''*''" inp "[]" "[]"] pMustSym_symbol [OF assms(1,2)] by (simp add: pSelectExpr_def)

lemma from_word: "pKeyword ('' from '' @ inp) [''as''] = None" "pKeyword ('' from '' @ inp) ['',''] = None"
  "pExpect ('' from '' @ inp) ''from'' = (True, CHR '' '' # inp)"
  by (simp_all add: kw_simps pExpect_def)

lemma pSelectExprList_text:
  assumes "symbols cols"
  shows "pSelectExprList (commas cols @ '' from '' @ inp) node =
    (node\<lparr>sel_Names := sel_Names node @ cols, Output := Output node @ map ident cols\<rparr>, '' from '' @ inp)"
  using assms
proof (induction cols arbitrary: node rule: induct_list012)
  case (2 c)
  then have "pSelectExpr (c @ '' from '' @ inp) node = (node\<lparr>sel_Names := sel_Names node @ [c], Output := Output node @ [ident c]\<rparr>, '' from '' @ inp)"
    using from_word(1) by (intro pSelectExpr_symbol) (simp_all add: symbols_def)
  then show ?case using from_word(2) by (subst pSelectExprList.simps) simp
next
  case (3 c d cols)
  let ?r = "'','' @ commas (d # cols) @ '' from '' @ inp"
  have "pSelectExpr (c @ ?r) node = (node\<lparr>sel_Names := sel_Names node @ [c], Output := Output node @ [ident c]\<rparr>, ?r)"
    using "3.prems" by (intro pSelectExpr_symbol) (simp_all add: symbols_def kw_simps)
  moreover have "pKeyword ?r ['',''] = Some (commas (d # cols) @ '' from '' @ inp)" by (simp add: kw_simps)
  moreover have "symbols (d # cols)" using "3.prems" by (simp add: symbols_def)
  ultimately show ?case using "3.IH"(2) by (subst pSelectExprList.simps) simp
qed (simp add: symbols_def)

lemma scan_text_head: "scan_text sc = [] \<or> \<not> is_sym (hd (scan_text sc))"
  by (cases "by_keys sc" rule: keys_text.cases; cases "by_cond sc"; cases "by_limit sc" rule: limit_text.cases) (simp_all add: scan_text_def)

lemma pSelect_text:
  assumes "symbols cols \<or> cols = [''*'']" "symbol t" "scan_ok sc"
  shows "pSelect (CHR '' '' # select_text cols t sc) = Some (select_node cols t sc, [])"
proof -
  let ?n = "\<lparr>sel_Scan = empty_scan, sel_Names = [], Output = []\<rparr>"
  have "pSelectExprList (CHR '' '' # select_text cols t sc) ?n =
      (\<lparr>sel_Scan = empty_scan, sel_Names = cols, Output = map ident cols\<rparr>, '' from '' @ t @ scan_text sc)"
  proof (cases "cols = [''*'']")
    case True
    have "pSelectExpr (''*'' @ '' from '' @ t @ scan_text sc) ?n =
        (\<lparr>sel_Scan = empty_scan, sel_Names = cols, Output = map ident cols\<rparr>, '' from '' @ t @ scan_text sc)"
      using True by (simp add: pSelectExpr_def kw_simps)
    then show ?thesis using True from_word(2) by (simp add: select_text_def) (subst pSelectExprList.simps, simp)
  next
    case False
    then show ?thesis using pSelectExprList_text [of cols] assms(1) by (simp add: select_text_def)
  qed
  moreover have "pMustSym (t @ scan_text sc) = (t, scan_text sc)" by (rule pMustSym_symbol [OF assms(2) scan_text_head])
  ultimately show ?thesis using from_word(3) [of "t @ scan_text sc"] pScan_text [OF assms(3), of t]
    by (simp add: pSelect_def select_node_def)
qed

lemma pAssigns_step:
  assumes "symbol (fst a)" "printable (snd a)" "ends r"
  shows "pAssigns (Suc n) (assign_text a @ r) =
    (case pKeyword r ['',''] of
       Some inp \<Rightarrow> do { (es, inp) \<leftarrow> pAssigns n inp; Some ((fst a, node_of (snd a)) # es, inp) }
     | None \<Rightarrow> Some ([(fst a, node_of (snd a))], r))"
proof -
  have "pMustSym (fst a @ ''='' @ text_of (snd a) @ r) = (fst a, ''='' @ text_of (snd a) @ r)"
    using assms by (intro pMustSym_symbol) simp_all
  moreover have "pExpect (''='' @ text_of (snd a) @ r) ''='' = (True, text_of (snd a) @ r)" by (simp add: pExpect_def pKeyword_def)
  ultimately show ?thesis using parse_or_ends(1) [OF assms(2,3)] by (simp add: assign_text_def)
qed

lemma where_word: "pKeyword ('' where'' @ inp) ['',''] = None" "pExpect ('' where'' @ inp) ''where'' = (True, inp)"
  "pKeyword ('' where'' @ inp) [''where''] = Some inp"
  by (simp_all add: kw_simps pExpect_def)

lemma pAssigns_text:
  assumes "as \<noteq> []" "list_all (\<lambda>(c, e). symbol c \<and> printable e) as" "length as \<le> n"
  shows "pAssigns n (commas (map assign_text as) @ '' where'' @ inp) = Some (map (\<lambda>a. (fst a, node_of (snd a))) as, '' where'' @ inp)"
  using assms
proof (induction as arbitrary: n rule: induct_list012)
  case (2 a)
  then obtain m where "n = Suc m" by (cases n) auto
  then show ?case using pAssigns_step [OF _ _ ends_words(3), of a m inp] "2.prems" where_word(1)
    by (simp add: split_beta del: pAssigns.simps)
next
  case (3 a b as)
  then obtain m where n: "n = Suc m" by (cases n) auto
  let ?r = "commas (map assign_text (b # as)) @ '' where'' @ inp"
  have "pAssigns m ?r = Some (map (\<lambda>a. (fst a, node_of (snd a))) (b # as), '' where'' @ inp)"
    using "3.prems" n by (intro "3.IH"(2)) simp_all
  moreover have "pKeyword ('','' @ ?r) ['',''] = Some ?r" by (simp add: kw_simps)
  ultimately have "pAssigns n (assign_text a @ '','' @ ?r) = Some (map (\<lambda>a. (fst a, node_of (snd a))) (a # b # as), '' where'' @ inp)"
    unfolding n using "3.prems" by (subst pAssigns_step) (auto simp: split_beta simp del: pAssigns.simps)
  then show ?case by simp
qed simp

lemma pUpdate_text:
  assumes "symbol t" "as \<noteq> []" "list_all (\<lambda>(c, e). symbol c \<and> printable e) as" "scan_ok sc"
  shows "pUpdate (CHR '' '' # t @ '' set '' @ commas (map assign_text as) @ '' where'' @ scan_text sc) =
    Some (\<lparr>upd_Scan = scan_node t sc, upd_Names = map fst as, upd_Values = map (node_of \<circ> snd) as\<rparr>, [])"
proof -
  let ?w = "'' where'' @ scan_text sc"
  let ?a = "commas (map assign_text as) @ ?w"
  have 1: "pMustSym (t @ '' set '' @ ?a) = (t, '' set '' @ ?a)" using assms(1) by (intro pMustSym_symbol) simp_all
  have 2: "pExpect ('' set '' @ ?a) ''set'' = (True, CHR '' '' # ?a)" by (simp add: kw_simps pExpect_def)
  have "\<forall>x \<in> set (map assign_text as). x \<noteq> []" by (simp add: assign_text_def)
  then have "length as \<le> length ?a" using commas_count [of "map assign_text as"] by simp
  moreover have "pAssigns (Suc n) (CHR '' '' # i) = pAssigns (Suc n) i" for n i by simp
  ultimately have 3: "pAssigns (Suc (length (CHR '' '' # ?a))) (CHR '' '' # ?a) = Some (map (\<lambda>a. (fst a, node_of (snd a))) as, ?w)"
    using pAssigns_text [OF assms(2,3)] by (simp del: pAssigns.simps)
  show ?thesis
    by (simp only: pUpdate_def pMustSym_ws 1 prod.case Let_def 2 snd_conv 3 Option.bind.bind_lunit where_word(2) pScan_text [OF assms(4)])
      (simp add: comp_def)
qed

lemma pDelete_text:
  assumes "symbol t" "case sc of None \<Rightarrow> True | Some sc \<Rightarrow> scan_ok sc"
  shows "pDelete (CHR '' '' # t @ (case sc of None \<Rightarrow> [] | Some sc \<Rightarrow> '' where'' @ scan_text sc)) =
    Some (\<lparr>del_Scan = (case sc of None \<Rightarrow> empty_scan\<lparr>scan_Table := t\<rparr> | Some sc \<Rightarrow> scan_node t sc)\<rparr>, [])"
proof (cases sc)
  case None
  then show ?thesis using pMustSym_symbol [OF assms(1), of "[]"] by (simp add: pDelete_def pKeyword_def)
next
  case (Some x)
  have "pMustSym (t @ '' where'' @ scan_text x) = (t, '' where'' @ scan_text x)" using assms(1) by (intro pMustSym_symbol) simp_all
  then show ?thesis using Some assms(2) where_word(3) [of "scan_text x"] pScan_text [of x t] by (simp add: pDelete_def)
qed

lemma commas_Cons: "xs \<noteq> [] \<Longrightarrow> commas (x # xs) = x @ '','' @ commas xs"
  by (cases xs) simp_all

lemma create_item_col:
  assumes "symbol (fst c)" "\<not> starts ''primary'' (fst c)"
  shows "create_item stmt (col_text c @ '','' @ r) = (stmt\<lparr>ct_Cols := ct_Cols stmt @ [col_node c]\<rparr>, '','' @ r)"
proof -
  let ?r = "'' '' @ type_text (snd c) @ '','' @ r"
  have "pKeyword (fst c @ ?r) [''primary'', ''key''] = None"
    using assms by (intro pKeyword_starts) (simp_all add: is_sym_def)
  moreover have "pMustSym (fst c @ ?r) = (fst c, ?r)" using assms by (intro pMustSym_symbol) simp_all
  moreover have "pType ?r = (type_code (snd c), '','' @ r)" by (cases "snd c") (simp_all add: pType_def kw_simps)
  ultimately show ?thesis by (simp add: create_item_def col_text_def col_node_def)
qed

lemma create_item_key:
  assumes "symbols ks"
  shows "create_item stmt (key_text ks @ r) = (stmt\<lparr>ct_PKeys := ct_PKeys stmt @ ks\<rparr>, r)"
proof -
  have "pKeyword (key_text ks @ r) [''primary'', ''key''] = Some ('' ('' @ commas ks @ CHR '')'' # r)"
    by (simp add: key_text_def kw_simps)
  moreover have "pExpect ('' ('' @ i) ''('' = (True, i)" for i by (simp add: pExpect_def kw_simps)
  moreover have "sym_list (commas ks @ CHR '')'' # r) = (ks, CHR '')'' # r)"
    using assms by (intro sym_list_commas) (auto simp: symbols_def list_all_iff)
  ultimately show ?thesis by (simp add: create_item_def)
qed

lemma create_items_text:
  assumes "list_all (\<lambda>(c, ty). symbol c \<and> \<not> starts ''primary'' c) cols" "symbols ks"
  shows "create_items stmt (commas (map col_text cols @ [key_text ks]) @ '')'') =
    (stmt\<lparr>ct_Cols := ct_Cols stmt @ map col_node cols, ct_PKeys := ct_PKeys stmt @ ks\<rparr>, '')'')"
  using assms(1)
proof (induction cols arbitrary: stmt)
  case Nil
  show ?case using create_item_key [OF assms(2), of stmt "'')''"] by (subst create_items.simps) (simp add: kw_simps)
next
  case (Cons c cols)
  let ?r = "commas (map col_text cols @ [key_text ks]) @ '')''"
  have "create_item stmt (col_text c @ '','' @ ?r) = (stmt\<lparr>ct_Cols := ct_Cols stmt @ [col_node c]\<rparr>, '','' @ ?r)"
    using Cons.prems by (intro create_item_col) auto
  moreover have "pKeyword ('','' @ ?r) ['',''] = Some ?r" by (simp add: kw_simps)
  ultimately have "create_items stmt (col_text c @ '','' @ ?r) = create_items (stmt\<lparr>ct_Cols := ct_Cols stmt @ [col_node c]\<rparr>) ?r"
    by (subst create_items.simps) (simp del: append_Cons)
  then show ?case using Cons by (simp add: commas_Cons)
qed

lemma pCreateTable_text:
  assumes "symbol t" "list_all (\<lambda>(c, ty). symbol c \<and> \<not> starts ''primary'' c) cols" "symbols ks"
  shows "pCreateTable (CHR '' '' # table_text t cols ks) = (\<lparr>ct_Table = t, ct_Cols = map col_node cols, ct_PKeys = ks\<rparr>, [])"
proof -
  let ?r = "commas (map col_text cols @ [key_text ks]) @ '')''"
  have "pMustSym (t @ '' ('' @ ?r) = (t, '' ('' @ ?r)" using assms(1) by (intro pMustSym_symbol) simp_all
  moreover have "pExpect ('' ('' @ ?r) ''('' = (True, ?r)" by (simp add: pExpect_def kw_simps)
  ultimately show ?thesis using create_items_text [OF assms(2,3)] by (simp add: pCreateTable_def table_text_def)
qed

lemma pCreateIndex_text:
  assumes "symbol x" "\<not> starts ''unique'' x" "symbol t" "symbols ks"
  shows "pCreateIndex (CHR '' '' # (if u then ''unique '' else []) @ x @ '' on '' @ t @ '' ('' @ commas ks @ '')'') =
    (\<lparr>ci_Table = t, ci_Name = x, ci_Keys = ks, ci_Unique = u\<rparr>, [])"
proof -
  let ?k = "'' ('' @ commas ks @ '')''"
  let ?r = "x @ '' on '' @ t @ ?k"
  have 1: "pKeyword ?r [''unique''] = None" using assms by (intro pKeyword_starts) (simp_all add: is_sym_def)
  have 2: "pKeyword (''unique '' @ i) [''unique''] = Some (CHR '' '' # i)" for i by (simp add: kw_simps)
  have 3: "pMustSym ?r = (x, '' on '' @ t @ ?k)" using assms by (intro pMustSym_symbol) simp_all
  have 4: "pExpect ('' on '' @ i) ''on'' = (True, CHR '' '' # i)" for i by (simp add: kw_simps pExpect_def)
  have 5: "pMustSym (t @ ?k) = (t, ?k)" using assms by (intro pMustSym_symbol) simp_all
  have 6: "pExpect ?k ''('' = (True, commas ks @ '')'')" by (simp add: kw_simps pExpect_def)
  have 7: "sym_list (commas ks @ '')'') = (ks, '')'')"
    using assms by (intro sym_list_commas) (auto simp: symbols_def list_all_iff)
  show ?thesis
    by (cases u)
      (simp_all only: pCreateIndex_def if_True if_False append_Nil pKeyword_ws 1 2 option.case prod.case pMustSym_ws 3 4 5 6 7 Let_def
        simp_thms snd_conv pExpect_paren QLCreateIndex.update_convs)
qed

lemma heads_simps:
  "first_kws (''create table '' @ i) heads = Some (HCreateTable, CHR '' '' # i)"
  "first_kws (''create index '' @ i) heads = Some (HCreateIndex, CHR '' '' # i)"
  "first_kws (''select '' @ i) heads = Some (HSelect, CHR '' '' # i)"
  "first_kws (''explain '' @ i) heads = Some (HExplain, CHR '' '' # i)"
  "first_kws (''update '' @ i) heads = Some (HUpdate, CHR '' '' # i)"
  "first_kws (''delete from '' @ i) heads = Some (HDelete, CHR '' '' # i)"
  by (simp_all add: heads_def kw_simps)

lemma command_read:
  "pStmt (map lower ''BEGIN'') = Some (SText ''BEGIN'', [])" "pStmt (map lower ''COMMIT'') = Some (SText ''COMMIT'', [])"
  "pStmt (map lower ''ABORT'') = Some (SText ''ABORT'', [])"
  by code_simp+

lemma stmt_read:
  assumes "stmt_ok s"
  shows "Parse (stmt_text s) = Some (Inr (stmt_of s))"
proof -
  have "pStmt (stmt_text s) = Some (stmt_of s, [])"
  proof (cases s)
    case (MkTable t cols ks)
    then show ?thesis using pCreateTable_text [of t cols ks] assms by (simp add: pStmt_def heads_simps del: append_Cons)
  next
    case (MkIndex u x t ks)
    then show ?thesis using pCreateIndex_text [of x t ks u] assms by (simp add: pStmt_def heads_simps del: append_Cons)
  next
    case (Query cols t sc)
    then show ?thesis using pSelect_text [of cols t sc] assms by (simp add: pStmt_def heads_simps del: append_Cons)
  next
    case (Explain cols t sc)
    then show ?thesis using pSelect_text [of cols t sc] assms by (simp add: pStmt_def heads_simps del: append_Cons)
  next
    case (Store t cols es)
    then show ?thesis using pInsert_text [of t cols es] assms
      by (simp add: pStmt_def insert_text_def heads_insert symbols_def list_all_iff del: append_Cons)
  next
    case (Change t as sc)
    then show ?thesis using pUpdate_text [of t as sc] assms by (simp add: pStmt_def heads_simps del: append_Cons)
  next
    case (Erase t sc)
    then show ?thesis using pDelete_text [of t sc] assms by (simp add: pStmt_def heads_simps del: append_Cons)
  next
    case (Command c)
    then show ?thesis using assms command_read by auto
  qed
  then show ?thesis by (simp add: Parse_def skipWS_def)
qed

section \<open>Properties\<close>

text \<open>C8. Printing and parsing statements: the text of every statement of the language is parsed into the syntax tree it was
  printed from. The clauses of a scan are optional one by one; names of columns must not start with the word that would
  be taken for the primary key, nor the names of indexes with \<^verbatim>\<open>unique\<close>.\<close>

theorem statement_roundtrip:
  assumes "stmt_ok s"
  shows "Parse (stmt_text s) = Some (Inr (stmt_of s))"
  using assms by (rule stmt_read)

theorem statement_roundtrip_witness:
  "Parse ''select a,b from t index by f(5) filter (a > 3) limit 10 offset 2'' = Some (Inr (SSelect
     \<lparr>sel_Scan = \<lparr>scan_Table = ''t'', Key1 = QLNode QLFunc 0 ''f'' [QLNode QLI64 5 [] []], Key2 = no_node,
        Filter = binary QLGT (ident ''a'') (QLNode QLI64 3 [] []), Offset = 2, Limit = 10\<rparr>,
      sel_Names = [''a'', ''b''], Output = [ident ''a'', ident ''b'']\<rparr>)) \<and>
   Parse ''create table t (id int64,v text,primary key (id))'' = Some (Inr (SCreateTable
     \<lparr>ct_Table = ''t'', ct_Cols = [\<lparr>spec_Name = ''id'', spec_Type = QLI64\<rparr>, \<lparr>spec_Name = ''v'', spec_Type = QLStr\<rparr>], ct_PKeys = [''id'']\<rparr>))"
proof
  let ?q = "Query [''a'', ''b''] ''t'' \<lparr>by_keys = Some (Call ''f'' [Num False ''5''], None),
      by_cond = Some (Bin OpGT (Name ''a'') (Num False ''3'')), by_limit = Some ((False, ''10''), Some (False, ''2''))\<rparr>"
  have "stmt_ok ?q" by code_simp
  from statement_roundtrip [OF this] show "Parse ''select a,b from t index by f(5) filter (a > 3) limit 10 offset 2'' = Some (Inr (SSelect
     \<lparr>sel_Scan = \<lparr>scan_Table = ''t'', Key1 = QLNode QLFunc 0 ''f'' [QLNode QLI64 5 [] []], Key2 = no_node,
        Filter = binary QLGT (ident ''a'') (QLNode QLI64 3 [] []), Offset = 2, Limit = 10\<rparr>,
      sel_Names = [''a'', ''b''], Output = [ident ''a'', ident ''b'']\<rparr>))"
    by (simp add: select_text_def scan_text_def select_node_def scan_node_def ParseInt_def digits_val_def ident_def lower_def)
  have "stmt_ok (MkTable ''t'' [(''id'', CInt), (''v'', CText)] [''id''])" by code_simp
  from statement_roundtrip [OF this] show "Parse ''create table t (id int64,v text,primary key (id))'' = Some (Inr (SCreateTable
     \<lparr>ct_Table = ''t'', ct_Cols = [\<lparr>spec_Name = ''id'', spec_Type = QLI64\<rparr>, \<lparr>spec_Name = ''v'', spec_Type = QLStr\<rparr>], ct_PKeys = [''id'']\<rparr>))"
    by (simp add: table_text_def col_text_def key_text_def col_node_def)
qed

end
