(* ===== verification/Cli.thy ===== *)
theory Cli
  imports Protocol
begin

text \<open>
  The command line client, \<^verbatim>\<open>cmd/svacara-cli/main.go\<close>: how it takes the lines of its input, the message it sends for a
  line, how it reads a reply from the stream, what it prints for a result, and the loop around them. Printed lines are
  lists of bytes; \<open>None\<close> is a panic, a loop that does not end, or a wait for bytes that do not arrive. The other end of the
  connection is a parameter of the loop.
\<close>

definition msgQuery :: byte where "msgQuery = 0x01"
definition msgResult :: byte where "msgResult = 0x10"
definition msgError :: byte where "msgError = 0x11"
definition msgReady :: byte where "msgReady = 0x20"

definition cli_message :: "bytes \<Rightarrow> bytes" where
  "cli_message payload = [msgQuery] @ be_bytes 4 (of_nat (length payload) :: u32) @ payload"

text \<open>\<^verbatim>\<open>strings.Join\<close> with a tab.\<close>

fun join_tab :: "bytes list \<Rightarrow> bytes" where
  "join_tab [] = []"
| "join_tab [s] = s"
| "join_tab (s # t # ss) = s @ 9 # join_tab (t # ss)"

text \<open>The loops over the columns: \<open>Some None\<close> is the early return.\<close>

fun read_cells :: "nat \<Rightarrow> bytes \<Rightarrow> nat \<Rightarrow> (bytes list \<times> nat) option option" where
  "read_cells 0 data pos = Some (Some ([], pos))"
| "read_cells (Suc n) data pos =
     (if pos + 2 > length data then Some None
      else do {
        lb \<leftarrow> slice data pos (pos + 2);
        clen \<leftarrow> be_get 2 lb;
        s \<leftarrow> slice data (pos + 2) (pos + 2 + unat (clen :: u16));
        r \<leftarrow> read_cells n data (pos + 2 + unat clen);
        Some (map_option (\<lambda>(ss, p). (s # ss, p)) r)
      })"

partial_function (option) print_rows :: "nat \<Rightarrow> bytes \<Rightarrow> nat \<Rightarrow> bytes list \<Rightarrow> bytes list option" where
  "print_rows ncols data pos out =
     (if pos < length data then do {
        r \<leftarrow> read_cells ncols data pos;
        (case r of
           None \<Rightarrow> Some out
         | Some (row, pos) \<Rightarrow> print_rows ncols data pos (out @ [join_tab row]))
      }
      else Some out)"

definition printResult :: "bytes \<Rightarrow> bytes list option" where
  "printResult data =
     (if length data < 1 then Some []
      else do {
        b \<leftarrow> index data 0;
        r \<leftarrow> read_cells (unat b) data 1;
        (case r of
           None \<Rightarrow> Some []
         | Some (cols, pos) \<Rightarrow> print_rows (unat b) data pos [join_tab cols, replicate (length (join_tab cols)) 45])
      })"

datatype reply = Printed "bytes list" | ErrorText bytes | Acknowledged | UnknownReply byte | Disconnected

text \<open>Reading one reply from the stream, and what is left of the stream.\<close>

definition cli_receive :: "bytes \<Rightarrow> (reply \<times> bytes) option" where
  "cli_receive stream =
     (if length stream < 5 then Some (Disconnected, [])
      else do {
        msgType \<leftarrow> index stream 0;
        lb \<leftarrow> slice stream 1 5;
        len \<leftarrow> be_get 4 lb;
        let rest = drop 5 stream;
        (if length rest < unat (len :: u32) then Some (Disconnected, [])
         else
           let body = take (unat len) rest; rest = drop (unat len) rest in
           if msgType = msgResult then do { ls \<leftarrow> printResult body; Some (Printed ls, rest) }
           else if msgType = msgError then Some (ErrorText body, rest)
           else if msgType = msgReady then Some (Acknowledged, rest)
           else Some (UnknownReply msgType, rest))
      })"

section \<open>The loop\<close>

text \<open>
  The lines of \<^verbatim>\<open>bufio.Scanner\<close>: without the line feed and one carriage return before it. A line that does not fit the
  buffer of 64 KiB ends the scan, as the end of the input does.
\<close>

definition dropCR :: "bytes \<Rightarrow> bytes" where
  "dropCR l = (if l \<noteq> [] \<and> last l = 13 then butlast l else l)"

function scan_lines :: "bytes \<Rightarrow> bytes list" where
  "scan_lines input =
     (let l = takeWhile (\<lambda>b. b \<noteq> 10) input in
      if input = [] \<or> 65536 \<le> length l then [] else dropCR l # scan_lines (drop (Suc (length l)) input))"
  by pat_completeness auto
termination
  by (relation "measure length") auto

declare scan_lines.simps [simp del]

text \<open>
  \<^verbatim>\<open>strings.TrimSpace\<close>: the encodings of the characters with the Unicode property White Space, removed at both ends. The
  last character of a string is one of them exactly where its encoding is a suffix.
\<close>

definition space_chars :: "bytes list" where
  "space_chars = [[9], [10], [11], [12], [13], [32], [0xC2, 0x85], [0xC2, 0xA0], [0xE1, 0x9A, 0x80], [0xE2, 0x80, 0xA8],
     [0xE2, 0x80, 0xA9], [0xE2, 0x80, 0xAF], [0xE2, 0x81, 0x9F], [0xE3, 0x80, 0x80]] @
     map (\<lambda>b. [0xE2, 0x80, b]) [0x80, 0x81, 0x82, 0x83, 0x84, 0x85, 0x86, 0x87, 0x88, 0x89, 0x8A]"

fun trim_prefix :: "bytes list \<Rightarrow> bytes \<Rightarrow> bytes option" where
  "trim_prefix [] l = None"
| "trim_prefix (c # cs) l = (if c \<noteq> [] \<and> take (length c) l = c then Some (drop (length c) l) else trim_prefix cs l)"

lemma trim_prefix_shorter: "trim_prefix cs l = Some r \<Longrightarrow> length r < length l"
proof (induction cs)
  case (Cons c cs)
  show ?case
  proof (cases "c \<noteq> [] \<and> take (length c) l = c")
    case True
    then have "l \<noteq> []" by auto
    moreover have "r = drop (length c) l" using Cons.prems True by simp
    ultimately show ?thesis using True by simp
  next
    case False
    then have "trim_prefix cs l = Some r" using Cons.prems by (simp only: trim_prefix.simps if_False)
    then show ?thesis by (rule Cons.IH)
  qed
qed simp

function trim_left :: "bytes list \<Rightarrow> bytes \<Rightarrow> bytes" where
  "trim_left cs l = (case trim_prefix cs l of Some r \<Rightarrow> trim_left cs r | None \<Rightarrow> l)"
  by pat_completeness auto
termination
  by (relation "measure (\<lambda>(_, l). length l)") (auto dest: trim_prefix_shorter)

declare trim_left.simps [simp del]

definition TrimSpace :: "bytes \<Rightarrow> bytes" where
  "TrimSpace l = rev (trim_left (map rev space_chars) (rev (trim_left space_chars l)))"

text \<open>
  Whether \<^verbatim>\<open>strings.ToUpper\<close> of a line is a word in capitals. Outside ASCII only the dotless \<open>i\<close> and the long \<open>s\<close> have a
  capital in ASCII.
\<close>

fun upper_is :: "bytes \<Rightarrow> bytes \<Rightarrow> bool" where
  "upper_is [] w = (w = [])"
| "upper_is (b # l) [] = False"
| "upper_is (b # l) (c # w) =
     (if b < 128 then (if 97 \<le> b \<and> b \<le> 122 then b - 32 else b) = c \<and> upper_is l w
      else (case l of
              [] \<Rightarrow> False
            | b' # l \<Rightarrow> (b = 0xC4 \<and> b' = 0xB1 \<and> c = 73 \<or> b = 0xC5 \<and> b' = 0xBF \<and> c = 83) \<and> upper_is l w))"

definition leaves :: "bytes \<Rightarrow> bool" where
  "leaves line \<longleftrightarrow> upper_is line [69, 88, 73, 84] \<or> upper_is line [81, 85, 73, 84]"

datatype cli_out = Usage | ConnectError | Banner string | Prompt | Reply reply | WriteError

text \<open>
  The other end of the connection: for what is written, the bytes that arrive and whether the connection is closed
  after them, or \<open>None\<close> where the write fails.
\<close>

type_synonym 'w peer = "'w \<Rightarrow> bytes \<Rightarrow> (bytes \<times> bool \<times> 'w) option"

fun cli_loop :: "'w peer \<Rightarrow> 'w \<Rightarrow> bytes \<Rightarrow> bytes list \<Rightarrow> (cli_out list \<times> 'w) option" where
  "cli_loop write w stream [] = Some ([Prompt], w)"
| "cli_loop write w stream (l # ls) =
     (let line = TrimSpace l in
      if line = [] then map_option (\<lambda>(out, w). (Prompt # out, w)) (cli_loop write w stream ls)
      else if leaves line then Some ([Prompt], w)
      else
        (case write w (cli_message line) of
           None \<Rightarrow> Some ([Prompt, WriteError], w)
         | Some (arrived, closed, w) \<Rightarrow> do {
             (r, rest) \<leftarrow> cli_receive (stream @ arrived);
             (if r = Disconnected then (if closed then Some ([Prompt, Reply r], w) else None)
              else map_option (\<lambda>(out, w). (Prompt # Reply r # out, w)) (cli_loop write w rest ls))
           }))"

text \<open>The program: what it prints, its exit code, and the other end.\<close>

definition cli_main :: "string list \<Rightarrow> (string \<Rightarrow> 'w option) \<Rightarrow> 'w peer \<Rightarrow> bytes \<Rightarrow> (cli_out list \<times> nat \<times> 'w option) option" where
  "cli_main args dial write input =
     (case args of
        _ # addr # _ \<Rightarrow>
          (case dial addr of
             None \<Rightarrow> Some ([ConnectError], 1, None)
           | Some w \<Rightarrow> do { (out, w) \<leftarrow> cli_loop write w [] (scan_lines input); Some (Banner addr # out, 0, Some w) })
      | _ \<Rightarrow> Some ([Usage], 1, None))"

section \<open>Reading strings back\<close>

lemma read_cells_strings:
  assumes "\<forall>s \<in> set ss. length s < 65536"
  shows "read_cells (length ss) (pre @ concat (map EncodeString ss) @ post) (length pre) =
    Some (Some (ss, length (pre @ concat (map EncodeString ss))))"
  using assms
proof (induction ss arbitrary: pre)
  case (Cons s ss)
  have n: "unat (of_nat (length s) :: u16) = length s" using Cons.prems by (simp add: unat_of_nat take_bit_nat_eq_self)
  have "read_cells (length ss) ((pre @ EncodeString s) @ concat (map EncodeString ss) @ post) (length (pre @ EncodeString s)) =
    Some (Some (ss, length ((pre @ EncodeString s) @ concat (map EncodeString ss))))"
    using Cons by (intro Cons.IH) simp
  then show ?case using n by (simp add: byte_simps EncodeString_def [of s] add.assoc)
qed simp

lemma print_rows_strings:
  assumes "\<forall>row \<in> set rows. length row = n \<and> (\<forall>s \<in> set row. length s < 65536)" "0 < n"
  shows "print_rows n (pre @ concat (map (\<lambda>row. concat (map EncodeString row)) rows)) (length pre) out = Some (out @ map join_tab rows)"
  using assms(1)
proof (induction rows arbitrary: pre out)
  case Nil
  then show ?case by (subst print_rows.simps) simp
next
  case (Cons row rows)
  let ?e = "concat (map EncodeString row)"
  let ?post = "concat (map (\<lambda>row. concat (map EncodeString row)) rows)"
  have "EncodeString s \<noteq> []" for s by (simp add: EncodeString_def be_bytes_def numeral_2_eq_2)
  then have "?e \<noteq> []" using Cons.prems assms(2) by (cases row) auto
  moreover have "read_cells n (pre @ ?e @ ?post) (length pre) = Some (Some (row, length (pre @ ?e)))"
    using read_cells_strings [of row pre ?post] Cons.prems by simp
  moreover have "print_rows n ((pre @ ?e) @ ?post) (length (pre @ ?e)) (out @ [join_tab row]) = Some ((out @ [join_tab row]) @ map join_tab rows)"
    using Cons by (intro Cons.IH) simp
  ultimately show ?case by (subst print_rows.simps) simp
qed

lemma print_rows_returns:
  assumes "print_rows n data pos out = Some ls"
  shows "n \<noteq> 0 \<or> length data \<le> pos"
proof (rule print_rows.raw_induct [OF _ assms])
  fix f :: "nat \<Rightarrow> bytes \<Rightarrow> nat \<Rightarrow> bytes list \<Rightarrow> bytes list option" and n data pos out ls
  assume "\<And>n data pos out ls. f n data pos out = Some ls \<Longrightarrow> n \<noteq> 0 \<or> length data \<le> pos"
    "(if pos < length data then read_cells n data pos \<bind>
       case_option (Some out) (\<lambda>(row, pos). f n data pos (out @ [join_tab row])) else Some out) = Some ls"
  then show "n \<noteq> 0 \<or> length data \<le> pos" by (cases "n = 0 \<and> pos < length data") (auto, fastforce)
qed

lemma print_rows_no_columns: "pos < length data \<Longrightarrow> print_rows 0 data pos out = None"
  using print_rows_returns [of 0 data pos out] by (cases "print_rows 0 data pos out") auto

lemma receive_result:
  assumes "length payload < 2 ^ 32"
  shows "cli_receive (EncodeMessage MsgResult payload @ rest) = do { ls \<leftarrow> printResult payload; Some (Printed ls, rest) }"
proof -
  have "unat (of_nat (length payload) :: u32) = length payload" using assms by (simp add: unat_of_nat take_bit_nat_eq_self)
  then show ?thesis
    by (simp add: cli_receive_def EncodeMessage_def MsgResult_def msgResult_def byte_simps)
qed

section \<open>Lines\<close>

lemma scan_lines_Nil [simp]: "scan_lines [] = []"
  by (simp add: scan_lines.simps)

text \<open>A line that ends neither in a carriage return nor exceeds the buffer is taken as it is.\<close>

lemma scan_lines_line:
  assumes "10 \<notin> set l" "length l < 65536" "l = [] \<or> last l \<noteq> 13"
  shows "scan_lines (l @ 10 # input) = l # scan_lines input"
proof -
  have t: "takeWhile (\<lambda>b. b \<noteq> 10) (l @ 10 # input) = l" using assms(1) by (induction l) auto
  have "dropCR l = l" using assms(3) by (auto simp: dropCR_def)
  then show ?thesis using assms(2) by (subst scan_lines.simps) (simp add: t)
qed

lemma trim_prefix_None: "list_all (\<lambda>c. c = [] \<or> hd c \<noteq> b) cs \<Longrightarrow> trim_prefix cs (b # l) = None"
proof (induction cs)
  case (Cons c cs)
  then show ?case by (cases c) auto
qed simp

lemma TrimSpace_same:
  assumes "list_all (\<lambda>c. hd c \<noteq> hd l) space_chars" "list_all (\<lambda>c. last c \<noteq> last l) space_chars" "l \<noteq> []"
  shows "TrimSpace l = l"
proof -
  obtain b r where l: "l = b # r" using assms(3) by (cases l) auto
  obtain b' r' where l': "rev l = b' # r'" using assms(3) by (cases "rev l") auto
  have b': "last l = b'" using l' by (metis hd_rev list.sel(1))
  have "trim_prefix space_chars l = None" using assms(1) unfolding l by (intro trim_prefix_None) (auto simp: list_all_iff)
  then have 1: "trim_left space_chars l = l" by (simp add: trim_left.simps)
  have "list_all (\<lambda>c. c = [] \<or> hd c \<noteq> b') (map rev space_chars)"
    using assms(2) by (auto simp: list_all_iff b' hd_rev)
  then have "trim_prefix (map rev space_chars) (rev l) = None" unfolding l' by (rule trim_prefix_None)
  then have "trim_left (map rev space_chars) (rev l) = rev l" by (simp add: trim_left.simps)
  then show ?thesis using 1 by (simp add: TrimSpace_def)
qed

section \<open>Properties\<close>

text \<open>C32. What the server encodes as a result, the client prints: a line with the column names, a line of dashes of that length, and
  a line with the tab-separated values of every row; the stream is left at the next reply. (One to 255 columns, strings
  shorter than 64 KiB.)\<close>

theorem result_displayed:
  assumes "cols \<noteq> []" "length cols < 256" "\<forall>c \<in> set cols. length c < 65536"
    "\<forall>row \<in> set rows. \<forall>c \<in> set cols. length (row_get row c) < 65536" "length (EncodeResult cols rows) < 2 ^ 32"
  shows "cli_receive (EncodeResult cols rows @ rest) =
    Some (Printed (join_tab cols # replicate (length (join_tab cols)) 45 # map (\<lambda>row. join_tab (map (row_get row) cols)) rows), rest)"
proof -
  let ?n = "of_nat (length cols) :: byte"
  let ?rs = "map (\<lambda>row. map (row_get row) cols) rows"
  let ?pre = "?n # concat (map EncodeString cols)"
  let ?data = "?pre @ concat (map (\<lambda>row. concat (map EncodeString row)) ?rs)"
  have e: "EncodeResult cols rows = EncodeMessage MsgResult ?data"
    by (simp add: EncodeResult_def comp_def)
  have n: "unat ?n = length cols" using assms(2) by (simp add: unat_of_nat take_bit_nat_eq_self)
  have "read_cells (length cols) ([?n] @ concat (map EncodeString cols) @ concat (map (\<lambda>row. concat (map EncodeString row)) ?rs)) (length [?n]) =
      Some (Some (cols, length ([?n] @ concat (map EncodeString cols))))"
    by (rule read_cells_strings [OF assms(3)])
  then have c: "read_cells (length cols) ?data 1 = Some (Some (cols, length ?pre))" by simp
  have r: "print_rows (length cols) ?data (length ?pre) out = Some (out @ map join_tab ?rs)" for out
    by (rule print_rows_strings) (use assms(1,4) in auto)
  have i: "index ?data 0 = Some ?n" and len: "(length ?data < 1) = False" by (simp_all add: index_def)
  have "printResult ?data = Some ([join_tab cols, replicate (length (join_tab cols)) 45] @ map join_tab ?rs)"
    by (simp only: printResult_def i len if_False Option.bind.bind_lunit n c option.case prod.case r)
  then show ?thesis unfolding e using assms(5) [unfolded e] by (subst receive_result) (simp_all add: EncodeMessage_def comp_def)
qed

theorem result_displayed_witness:
  "cli_receive (EncodeResult [[97], [98]] [[[97] \<mapsto> [49, 50]]]) = Some (Printed [[97, 9, 98], [45, 45, 45], [49, 50, 9]], [])"
  using result_displayed [of "[[97], [98]]" "[[[97] \<mapsto> [49, 50]]]" "[]"]
  by (simp add: row_get_def EncodeResult_def EncodeMessage_def EncodeString_def)

text \<open>A result with rows and 256 columns (or a multiple) hangs the client: the count of the columns is one byte, which is then
  0, and the loop over the rows does not advance.\<close>

theorem client_hangs:
  assumes "256 dvd length cols" "cols \<noteq> []" "length (EncodeResult cols rows) < 2 ^ 32"
  shows "cli_receive (EncodeResult cols rows @ rest) = None"
proof -
  obtain p where p: "EncodeResult cols rows = EncodeMessage MsgResult (of_nat (length cols) # p)" "p \<noteq> []"
    using assms(2) by (cases cols) (auto simp: EncodeResult_def EncodeString_def be_bytes_def numeral_2_eq_2)
  have z: "(of_nat (length cols) :: byte) = 0" using assms(1) by (simp add: word_of_nat_eq_0_iff)
  have "printResult (0 # p) = None" using p(2) print_rows_no_columns [of 1 "0 # p"] by (simp add: printResult_def index_def)
  then show ?thesis using assms(3) unfolding p z by (subst receive_result) (simp_all add: EncodeMessage_def)
qed

theorem client_hangs_witness: "cli_receive (EncodeResult (replicate 256 [97]) []) = None"
  using client_hangs [of "replicate 256 [97]" "[]" "[]"]
  by (simp add: EncodeResult_def EncodeMessage_def EncodeString_def length_concat sum_list_replicate)

end
