(* ===== verification/Session.thy ===== *)
theory Session
  imports Rel_Spec Sql_Stmt Server Cli
begin

text \<open>
  The whole way of a statement: what is typed at the command line client, through the wire protocol, the server, the
  parser, the executor and the relational layer, down to the storage and back to what the client prints. The lines that
  are followed create tables, insert rows, or are transaction commands; their effect is specified on the catalog of
  tables and rows. The lemmas are over every storage that keeps the contract of a map.
\<close>

section \<open>The connection\<close>

text \<open>
  What the client writes arrives at the server in pieces as large as the buffer that its session reads into. The server
  answers every piece; when it crashed or hung up, the connection is closed.
\<close>

definition buf_size :: "session \<Rightarrow> nat" where
  "buf_size ses = (case ses of NeedAuth \<Rightarrow> 512 | _ \<Rightarrow> 4096)"

function deliver :: "('s, 'p) host \<Rightarrow> nat \<Rightarrow> int \<Rightarrow> 's world \<Rightarrow> bytes \<Rightarrow> ('s world \<times> bytes list) option" where
  "deliver H i now w m =
     (if m = [] then Some (w, [])
      else
        let n = buf_size (sessions w ! i) in
        (case serve_event H w (Received i (take n m) now now now) of
           None \<Rightarrow> None
         | Some (w, out) \<Rightarrow> map_option (\<lambda>(w, outs). (w, out @ outs)) (deliver H i now w (drop n m))))"
  by pat_completeness auto
termination
  by (relation "measure (\<lambda>(_, _, _, _, m). length m)") (auto simp: buf_size_def split: session.splits)

declare deliver.simps [simp del]

definition wire :: "('s, 'p) host \<Rightarrow> nat \<Rightarrow> int \<Rightarrow> 's world option peer" where
  "wire H i now w m =
     (case w of
        None \<Rightarrow> None
      | Some w \<Rightarrow>
          (case deliver H i now w m of
             None \<Rightarrow> Some ([], True, None)
           | Some (w, outs) \<Rightarrow> Some (concat outs, sessions w ! i = Hungup, Some w)))"

section \<open>What lines mean\<close>

definition row_of :: "sexpr list \<Rightarrow> Val list" where
  "row_of es = map (\<lambda>e. evalNode (node_of e)) es"

definition table_of :: "string \<Rightarrow> (string \<times> coltype) list \<Rightarrow> string list \<Rightarrow> TableDef" where
  "table_of t cols ks =
     \<lparr>tab_Name = t, Cols = map (\<lambda>c. \<lparr>col_Name = fst c, col_Type = sqlTypeToColType (type_code (snd c))\<rparr>) cols,
      PKeys = int (length ks), Indexes = [], Prefix = 0\<rparr>"

fun line_step :: "catalog \<Rightarrow> sstmt \<Rightarrow> rel_res \<times> catalog" where
  "line_step C (MkTable t cols ks) = spec_step C (DoCreate (table_of t cols ks))"
| "line_step C (Store t cols es) = spec_step C (DoInsert t (row_of es))"
| "line_step C s = (Changed False, C)"

fun line_run :: "catalog \<Rightarrow> sstmt list \<Rightarrow> rel_res list \<times> catalog" where
  "line_run C [] = ([], C)"
| "line_run C (s # ss) = (let (r, C) = line_step C s; (rs, C) = line_run C ss in (r # rs, C))"

text \<open>A line that fits the server's buffer, names all columns of its table in order, and inserts a row that the storage takes.\<close>

fun line_op_ok :: "(bytes \<Rightarrow> bytes option \<Rightarrow> bool) \<Rightarrow> catalog \<Rightarrow> sstmt \<Rightarrow> bool" where
  "line_op_ok fit C (MkTable t cols ks) = True"
| "line_op_ok fit C (Store t cols es) =
     (op_ok fit (cat_tables C) (DoInsert t (row_of es)) \<and> (case cat_tables C t of None \<Rightarrow> True | Some d \<Rightarrow> cols = names d))"
| "line_op_ok fit C (Command c) = True"
| "line_op_ok fit C s = False"

definition line_ok :: "(bytes \<Rightarrow> bytes option \<Rightarrow> bool) \<Rightarrow> catalog \<Rightarrow> sstmt \<Rightarrow> bool" where
  "line_ok fit C s \<longleftrightarrow> stmt_ok s \<and> line_op_ok fit C s \<and> length (stmt_text s) \<le> 4091 \<and> CHR 0x0A \<notin> set (stmt_text s)"

fun lines_ok :: "(bytes \<Rightarrow> bytes option \<Rightarrow> bool) \<Rightarrow> catalog \<Rightarrow> sstmt list \<Rightarrow> bool" where
  "lines_ok fit C [] = True"
| "lines_ok fit C (s # ss) = (line_ok fit C s \<and> lines_ok fit (snd (line_step C s)) ss)"

text \<open>What the client shows for the result of a line.\<close>

fun shown :: "('s, 'p) host \<Rightarrow> rel_res \<Rightarrow> reply" where
  "shown H (Refused e) = ErrorText (h_error H (ExecErr (RelError e)))"
| "shown H r = Acknowledged"

fun answer :: "('s, 'p) host \<Rightarrow> rel_res \<Rightarrow> bytes" where
  "answer H (Refused e) = sendError H (ExecErr (RelError e))"
| "answer H r = sendReady"

section \<open>One line\<close>

lemma Execute_table:
  "Execute S P pgs db (stmt_of (MkTable t cols ks)) =
    map_option (\<lambda>(r, db). (case r of Refused e \<Rightarrow> Inl (RelError e) | _ \<Rightarrow> Inr NoResult, db)) (rel_step S db (DoCreate (table_of t cols ks)))"
proof -
  have "execCreateTable db \<lparr>ct_Table = t, ct_Cols = map col_node cols, ct_PKeys = ks\<rparr> = CreateTable db (table_of t cols ks)"
    by (simp add: execCreateTable_def table_of_def comp_def col_node_def)
  then show ?thesis by (simp add: Execute_def outcome_def split_beta Let_def split: option.split)
qed

lemma Execute_store:
  assumes "case tables db t of None \<Rightarrow> True | Some d \<Rightarrow> cols = names d \<and> length es = length (Cols d)"
  shows "Execute S P pgs db (stmt_of (Store t cols es)) =
    map_option (\<lambda>(r, db). (case r of Refused e \<Rightarrow> Inl (RelError e) | _ \<Rightarrow> Inr NoResult, db)) (rel_step S db (DoInsert t (row_of es)))"
proof (cases "tables db t")
  case None
  then show ?thesis by (simp add: Execute_def outcome_def execInsert_def DB_TableDef_def DB_Insert_def)
next
  case (Some d)
  have "rec_for db t (row_of es) = \<lparr>rec_Cols = cols, rec_Vals = evalNodes (map node_of es)\<rparr>"
    using assms Some by (simp add: rec_for_def DB_TableDef_def leading_def names_def row_of_def evalNodes_def comp_def)
  moreover have "outcome (case r of Inl e \<Rightarrow> Some e | Inr _ \<Rightarrow> None, db) =
      (case change_res r of Refused e \<Rightarrow> Inl (RelError e) | _ \<Rightarrow> Inr NoResult, db)" for r :: "rel_error + bool" and db :: "'a rel_DB"
    by (cases r) (simp_all add: outcome_def)
  ultimately show ?thesis using Some
    by (cases "DB_Insert S db t (rec_for db t (row_of es))") (auto simp: Execute_def execInsert_def DB_TableDef_def)
qed

lemma srv_db_put [simp]: "srv_db (put_db s db) = db"
  by (simp add: srv_db_def put_db_def)

text \<open>Transaction commands that come as messages of their own do not touch the database.\<close>

lemma begin_handled:
  assumes "conn_tx (heap (srv_pool s) ! pc) = None"
  shows "\<exists>s'. on_read H s (Serving pc) (EncodeMessage MsgBegin []) now t1 t2 = Some (s', Serving pc, [sendReady]) \<and> srv_db s' = srv_db s"
proof -
  have d: "DecodeMessage (EncodeMessage MsgBegin []) = Some (MsgBegin, [], True)" using DecodeMessage_EncodeMessage [of "[]" MsgBegin "[]"] by simp
  obtain tx m where b: "Begin (h_storage H) (pool_mgr (srv_pool s)) 0 = (tx, m)" by fastforce
  have "mgr_kv m = mgr_kv (pool_mgr (srv_pool s))" using b by (auto simp: Begin_def Let_def)
  then show ?thesis using d b assms
    by (simp add: on_read_def handleMessage_def conn_Begin_def srv_db_def MsgBegin_def MsgQuery_def)
qed

lemma abort_handled:
  "\<exists>s'. on_read H s (Serving pc) (EncodeMessage MsgAbort []) now t1 t2 = Some (s', Serving pc, [sendReady]) \<and> srv_db s' = srv_db s"
proof -
  have d: "DecodeMessage (EncodeMessage MsgAbort []) = Some (MsgAbort, [], True)" using DecodeMessage_EncodeMessage [of "[]" MsgAbort "[]"] by simp
  have "mgr_kv (fst (Abort m tx)) = mgr_kv m" for m :: "'a Manager" and tx
    by (simp add: Abort_def updateMinVer_def Let_def)
  then have "mgr_kv (pool_mgr (conn_Abort (srv_pool s) pc)) = mgr_kv (pool_mgr (srv_pool s))"
    by (simp add: conn_Abort_def split_beta split: option.split)
  then show ?thesis using d
    by (simp add: on_read_def handleMessage_def srv_db_def MsgBegin_def MsgQuery_def MsgCommit_def MsgAbort_def)
qed

text \<open>The client reads back what the server answers.\<close>

lemma receive_answer:
  assumes "\<forall>e. length (h_error H e) < 2 ^ 32"
  shows "cli_receive (answer H r @ rest) = Some (shown H r, rest)"
proof -
  have ready: "cli_receive (sendReady @ rest) = Some (Acknowledged, rest)"
    by (simp add: cli_receive_def sendReady_def EncodeMessage_def MsgReady_def msgReady_def msgResult_def msgError_def str_bytes_def byte_simps)
  have "unat (of_nat (length (h_error H e)) :: u32) = length (h_error H e)" for e
    using assms by (simp add: unat_of_nat take_bit_nat_eq_self)
  then have "cli_receive (sendError H e @ rest) = Some (ErrorText (h_error H e), rest)" for e
    by (simp add: cli_receive_def sendError_def EncodeMessage_def MsgError_def msgResult_def msgError_def byte_simps)
  then show ?thesis using ready by (cases r) simp_all
qed

text \<open>The client sends the line as it was typed.\<close>

lemma line_edges:
  assumes "stmt_ok s" "line_op_ok fit C s"
  shows "stmt_text s \<noteq> [] \<and> hd (stmt_text s) \<in> set ''ciba'' \<and> last (stmt_text s) \<in> set '')nt''"
proof (cases s)
  case (Command c)
  moreover have "map lower ''BEGIN'' = ''begin''" "map lower ''COMMIT'' = ''commit''" "map lower ''ABORT'' = ''abort''" by code_simp+
  ultimately show ?thesis using assms(1) by (elim stmt_ok.elims(2)) auto
qed (use assms in \<open>simp_all add: table_text_def insert_text_def last_append\<close>)

lemma of_char_byte: "(of_char c :: byte) = of_char d \<longleftrightarrow> c = d"
proof
  assume "(of_char c :: byte) = of_char d"
  then have "bytes_str (str_bytes [c]) = bytes_str (str_bytes [d])" by (simp add: str_bytes_def)
  then show "c = d" unfolding bytes_str_inverse by simp
qed simp

lemma edge_bytes:
  "list_all (\<lambda>b. list_all (\<lambda>c. hd c \<noteq> b) space_chars) [99, 105, 98, 97]"
  "list_all (\<lambda>b. list_all (\<lambda>c. last c \<noteq> b) space_chars) [41, 110, 116]"
  by code_simp+

lemma not_leaves: "\<not> leaves (99 # l)" "\<not> leaves (105 # l)" "\<not> leaves (98 # l)" "\<not> leaves (97 # l)"
  by (simp_all add: leaves_def)

lemma line_sent:
  assumes "line_ok fit C s"
  shows "TrimSpace (str_bytes (stmt_text s)) = str_bytes (stmt_text s)" "str_bytes (stmt_text s) \<noteq> []" "\<not> leaves (str_bytes (stmt_text s))"
    "scan_lines (str_bytes (stmt_text s) @ 10 # input) = str_bytes (stmt_text s) # scan_lines input"
proof -
  note e = line_edges [of s fit C]
  have ne: "stmt_text s \<noteq> []" and h: "hd (stmt_text s) \<in> set ''ciba''" and l: "last (stmt_text s) \<in> set '')nt''"
    using e assms by (simp_all add: line_ok_def)
  have "hd (str_bytes (stmt_text s)) = of_char (hd (stmt_text s))" "last (str_bytes (stmt_text s)) = of_char (last (stmt_text s))"
    using ne by (simp_all add: str_bytes_def hd_map last_map)
  then have hb: "hd (str_bytes (stmt_text s)) \<in> set [99, 105, 98, 97]" and lb: "last (str_bytes (stmt_text s)) \<in> set [41, 110, 116]"
    using h l by auto
  show n: "str_bytes (stmt_text s) \<noteq> []" using ne by (simp add: str_bytes_def)
  show "TrimSpace (str_bytes (stmt_text s)) = str_bytes (stmt_text s)"
    using edge_bytes hb lb unfolding list_all_iff [of _ "[99, 105, 98, 97]"] list_all_iff [of _ "[41, 110, 116]"]
    by (intro TrimSpace_same [OF _ _ n]) blast+
  show "\<not> leaves (str_bytes (stmt_text s))"
    using hb n not_leaves by (cases "str_bytes (stmt_text s)") auto
  have "CHR 0x0A \<notin> set (stmt_text s)" using assms unfolding line_ok_def by blast
  moreover have "of_char CHR 0x0A = (10 :: byte)" by simp
  ultimately have "10 \<notin> set (str_bytes (stmt_text s))" unfolding str_bytes_def set_map by (metis imageE of_char_byte)
  moreover have "length (str_bytes (stmt_text s)) < 65536" using assms by (simp add: line_ok_def str_bytes_def)
  ultimately show "scan_lines (str_bytes (stmt_text s) @ 10 # input) = str_bytes (stmt_text s) # scan_lines input"
    using lb by (intro scan_lines_line) auto
qed

context storage_spec
begin

lemma line_executes:
  assumes "ready (Suc n) (rel_kv db)" "rows_decode (content (rel_kv db))" "stmt_ok s" "line_op_ok fit (catalog_of content db) s"
  shows "\<exists>db' v. ExecuteRaw S P pgs db (stmt_text s) =
      Some (case fst (line_step (catalog_of content db) s) of Refused e \<Rightarrow> Inl (RelError e) | _ \<Rightarrow> Inr v, db') \<and> (\<forall>rs. v \<noteq> Records rs) \<and>
    ready n (rel_kv db') \<and> rows_decode (content (rel_kv db')) \<and> catalog_of content db' = snd (line_step (catalog_of content db) s)"
proof -
  have raw: "ExecuteRaw S P pgs db (stmt_text s) = Execute S P pgs db (stmt_of s)" using stmt_read [OF assms(3)] by (simp add: ExecuteRaw_def)
  have step: "\<exists>db' v. map_option (\<lambda>(r, db). (case r of Refused e \<Rightarrow> Inl (RelError e) | _ \<Rightarrow> Inr NoResult, db)) (rel_step S db q) =
      Some (case fst (spec_step (catalog_of content db) q) of Refused e \<Rightarrow> Inl (RelError e) | _ \<Rightarrow> Inr v, db') \<and> (\<forall>rs. v \<noteq> Records rs) \<and>
    ready n (rel_kv db') \<and> rows_decode (content (rel_kv db')) \<and> catalog_of content db' = snd (spec_step (catalog_of content db) q)"
    if "op_ok fit (tables db) q" for q
    using rel_step_refines [OF assms(1,2) that] by (force intro: exI [of _ NoResult])
  show ?thesis
  proof (cases s)
    case (MkTable t cols ks)
    then show ?thesis using step [of "DoCreate (table_of t cols ks)"] unfolding raw by (simp add: Execute_table del: stmt_of.simps)
  next
    case (Store t cols es)
    then have "case tables db t of None \<Rightarrow> True | Some d \<Rightarrow> cols = names d \<and> length es = length (Cols d)"
      using assms(4) by (auto simp: row_of_def split: option.splits)
    then show ?thesis using step [of "DoInsert t (row_of es)"] assms(4) Store unfolding raw by (simp add: Execute_store del: stmt_of.simps)
  next
    case (Command c)
    then show ?thesis using assms(2) fewer [OF assms(1), of n] unfolding raw
      by (intro exI [of _ db] exI [of _ "TextResult c"]) (simp add: Execute_def)
  qed (use assms(4) in simp_all)
qed

text \<open>A line arrives at a session that is served.\<close>

lemma line_handled:
  assumes "h_storage H = S" "ready (Suc n) (rel_kv (srv_db s))" "rows_decode (content (rel_kv (srv_db s)))"
    "line_ok fit (catalog_of content (srv_db s)) x"
  shows "\<exists>s'. on_read H s (Serving pc) (cli_message (str_bytes (stmt_text x))) now t1 t2 =
      Some (s', Serving pc, [answer H (fst (line_step (catalog_of content (srv_db s)) x))]) \<and> ready n (rel_kv (srv_db s')) \<and>
    rows_decode (content (rel_kv (srv_db s'))) \<and> catalog_of content (srv_db s') = snd (line_step (catalog_of content (srv_db s)) x)"
proof -
  let ?q = "str_bytes (stmt_text x)" and ?r = "fst (line_step (catalog_of content (srv_db s)) x)"
  obtain db v where db: "ExecuteRaw S (h_pager H) (h_pages H) (srv_db s) (stmt_text x) =
      Some (case ?r of Refused e \<Rightarrow> Inl (RelError e) | _ \<Rightarrow> Inr v, db)" "\<forall>rs. v \<noteq> Records rs"
    "ready n (rel_kv db)" "rows_decode (content (rel_kv db))" "catalog_of content db = snd (line_step (catalog_of content (srv_db s)) x)"
    using line_executes [OF assms(2,3), of x "h_pager H" "h_pages H"] assms(4) unfolding line_ok_def by metis
  have "length ?q < 2 ^ 32 - 5" using assms(4) by (simp add: line_ok_def str_bytes_def)
  then have "DecodeMessage (EncodeMessage MsgQuery ?q @ []) = Some (MsgQuery, ?q, True)" by (rule DecodeMessage_EncodeMessage)
  then have d: "DecodeMessage (cli_message ?q) = Some (MsgQuery, ?q, True)"
    by (simp add: cli_message_def EncodeMessage_def MsgQuery_def msgQuery_def)
  have "handleQuery H s ?q = Some (put_db s db, answer H ?r)"
    using db(1,2) assms(1) by (cases ?r; cases v) (simp_all add: handleQuery_def)
  then show ?thesis using d db(3-5) by (intro exI [of _ "put_db s db"]) (simp add: on_read_def handleMessage_def)
qed

lemma line_over_wire:
  assumes "h_storage H = S" "i < length (sessions w)" "sessions w ! i = Serving pc" "ready (Suc n) (rel_kv (srv_db (srv w)))"
    "rows_decode (content (rel_kv (srv_db (srv w))))" "line_ok fit (catalog_of content (srv_db (srv w))) x"
  shows "\<exists>w'. wire H i now (Some w) (cli_message (str_bytes (stmt_text x))) =
      Some (answer H (fst (line_step (catalog_of content (srv_db (srv w))) x)), False, Some w') \<and>
    i < length (sessions w') \<and> sessions w' ! i = Serving pc \<and> ready n (rel_kv (srv_db (srv w'))) \<and>
    rows_decode (content (rel_kv (srv_db (srv w')))) \<and>
    catalog_of content (srv_db (srv w')) = snd (line_step (catalog_of content (srv_db (srv w))) x)"
proof -
  let ?m = "cli_message (str_bytes (stmt_text x))"
  obtain s where s: "on_read H (srv w) (Serving pc) ?m now now now =
      Some (s, Serving pc, [answer H (fst (line_step (catalog_of content (srv_db (srv w))) x))])" "ready n (rel_kv (srv_db s))"
    "rows_decode (content (rel_kv (srv_db s)))" "catalog_of content (srv_db s) = snd (line_step (catalog_of content (srv_db (srv w))) x)"
    using line_handled [OF assms(1,4-6)] by blast
  have m: "?m \<noteq> []" "length ?m \<le> 4096" using assms(6) by (simp_all add: cli_message_def line_ok_def str_bytes_def)
  then have "deliver H i now w ?m = Some (\<lparr>srv = s, sessions = (sessions w)[i := Serving pc]\<rparr>,
      [answer H (fst (line_step (catalog_of content (srv_db (srv w))) x))])"
    using s(1) assms(2,3) by (subst deliver.simps) (simp add: buf_size_def deliver.simps [of _ _ _ _ "[]"])
  then show ?thesis using s(2-4) assms(2) by (simp add: wire_def)
qed

lemma session_lines:
  assumes "h_storage H = S" "\<forall>e. length (h_error H e) < 2 ^ 32"
  shows "i < length (sessions w) \<Longrightarrow> sessions w ! i = Serving pc \<Longrightarrow> ready (n + length xs) (rel_kv (srv_db (srv w))) \<Longrightarrow>
    rows_decode (content (rel_kv (srv_db (srv w)))) \<Longrightarrow> lines_ok fit (catalog_of content (srv_db (srv w))) xs \<Longrightarrow>
    \<exists>w'. cli_loop (wire H i now) (Some w) [] (scan_lines (concat (map (\<lambda>x. str_bytes (stmt_text x) @ [10]) xs))) =
      Some (concat (map (\<lambda>r. [Prompt, Reply (shown H r)]) (fst (line_run (catalog_of content (srv_db (srv w))) xs))) @ [Prompt], Some w') \<and>
    catalog_of content (srv_db (srv w')) = snd (line_run (catalog_of content (srv_db (srv w))) xs)"
proof (induction xs arbitrary: w)
  case (Cons x xs)
  let ?C = "catalog_of content (srv_db (srv w))"
  have x: "line_ok fit ?C x" using Cons.prems(5) by simp
  obtain w1 where w1: "wire H i now (Some w) (cli_message (str_bytes (stmt_text x))) = Some (answer H (fst (line_step ?C x)), False, Some w1)"
    "i < length (sessions w1)" "sessions w1 ! i = Serving pc" "ready (n + length xs) (rel_kv (srv_db (srv w1)))"
    "rows_decode (content (rel_kv (srv_db (srv w1))))" "catalog_of content (srv_db (srv w1)) = snd (line_step ?C x)"
    using line_over_wire [OF assms(1) Cons.prems(1,2), of "n + length xs" x now] Cons.prems(3,4) x by auto
  obtain w2 where w2: "cli_loop (wire H i now) (Some w1) [] (scan_lines (concat (map (\<lambda>x. str_bytes (stmt_text x) @ [10]) xs))) =
      Some (concat (map (\<lambda>r. [Prompt, Reply (shown H r)]) (fst (line_run (snd (line_step ?C x)) xs))) @ [Prompt], Some w2)"
    "catalog_of content (srv_db (srv w2)) = snd (line_run (snd (line_step ?C x)) xs)"
    using Cons.IH [OF w1(2-5)] Cons.prems(5) unfolding w1(6) by auto
  have "shown H r \<noteq> Disconnected" for r by (cases r) simp_all
  then show ?case using w1(1) w2 line_sent [OF x] receive_answer [OF assms(2), of "fst (line_step ?C x)" "[]"]
    by (intro exI [of _ w2]) (simp add: Let_def split_beta)
qed simp

end

end
