(* ===== verification/Spec2Isabelle.thy ===== *)
theory Spec2Isabelle
  imports Tree_Props Node_Props KV_Props Parser_Pos Server_Main Session
begin

text \<open>
  Verification of SvacaraDB, a relational database engine in Go.

  \<^bold>\<open>The program.\<close> A client sends framed messages over a connection. The server decodes them, parses the SQL text and executes
  the statement on tables. A row of a table is one pair of a key-value store: the key is the hash of the table's name and
  the encoded primary key, the value the encoded other columns. The store is one file or several shards; each file is a
  copy-on-write B+tree of 4096-byte pages behind a page manager, with a free list, overflow chains and a checksummed meta
  page. A transaction manager with optimistic conflict detection and a connection pool sit between the server and the store.

  \<^bold>\<open>Conventions.\<close> A definition has the name of the Go function it translates, or that name with the type in front where several
  types have it. A struct is a record, an enumeration its numbers, a slice a list, a map a partial function or, where the
  order of iteration matters, an association list with the order as an argument. Integers that can overflow are words; \<^verbatim>\<open>int\<close>
  is \<open>int\<close> or \<open>nat\<close> where lengths bound it. A panic, a fault or a loop that does not end is \<open>None\<close>; an error is a
  value. The capacity of a slice is its length, except for \<open>key_prefix\<close>, where the code reslices a key past its end. What
  is not under \<^verbatim>\<open>src/\<close> is an argument: the results of writing, mapping and synchronising the file (\<open>kv_env\<close>), the directory
  (\<open>file_system\<close>), the clock, the order of map iteration, and the text \<^verbatim>\<open>fmt\<close> prints for errors and floats (\<open>host\<close>).

  \<^bold>\<open>The theories.\<close>
  \<^item> \<open>Prelude\<close>: byte orders, slices, reading and writing at offsets, the order of byte strings.
  \<^item> \<open>Node\<close>, \<open>NodeOps\<close>, \<open>BTree\<close> (\<^verbatim>\<open>btree/node.go\<close>, \<^verbatim>\<open>insert.go\<close>, \<^verbatim>\<open>delete.go\<close>): the bytes of a node, copying and
    splitting, and \<open>Insert\<close>, \<open>Get\<close>, \<open>Delete\<close> over the three page callbacks. \<open>bnode\<close> relates the bytes of a node to its
    entries.
  \<^item> \<open>Tree_Spec\<close>, \<open>Tree_Ops\<close>, \<open>Tree_Insert\<close>, \<open>Tree_Delete\<close>: the abstract tree, its well-formedness, and the locale
    \<open>page_store\<close>, the contract of the callbacks. In it, every operation is refined to an operation on the sorted content
    (\<open>holds\<close>), exchanges only its own pages and needs at most \<open>2h + 3\<close> new ones.
  \<^item> \<open>Mem_Tree\<close> (\<^verbatim>\<open>btree/btree_test.go\<close>): the in-memory store, the first interpretation of \<open>page_store\<close>. \<open>Tree_Props\<close> and
    \<open>Node_Props\<close> hold the properties of trees and nodes.
  \<^item> \<open>Iterator\<close>, \<open>FreeList\<close>, \<open>Overflow\<close> (\<^verbatim>\<open>btree/iterator.go\<close>, \<^verbatim>\<open>freelist.go\<close>, \<^verbatim>\<open>overflow.go\<close>): the lemmas of the free list and of
    the chains are in the locales \<open>free_store\<close> and \<open>overflow_store\<close>.
  \<^item> \<open>Meta\<close>, \<open>PageMgr\<close> (\<^verbatim>\<open>storage/page.go\<close>, \<^verbatim>\<open>recovery.go\<close>): the meta page and its CRC, and reading, allocating, flushing
    and recovering pages.
  \<^item> \<open>KV\<close> (\<^verbatim>\<open>kvstore/kv.go\<close>): opening, the operations and the two-phase commit with rollback. \<open>KV_Props\<close> interprets the
    locales of trees, free lists and chains on its callbacks and has the properties of the store.
  \<^item> \<open>Encoding\<close> (\<^verbatim>\<open>kvstore/encoding.go\<close>, \<^verbatim>\<open>types.go\<close>): values, their round trip and their order.
  \<^item> \<open>Transaction\<close> (\<^verbatim>\<open>transaction/tx.go\<close>, \<^verbatim>\<open>kvstore/interface.go\<close>): the manager; \<open>reach\<close> is the step relation of all
    interleavings of \<open>Begin\<close>, reads, writes, \<open>Commit\<close> and \<open>Abort\<close>. The locale \<open>storage_spec\<close> is the contract of a storage
    as a map; it is interpreted on the in-memory tree and, in \<open>Shard\<close> (\<^verbatim>\<open>shard/shard.go\<close>), on shards of it.
  \<^item> \<open>Pool\<close> (\<^verbatim>\<open>pool/pool.go\<close>): connections as indices into a heap, shared between the pool and its clients.
  \<^item> \<open>Relational\<close> (\<^verbatim>\<open>relational/types.go\<close>, \<^verbatim>\<open>table.go\<close>): tables, rows, indexes and scans over a storage. \<open>Rel_Spec\<close> is its
    specification, a catalog of tables and of maps from primary keys to rows, with the abstraction \<open>catalog_of\<close> and the
    refinement of every operation, over every storage that keeps the contract.
  \<^item> \<open>SqlParser\<close>, \<open>SqlExec\<close> (\<^verbatim>\<open>sql/ast.go\<close>, \<^verbatim>\<open>parser.go\<close>, \<^verbatim>\<open>planner.go\<close>, \<^verbatim>\<open>executor.go\<close>): the parser on the input that is
    left, the planner and the executor. \<open>Parser_Pos\<close> has the functions that move the parser's position as they are written
    and refines them to those of \<open>SqlParser\<close>. \<open>Sql_Print\<close> and \<open>Sql_Stmt\<close> print expressions and statements and show that
    the parser reads them back.
  \<^item> \<open>Protocol\<close>, \<open>Server\<close>, \<open>Server_Main\<close>, \<open>Cli\<close> (\<^verbatim>\<open>protocol/protocol.go\<close>, \<^verbatim>\<open>server/server.go\<close>, \<^verbatim>\<open>cmd/svacara-server/main.go\<close>,
    \<^verbatim>\<open>cmd/svacara-cli/main.go\<close>): the wire format, the server with any number of interleaved sessions, how it is started, and the
    client with its loop over the lines that are typed.
  \<^item> \<open>Session\<close> composes them: the lines typed at a client, through the connection to the server and its store, and back to
    what the client prints. This theory has the properties of the composition.

  \<^bold>\<open>What is shown.\<close> The tree refines a finite map on any page store that keeps the contract, without leaking pages; commits are
  durable and failed updates undone; encodings are injective, order preserving and typed; a transaction that runs alone acts as
  its calls on a map, also over shards, and trimming its history loses no conflict; the relational layer over shards refines
  the catalog, and insertions maintain indexes; the parser ends on every input and inverts the printers; scans respect
  offset and limit; clients without the token change nothing and clients do not share connections; a session at the command
  line that creates tables and inserts rows shows and leaves what the catalog says. Where the code does not do what it means
  to, a theorem states what it does instead: the second \<open>Set\<close> on a file faults, two transactions can lose an update, a
  \<^verbatim>\<open>SELECT\<close> on a table with a primary key crashes the server, tables hide each other's rows from scans, \<^verbatim>\<open>ABORT\<close> does not
  undo statements, long messages are refused, and a failure to listen with TLS crashes. Because of the first of these, the
  properties above the store are stated for the in-memory tree, shards of it and every storage that keeps the contract,
  not for a file.

  \<^bold>\<open>Bounds and fuel.\<close> Tree properties are for keys of 12 to 460 bytes and pairs of at most 920 bytes (\<open>usual\<close>), for which
  every split fits its pages; deletion is for keys of equal length, since a longer separator can overflow a page (in
  \<open>mem_fit\<close>, length 0 stands for keys of any length that are not deleted). Iteration is for trees of one or two levels.
  \<open>mem_ready\<close> counts the pages that a number of operations can need. The functions for expressions take fuel; the length of
  the input is enough (\<open>pExpr_enough\<close>). The pool and the sessions are considered while no connection is old enough to be
  dropped. Lines of a session fit the 4096 bytes of the server's buffer, and each is read by the server at once.

  \<^bold>\<open>Not modelled.\<close> What happens inside the operating system and the standard library: files behind their descriptors, \<^verbatim>\<open>mmap\<close>,
  sockets, TLS, certificates, deadlines and the parsing of flags; their outcomes are arguments. Logging, which changes no
  state. The goroutine that waits for a signal is the event \<open>Interrupt\<close>. Data races between goroutines inside one handler:
  sessions interleave at their reads. Tests and benchmarks, apart from the in-memory store, whose pointers are allocation
  numbers instead of addresses.
\<close>

section \<open>Properties\<close>


text \<open>C38. A statement does not take part in the transaction of its connection: after \<^verbatim>\<open>BEGIN\<close>, any statement that creates a
  table or inserts a row, and \<^verbatim>\<open>ABORT\<close>, the effect of the statement is there.\<close>

theorem abort_keeps_insert:
  assumes "h_storage H = shard_storage mem_storage" "i < length (sessions w)" "sessions w ! i = Serving pc"
    and "conn_tx (heap (srv_pool (srv w)) ! pc) = None" "shard_ready (mem_ready L) 1 (rel_kv (srv_db (srv w)))"
    and "rows_decode (shard_content ref (rel_kv (srv_db (srv w))))" "line_ok (mem_fit L) (catalog_of (shard_content ref) (srv_db (srv w))) x"
  shows "\<exists>w'. serve H w [Received i (EncodeMessage MsgBegin []) a1 a2 a3,
      Received i (cli_message (str_bytes (stmt_text x))) b1 b2 b3, Received i (EncodeMessage MsgAbort []) c1 c2 c3] =
      Some (w', [sendReady, answer H (fst (line_step (catalog_of (shard_content ref) (srv_db (srv w))) x)), sendReady]) \<and>
    catalog_of (shard_content ref) (srv_db (srv w')) = snd (line_step (catalog_of (shard_content ref) (srv_db (srv w))) x)"
proof -
  obtain s1 where s1: "on_read H (srv w) (Serving pc) (EncodeMessage MsgBegin []) a1 a2 a3 = Some (s1, Serving pc, [sendReady])"
    "srv_db s1 = srv_db (srv w)" using begin_handled [OF assms(4)] by blast
  obtain s2 where s2: "on_read H s1 (Serving pc) (cli_message (str_bytes (stmt_text x))) b1 b2 b3 =
      Some (s2, Serving pc, [answer H (fst (line_step (catalog_of (shard_content ref) (srv_db (srv w))) x))])"
    "catalog_of (shard_content ref) (srv_db s2) = snd (line_step (catalog_of (shard_content ref) (srv_db (srv w))) x)"
    using sst.line_handled [OF assms(1), of L 0 s1 x pc b1 b2 b3] assms(5-7) s1(2) by auto
  obtain s3 where s3: "on_read H s2 (Serving pc) (EncodeMessage MsgAbort []) c1 c2 c3 = Some (s3, Serving pc, [sendReady])"
    "srv_db s3 = srv_db s2" using abort_handled by blast
  show ?thesis using assms(2,3) s1 s2 s3 by simp
qed

text \<open>A server on three empty trees with one client, and a table of pairs.\<close>

definition shard_host :: "(memTest shard_DB, mem) host" where
  "shard_host = \<lparr>h_storage = shard_storage mem_storage, h_pager = mem_pager, h_pages = (\<lambda>_. store newMemTest), h_order1 = id, h_order2 = id,
     h_error = (\<lambda>_. []), h_float = (\<lambda>_. []), h_close = id\<rparr>"

definition one_client :: "memTest shard_DB world" where
  "one_client = \<lparr>srv = make_server three_shards plain_config (\<lambda>_. 0), sessions = [Serving 0]\<rparr>"

definition make_pairs :: sstmt where
  "make_pairs = MkTable ''t'' [(''id'', CInt), (''v'', CText)] [''id'']"

definition store_pair :: sstmt where
  "store_pair = Store ''t'' [''id'', ''v''] [Num False ''5'', Lit [CHR 0x07]]"

lemma createConns_mgr: "pool_mgr (createConns n clock p) = pool_mgr p"
  by (induction n) (simp_all add: createConn_def Let_def)

lemma one_client_db: "srv_db (srv one_client) = OpenDB three_shards"
  by (simp add: one_client_def srv_db_def make_server_def NewPool_def Let_def createConns_mgr NewManager_def OpenDB_def)

lemma one_client_ok:
  "0 < length (sessions one_client)" "sessions one_client ! 0 = Serving 0" "h_storage shard_host = shard_storage mem_storage"
  "\<forall>e. length (h_error shard_host e) < 2 ^ 32" "conn_tx (heap (srv_pool (srv one_client)) ! 0) = None"
  "n \<le> 2 ^ 30 \<Longrightarrow> shard_ready (mem_ready 13) n (rel_kv (srv_db (srv one_client)))"
  "rows_decode (shard_content ref (rel_kv (srv_db (srv one_client))))"
  "catalog_of (shard_content ref) (srv_db (srv one_client)) = \<lparr>cat_tables = Map.empty, cat_rows = (\<lambda>_. None)\<rparr>"
proof -
  show "conn_tx (heap (srv_pool (srv one_client)) ! 0) = None" by code_simp
  show "n \<le> 2 ^ 30 \<Longrightarrow> shard_ready (mem_ready 13) n (rel_kv (srv_db (srv one_client)))"
    "rows_decode (shard_content ref (rel_kv (srv_db (srv one_client))))"
    "catalog_of (shard_content ref) (srv_db (srv one_client)) = \<lparr>cat_tables = Map.empty, cat_rows = (\<lambda>_. None)\<rparr>"
    unfolding one_client_db
    by (auto simp: OpenDB_def three_shards_ready rows_decode_def three_shards_empty catalog_of_def rows_of_def fun_eq_iff split: Option.bind_split)
qed (simp_all add: one_client_def shard_host_def)

lemma pairs_ok:
  "stmt_ok make_pairs" "stmt_ok store_pair" "length (stmt_text make_pairs) \<le> 4091" "length (stmt_text store_pair) \<le> 4091"
  "CHR 0x0A \<notin> set (stmt_text make_pairs)" "CHR 0x0A \<notin> set (stmt_text store_pair)"
  "row_of [Num False ''5'', Lit [CHR 0x07]] = pair_row"
  "(table_of ''t'' [(''id'', CInt), (''v'', CText)] [''id''])\<lparr>Prefix := hashTableName ''t''\<rparr> = pair_table ''t''"
  "names (pair_table ''t'') = [''id'', ''v'']"
  by code_simp+

definition pair_catalog :: "rows \<Rightarrow> catalog" where
  "pair_catalog M = \<lparr>cat_tables = [''t'' \<mapsto> pair_table ''t''], cat_rows = M\<rparr>"

lemma pair_lines:
  "line_step \<lparr>cat_tables = Map.empty, cat_rows = M\<rparr> make_pairs = (Changed True, pair_catalog M)"
  "line_step (pair_catalog M) make_pairs = (Refused (TableExists ''t''), pair_catalog M)"
  "line_ok (mem_fit 13) C make_pairs" "line_ok (mem_fit 13) C (Command ''BEGIN'')" "line_ok (mem_fit 13) (pair_catalog M) store_pair"
proof -
  have t: "tab_Name (table_of ''t'' c k) = ''t''" "PKeys (table_of ''t'' c k) = int (length k)" for c k by (simp_all add: table_of_def)
  show "line_step \<lparr>cat_tables = Map.empty, cat_rows = M\<rparr> make_pairs = (Changed True, pair_catalog M)"
    "line_step (pair_catalog M) make_pairs = (Refused (TableExists ''t''), pair_catalog M)"
    using pairs_ok(8) by (simp_all add: make_pairs_def pair_catalog_def t)
  show "line_ok (mem_fit 13) C make_pairs" unfolding line_ok_def using pairs_ok(1,3,5) by (simp add: make_pairs_def)
  have "length (stmt_text (Command ''BEGIN'')) \<le> 4091 \<and> CHR 0x0A \<notin> set (stmt_text (Command ''BEGIN''))" by code_simp
  then show "line_ok (mem_fit 13) C (Command ''BEGIN'')" unfolding line_ok_def by simp
  have "row_ok (mem_fit 13) (pair_table ''t'') pair_row"
    using pair_table_ok(3) [of "''t''"] pair_table_ok(4) pair_fit unfolding row_ok.simps pair_table_ok(5) pair_key by simp
  then have "line_op_ok (mem_fit 13) (pair_catalog M) store_pair"
    unfolding store_pair_def using pairs_ok(7,9) pair_table_ok(1,2) by (simp add: pair_catalog_def del: row_ok.simps)
  then show "line_ok (mem_fit 13) (pair_catalog M) store_pair" unfolding line_ok_def using pairs_ok(2,4,6) by blast
qed

lemma store_pair_step:
  "line_step (pair_catalog M) store_pair =
    (if M (hashTableName ''t'', take 1 pair_row) \<noteq> None then (Changed False, pair_catalog M)
     else (Changed True, pair_catalog (M((hashTableName ''t'', take 1 pair_row) \<mapsto> drop 1 pair_row))))"
  using pair_table_ok(5) [of "''t''"] pairs_ok(7)
  by (simp add: store_pair_def pair_catalog_def Let_def) (simp add: pair_table_def)


theorem abort_keeps_insert_witness:
  "\<exists>w'. serve shard_host one_client [Received 0 (EncodeMessage MsgBegin []) 1 1 1,
      Received 0 (cli_message (str_bytes (stmt_text make_pairs))) 2 2 2, Received 0 (EncodeMessage MsgAbort []) 3 3 3] =
      Some (w', [sendReady, sendReady, sendReady]) \<and>
    tables (srv_db (srv w')) ''t'' = Some (pair_table ''t'')"
proof -
  have ready: "shard_ready (mem_ready 13) 1 (rel_kv (srv_db (srv one_client)))" by (rule one_client_ok(6)) simp
  obtain w' where w': "serve shard_host one_client [Received 0 (EncodeMessage MsgBegin []) 1 1 1,
      Received 0 (cli_message (str_bytes (stmt_text make_pairs))) 2 2 2, Received 0 (EncodeMessage MsgAbort []) 3 3 3] =
      Some (w', [sendReady, sendReady, sendReady])" "catalog_of (shard_content ref) (srv_db (srv w')) = pair_catalog (\<lambda>_. None)"
    using abort_keeps_insert [OF one_client_ok(3,1,2,5) ready one_client_ok(7) pair_lines(3), of 1 1 1 2 2 2 3 3 3]
    unfolding one_client_ok(8) pair_lines(1) by (simp del: serve.simps) blast
  have "tables (srv_db (srv w')) = [''t'' \<mapsto> pair_table ''t'']"
    using arg_cong [OF w'(2), of cat_tables] by (simp add: pair_catalog_def)
  then show ?thesis using w'(1) by simp
qed

end
